(* ===== verification/Prelude.thy ===== *)
theory Prelude
  imports Main "HOL-Library.Word" "HOL-Library.AList"
begin

text \<open>
  Shared vocabulary of the development.

  \<^item> Machine types: a Rust \<open>u8\<close>, \<open>u16\<close>, \<open>u32\<close>, \<open>u64\<close> is a word of that width; a byte
    buffer (\<open>&[u8]\<close>, \<open>Vec<u8>\<close>, and the contents of a \<open>Bytes\<close> or \<open>BytesMut\<close>) is a list
    of bytes; a \<open>&str\<close> or \<open>String\<close> is a \<open>string\<close> (the program only builds ASCII text).
  \<^item> Errors: \<open>anyhow::Result\<close> is \<open>error + 'a\<close>. \<open>Panic\<close> marks a panic and \<open>Diverges\<close> a
    call that never returns; both pass through every caller unchanged, but neither reaches
    the code that handles an ordinary error (\<open>unwinds\<close>).
  \<^item> The operations of \<open>std\<close> the program uses on slices and hash maps, with their laws.
\<close>

section \<open>Machine types\<close>

type_synonym byte = "8 word"
type_synonym bytes = "byte list"
type_synonym u8 = "8 word"
type_synonym u16 = "16 word"
type_synonym u32 = "32 word"
type_synonym u64 = "64 word"

text \<open>An \<open>Instant\<close> is a reading of the monotonic clock, in nanoseconds.\<close>

type_synonym instant = nat

section \<open>Errors\<close>

text \<open>
  \<open>Bail\<close> carries the message of an \<open>ensure!\<close>, \<open>bail!\<close> or \<open>context\<close> on an option;
  \<open>Context\<close> is what \<open>anyhow::Context\<close> wraps around an underlying error; \<open>External\<close> is an
  error value made by the standard library or by a package (its text is not modelled).
\<close>

datatype error =
    Bail string
  | Context string error
  | External
  | Panic string
  | Diverges

type_synonym 'a result = "error + 'a"

abbreviation Ok :: "'a \<Rightarrow> 'a result" where "Ok \<equiv> Inr"
abbreviation Err :: "error \<Rightarrow> 'a result" where "Err \<equiv> Inl"

text \<open>A panic or a call that does not return leaves no value to the code after it.\<close>

fun unwinds :: "error \<Rightarrow> bool" where
  "unwinds (Panic _) = True"
| "unwinds Diverges = True"
| "unwinds _ = False"

definition is_ok :: "'a result \<Rightarrow> bool" where
  "is_ok r = (case r of Inl _ \<Rightarrow> False | Inr _ \<Rightarrow> True)"

lemma is_ok_simps [simp]: "is_ok (Ok a)" "\<not> is_ok (Err e)"
  by (simp_all add: is_ok_def)

lemma is_ok_iff: "is_ok r \<longleftrightarrow> (\<exists>a. r = Ok a)"
  by (cases r) simp_all

text \<open>\<open>Option::ok_or\<close>, \<open>Option::context\<close> and \<open>Result::context\<close>.\<close>

definition ok_or :: "error \<Rightarrow> 'a option \<Rightarrow> 'a result" where
  "ok_or e x = (case x of None \<Rightarrow> Err e | Some a \<Rightarrow> Ok a)"

lemma ok_or_simps [simp]: "ok_or e None = Err e" "ok_or e (Some a) = Ok a"
  by (simp_all add: ok_or_def)

definition map_err :: "(error \<Rightarrow> error) \<Rightarrow> 'a result \<Rightarrow> 'a result" where
  "map_err f r = (case r of Inl e \<Rightarrow> Err (f e) | Inr a \<Rightarrow> Ok a)"

lemma map_err_simps [simp]: "map_err f (Err e) = Err (f e)" "map_err f (Ok a) = Ok a"
  by (simp_all add: map_err_def)

text \<open>The \<open>?\<close> operator: an error ends the function with it.\<close>

definition and_then :: "'a result \<Rightarrow> ('a \<Rightarrow> 'b result) \<Rightarrow> 'b result" where
  "and_then r f = (case r of Inl e \<Rightarrow> Err e | Inr a \<Rightarrow> f a)"

lemma and_then_simps [simp]: "and_then (Err e) f = Err e" "and_then (Ok a) f = f a"
  by (simp_all add: and_then_def)

lemma and_then_Ok: "and_then r f = Ok b \<longleftrightarrow> (\<exists>a. r = Ok a \<and> f a = Ok b)"
  by (cases r) simp_all

lemma ok_or_Ok: "ok_or e x = Ok a \<longleftrightarrow> x = Some a"
  by (cases x) simp_all

lemma map_err_Ok: "map_err f r = Ok a \<longleftrightarrow> r = Ok a"
  by (cases r) simp_all

text \<open>The lemmas of this collection rewrite the branches of the fallible operations.\<close>

named_theorems result_simps "equations of fallible operations"

lemmas result_splits = sum.splits option.splits if_splits prod.splits

section \<open>Slices\<close>

text \<open>\<open>iter().position(p)\<close>: the index of the first element that satisfies \<open>p\<close>.\<close>

fun position :: "('a \<Rightarrow> bool) \<Rightarrow> 'a list \<Rightarrow> nat option" where
  "position p [] = None"
| "position p (x # xs) = (if p x then Some 0 else map_option Suc (position p xs))"

lemma position_None: "position p xs = None \<longleftrightarrow> (\<forall>x \<in> set xs. \<not> p x)"
  by (induction xs) auto

lemma position_Some:
  "position p xs = Some i \<longleftrightarrow> i < length xs \<and> p (xs ! i) \<and> (\<forall>j < i. \<not> p (xs ! j))"
proof (induction xs arbitrary: i)
  case (Cons x xs)
  show ?case
    by (cases i) (use Cons.IH in \<open>auto simp: All_less_Suc2\<close>)
qed simp

lemma position_less: "position p xs = Some i \<Longrightarrow> i < length xs"
  by (simp add: position_Some)

lemma position_append:
  "position p (xs @ ys) =
     (case position p xs of Some i \<Rightarrow> Some i
      | None \<Rightarrow> map_option ((+) (length xs)) (position p ys))"
proof (induction xs)
  case Nil
  show ?case by (cases "position p ys") simp_all
next
  case (Cons x xs)
  then show ?case by (cases "position p ys") (auto split: option.splits)
qed

text \<open>\<open>windows(n)\<close>: every contiguous stretch of \<open>n\<close> elements, from the left.\<close>

definition windows :: "nat \<Rightarrow> 'a list \<Rightarrow> 'a list list" where
  "windows n xs = map (\<lambda>i. take n (drop i xs)) [0 ..< Suc (length xs) - n]"

lemma length_windows [simp]: "length (windows n xs) = Suc (length xs) - n"
  by (simp add: windows_def)

lemma nth_windows: "i < Suc (length xs) - n \<Longrightarrow> windows n xs ! i = take n (drop i xs)"
  by (simp add: windows_def)

text \<open>\<open>dst[i ..].copy_from_slice(src)\<close>, where \<open>src\<close> fits.\<close>

definition copy_at :: "nat \<Rightarrow> 'a list \<Rightarrow> 'a list \<Rightarrow> 'a list" where
  "copy_at i src dst = take i dst @ src @ drop (i + length src) dst"

section \<open>Big-endian bytes\<close>

text \<open>
  \<open>be_bytes k n\<close> is the \<open>k\<close> byte big-endian form of \<open>n\<close> (\<open>to_be_bytes\<close>), and \<open>be_val\<close>
  reads one back (\<open>from_be_bytes\<close>).
\<close>

fun be_bytes :: "nat \<Rightarrow> nat \<Rightarrow> bytes" where
  "be_bytes 0 n = []"
| "be_bytes (Suc k) n = be_bytes k (n div 256) @ [word_of_nat n]"

definition be_val :: "bytes \<Rightarrow> nat" where
  "be_val bs = foldl (\<lambda>a b. 256 * a + unat b) 0 bs"

lemma be_bytes_numeral:
  "be_bytes (numeral k) n = be_bytes (pred_numeral k) (n div 256) @ [word_of_nat n]"
  by (subst numeral_eq_Suc) (rule be_bytes.simps)

lemma replicate_numeral: "replicate (numeral k) x = x # replicate (pred_numeral k) x"
  by (subst numeral_eq_Suc) (rule replicate_Suc)

lemma be_val_Nil [simp]: "be_val [] = 0"
  by (simp add: be_val_def)

lemma be_val_snoc [simp]: "be_val (bs @ [b]) = 256 * be_val bs + unat b"
  by (simp add: be_val_def)

lemma length_be_bytes [simp]: "length (be_bytes k n) = k"
  by (induction k arbitrary: n) auto

lemma unat_byte_of_nat [simp]: "unat (word_of_nat n :: byte) = n mod 256"
  by (simp add: unat_of_nat)

lemma unat_byte_less [simp]: "unat (b :: byte) < 256"
  using unsigned_less [of b] by simp

lemma unat_word_less [simp]:
  "unat (w16 :: 16 word) < 65536"
  "unat (w32 :: 32 word) < 4294967296"
  "unat (w64 :: 64 word) < 18446744073709551616"
  "unat (w128 :: 128 word) < 340282366920938463463374607431768211456"
  using unsigned_less [where 'a = nat, of w16] unsigned_less [where 'a = nat, of w32]
    unsigned_less [where 'a = nat, of w64] unsigned_less [where 'a = nat, of w128] by simp_all

lemma be_val_be_bytes: "be_val (be_bytes k n) = n mod 256 ^ k"
proof (induction k arbitrary: n)
  case (Suc k)
  have "n mod 256 ^ Suc k = 256 * (n div 256 mod 256 ^ k) + n mod 256"
    using mod_mult2_eq [of n 256 "256 ^ k"] by simp
  then show ?case by (simp add: Suc.IH)
qed simp

lemma be_val_less: "be_val bs < 256 ^ length bs"
proof (induction bs rule: rev_induct)
  case (snoc b bs)
  have "unat b < 256" by (rule unat_byte_less)
  with snoc have "256 * be_val bs + unat b < 256 * Suc (be_val bs)" by simp
  also have "\<dots> \<le> 256 * 256 ^ length bs" using snoc by (simp only: mult_le_mono2 Suc_leI)
  finally show ?case by simp
qed simp

lemma be_bytes_be_val: "be_bytes (length bs) (be_val bs) = bs"
proof (induction bs rule: rev_induct)
  case (snoc b bs)
  have b: "unat b < 256" by (rule unat_byte_less)
  then have "(256 * be_val bs + unat b) div 256 = be_val bs" by simp
  moreover have "word_of_nat (256 * be_val bs + unat b) = b"
    by (rule word_unat_eq_iff [THEN iffD2]) (use b in \<open>simp only: unat_byte_of_nat, simp\<close>)
  ultimately show ?case using snoc by simp
qed simp

section \<open>Hash maps\<close>

text \<open>
  \<open>std::collections::HashMap\<close>: an association list with one entry per key. The order of
  the entries stands for the unspecified iteration order of the real map, and no result of
  the program depends on it.
\<close>

type_synonym ('k, 'v) hmap = "('k \<times> 'v) list"

definition hm_empty :: "('k, 'v) hmap" where "hm_empty = []"
definition hm_get :: "('k, 'v) hmap \<Rightarrow> 'k \<Rightarrow> 'v option" where "hm_get m k = map_of m k"
definition hm_insert :: "'k \<Rightarrow> 'v \<Rightarrow> ('k, 'v) hmap \<Rightarrow> ('k, 'v) hmap" where
  "hm_insert k v m = AList.update k v m"
definition hm_remove :: "'k \<Rightarrow> ('k, 'v) hmap \<Rightarrow> ('k, 'v) hmap" where
  "hm_remove k m = AList.delete k m"
definition hm_iter :: "('k, 'v) hmap \<Rightarrow> ('k \<times> 'v) list" where "hm_iter m = m"
definition hm_wf :: "('k, 'v) hmap \<Rightarrow> bool" where "hm_wf m = distinct (map fst m)"

text \<open>What the code relies on of a hash map, and what follows for the code's loops over it.\<close>

locale hash_map =
  fixes empty :: "'m"
    and get :: "'m \<Rightarrow> 'k \<Rightarrow> 'v option"
    and insert :: "'k \<Rightarrow> 'v \<Rightarrow> 'm \<Rightarrow> 'm"
    and remove :: "'k \<Rightarrow> 'm \<Rightarrow> 'm"
    and iter :: "'m \<Rightarrow> ('k \<times> 'v) list"
    and wf :: "'m \<Rightarrow> bool"
  assumes get_empty [simp]: "get empty k = None"
    and get_insert [simp]: "get (insert k v m) k' = (if k' = k then Some v else get m k')"
    and get_remove [simp]: "get (remove k m) k' = (if k' = k then None else get m k')"
    and iter_get: "wf m \<Longrightarrow> (k, v) \<in> set (iter m) \<longleftrightarrow> get m k = Some v"
    and wf_empty [simp]: "wf empty"
    and wf_insert [simp]: "wf m \<Longrightarrow> wf (insert k v m)"
    and wf_remove [simp]: "wf m \<Longrightarrow> wf (remove k m)"
begin

lemma get_remove_all:
  "get (fold (\<lambda>x. remove (key x)) xs m) k = (if k \<in> key ` set xs then None else get m k)"
  by (induction xs arbitrary: m) auto

lemma wf_remove_all: "wf m \<Longrightarrow> wf (fold (\<lambda>x. remove (key x)) xs m)"
  by (induction xs arbitrary: m) auto

lemma get_insert_new: "get m k = None \<Longrightarrow> get m k' \<noteq> None \<Longrightarrow> get (insert k v m) k' = get m k'"
  by auto

end

interpretation hm: hash_map hm_empty hm_get hm_insert hm_remove hm_iter hm_wf
proof
  fix m :: "('k \<times> 'v) list" and k k' :: 'k and v :: 'v
  show "hm_get (hm_insert k v m) k' = (if k' = k then Some v else hm_get m k')"
    by (simp add: hm_get_def hm_insert_def update_conv')
  show "hm_get (hm_remove k m) k' = (if k' = k then None else hm_get m k')"
    by (simp add: hm_get_def hm_remove_def delete_conv')
  show "hm_wf m \<Longrightarrow> (k, v) \<in> set (hm_iter m) \<longleftrightarrow> hm_get m k = Some v"
    by (simp add: hm_wf_def hm_iter_def hm_get_def)
qed (simp_all add: hm_empty_def hm_get_def hm_wf_def hm_insert_def hm_remove_def
      distinct_update distinct_delete)

text \<open>The concrete equations, for evaluating the maps of a closed state.\<close>

lemmas hm_eval = hm_empty_def hm_get_def hm_insert_def hm_remove_def hm_iter_def hm_wf_def

section \<open>Transition systems\<close>

text \<open>An invariant of a start state and a step relation holds in every state that is reached.\<close>

locale invariant_system =
  fixes init :: "'s"
    and step :: "'s \<Rightarrow> 's \<Rightarrow> bool"
    and inv :: "'s \<Rightarrow> bool"
  assumes init_inv: "inv init"
    and step_inv: "inv s \<Longrightarrow> step s t \<Longrightarrow> inv t"
begin

lemma steps_inv: "step\<^sup>*\<^sup>* s t \<Longrightarrow> inv s \<Longrightarrow> inv t"
  by (induction rule: rtranclp_induct) (auto intro: step_inv)

lemma reachable_inv: "step\<^sup>*\<^sup>* init s \<Longrightarrow> inv s"
  using init_inv by (rule steps_inv [rotated])

end

text \<open>A system that does what an abstract one allows: each of its steps is some of the abstract ones.\<close>

locale simulation = invariant_system init step inv
  for init :: "'s" and step :: "'s \<Rightarrow> 's \<Rightarrow> bool" and inv :: "'s \<Rightarrow> bool" +
  fixes abs :: "'s \<Rightarrow> 'a"
    and spec :: "'a \<Rightarrow> 'a \<Rightarrow> bool"
  assumes sim_step: "inv s \<Longrightarrow> step s t \<Longrightarrow> spec\<^sup>*\<^sup>* (abs s) (abs t)"
begin

lemma sim_reachable_step: "step\<^sup>*\<^sup>* init s \<Longrightarrow> step s t \<Longrightarrow> spec\<^sup>*\<^sup>* (abs s) (abs t)"
  using reachable_inv sim_step by blast

lemma sim_run: "step\<^sup>*\<^sup>* init s \<Longrightarrow> spec\<^sup>*\<^sup>* (abs init) (abs s)"
proof (induction rule: rtranclp_induct)
  case (step s t)
  from step(3) sim_reachable_step [OF step(1,2)] show ?case by (rule rtranclp_trans)
qed simp

text \<open>So what holds in every abstract run holds of the system.\<close>

lemma sim_invariant:
  assumes "\<And>a b. spec a b \<Longrightarrow> P a \<Longrightarrow> P b" and "P (abs init)" and "step\<^sup>*\<^sup>* init s"
  shows "P (abs s)"
  using sim_run [OF assms(3)] assms(2) by (induction rule: rtranclp_induct) (auto intro: assms(1))

end

end
