(* ===== verification/Std_Text.thy ===== *)
theory Std_Text
  imports Prelude
begin

text \<open>
  The operations of \<open>std\<close> on text that the sources use: the ASCII test and the UTF-8
  conversion of ASCII bytes, \<open>split_whitespace\<close>, \<open>split_ascii_whitespace\<close>, \<open>split\<close>,
  \<open>lines\<close>, \<open>strip_prefix\<close>, \<open>parse::<u16>\<close> and the printing of numbers.
\<close>

section \<open>Bytes and text\<close>

definition is_ascii :: "bytes \<Rightarrow> bool" where
  "is_ascii bs = list_all (\<lambda>b. b < 128) bs"

text \<open>\<open>str::from_utf8\<close> on ASCII bytes, where it never fails, and \<open>as_bytes\<close>.\<close>

definition text_of :: "bytes \<Rightarrow> string" where
  "text_of bs = map (\<lambda>b. char_of (unat b)) bs"

definition bytes_of :: "string \<Rightarrow> bytes" where
  "bytes_of s = map (\<lambda>c. word_of_nat (of_char c)) s"

definition ascii_text :: "string \<Rightarrow> bool" where
  "ascii_text s = list_all (\<lambda>c. of_char c < (128::nat)) s"

lemma text_of_bytes_of [simp]: "text_of (bytes_of s) = s"
  by (induction s) (simp_all add: text_of_def bytes_of_def)

lemma bytes_of_text_of [simp]: "bytes_of (text_of bs) = bs"
  by (induction bs) (simp_all add: text_of_def bytes_of_def)

lemma length_text_of [simp]: "length (text_of bs) = length bs"
  by (simp add: text_of_def)

lemma length_bytes_of [simp]: "length (bytes_of s) = length s"
  by (simp add: bytes_of_def)

lemma nth_bytes_of: "i < length s \<Longrightarrow> bytes_of s ! i = word_of_nat (of_char (s ! i))"
  by (simp add: bytes_of_def)

lemma bytes_of_append [simp]: "bytes_of (s @ t) = bytes_of s @ bytes_of t"
  by (simp add: bytes_of_def)

lemma text_of_append [simp]: "text_of (s @ t) = text_of s @ text_of t"
  by (simp add: text_of_def)

lemma is_ascii_append [simp]: "is_ascii (xs @ ys) \<longleftrightarrow> is_ascii xs \<and> is_ascii ys"
  by (simp add: is_ascii_def)

lemma is_ascii_bytes_of: "is_ascii (bytes_of s) \<longleftrightarrow> ascii_text s"
proof (induction s)
  case (Cons c s)
  have "(word_of_nat (of_char c) :: byte) < 128 \<longleftrightarrow> (of_char c :: nat) < 128"
    by (simp add: word_less_nat_alt)
  with Cons show ?case by (simp add: is_ascii_def bytes_of_def ascii_text_def)
qed (simp add: is_ascii_def bytes_of_def ascii_text_def)

lemma ascii_text_append [simp]: "ascii_text (s @ t) \<longleftrightarrow> ascii_text s \<and> ascii_text t"
  by (simp add: ascii_text_def)

lemma ascii_text_simps [simp]:
  "ascii_text []" "ascii_text (c # s) \<longleftrightarrow> of_char c < (128::nat) \<and> ascii_text s"
  by (simp_all add: ascii_text_def)

section \<open>Splitting\<close>

text \<open>
  \<open>char::is_whitespace\<close> and \<open>u8::is_ascii_whitespace\<close> agree on ASCII but for the
  vertical tab, which only the first accepts.
\<close>

definition is_whitespace :: "char \<Rightarrow> bool" where
  "is_whitespace c = (c \<in> {CHR 0x09, CHR 0x0A, CHR 0x0B, CHR 0x0C, CHR 0x0D, CHR 0x20})"

definition is_ascii_whitespace :: "char \<Rightarrow> bool" where
  "is_ascii_whitespace c = (c \<in> {CHR 0x09, CHR 0x0A, CHR 0x0C, CHR 0x0D, CHR 0x20})"

lemma length_dropWhile_less [termination_simp]: "length (dropWhile p s) < Suc (length s)"
  by (simp add: le_imp_less_Suc length_dropWhile_le)

text \<open>The stretches of \<open>s\<close> between separators, without the empty ones.\<close>

fun split_by :: "(char \<Rightarrow> bool) \<Rightarrow> string \<Rightarrow> string list" where
  "split_by ws [] = []"
| "split_by ws (c # s) =
     (if ws c then split_by ws s
      else (c # takeWhile (\<lambda>x. \<not> ws x) s) # split_by ws (dropWhile (\<lambda>x. \<not> ws x) s))"

definition split_whitespace :: "string \<Rightarrow> string list" where
  "split_whitespace s = split_by is_whitespace s"

definition split_ascii_whitespace :: "string \<Rightarrow> string list" where
  "split_ascii_whitespace s = split_by is_ascii_whitespace s"

definition is_token :: "(char \<Rightarrow> bool) \<Rightarrow> string \<Rightarrow> bool" where
  "is_token ws t = (t \<noteq> [] \<and> list_all (\<lambda>c. \<not> ws c) t)"

lemma split_by_tokens: "t \<in> set (split_by ws s) \<Longrightarrow> is_token ws t"
proof (induction ws s rule: split_by.induct)
  case (2 ws c s)
  show ?case
  proof (cases "ws c")
    case False
    with "2.prems" consider "t = c # takeWhile (\<lambda>x. \<not> ws x) s"
      | "t \<in> set (split_by ws (dropWhile (\<lambda>x. \<not> ws x) s))" by auto
    then show ?thesis
    proof cases
      case 1
      have "\<forall>x \<in> set (takeWhile (\<lambda>x. \<not> ws x) s). \<not> ws x" by (blast dest: set_takeWhileD)
      with 1 False show ?thesis by (simp add: is_token_def list_all_iff)
    qed (rule "2.IH"(2) [OF False])
  qed (use 2 in simp)
qed simp

lemma split_by_sep [simp]: "ws c \<Longrightarrow> split_by ws (c # s) = split_by ws s"
  by simp

lemma split_by_token: "is_token ws t \<Longrightarrow> ws c \<Longrightarrow> split_by ws (t @ c # s) = t # split_by ws s"
proof (cases t)
  case (Cons x xs)
  assume "is_token ws t" "ws c"
  with Cons have "\<not> ws x" "\<forall>y \<in> set xs. \<not> ws y" by (auto simp: is_token_def list_all_iff)
  with Cons \<open>ws c\<close> show ?thesis by (simp add: takeWhile_append2 dropWhile_append2)
qed (simp add: is_token_def)

lemma split_by_single: "is_token ws t \<Longrightarrow> split_by ws t = [t]"
proof (cases t)
  case (Cons x xs)
  assume "is_token ws t"
  with Cons have w: "\<not> ws x" "\<forall>y \<in> set xs. \<not> ws y" by (auto simp: is_token_def list_all_iff)
  then have "takeWhile (\<lambda>x. \<not> ws x) xs = xs" and d: "dropWhile (\<lambda>x. \<not> ws x) xs = []"
    by (simp_all add: takeWhile_eq_all_conv dropWhile_eq_Nil_conv)
  with Cons w show ?thesis
    by (simp del: dropWhile_eq_Nil_conv takeWhile_eq_all_conv)
qed (simp add: is_token_def)

text \<open>\<open>str::split(c)\<close>: one piece more than there are separators, empty pieces included.\<close>

fun split_on :: "char \<Rightarrow> string \<Rightarrow> string list" where
  "split_on c [] = [[]]"
| "split_on c (x # s) =
     (if x = c then [] # split_on c s
      else case split_on c s of [] \<Rightarrow> [[x]] | p # ps \<Rightarrow> (x # p) # ps)"

lemma split_on_not_Nil [simp]: "split_on c s \<noteq> []"
  by (cases s) (auto split: list.splits)

lemma split_on_pieces: "p \<in> set (split_on c s) \<Longrightarrow> c \<notin> set p"
  by (induction s arbitrary: p) (force split: if_splits list.splits)+

lemma split_on_single: "c \<notin> set s \<Longrightarrow> split_on c s = [s]"
  by (induction s) auto

lemma split_on_append: "c \<notin> set s \<Longrightarrow> split_on c (s @ c # t) = s # split_on c t"
  by (induction s) auto

text \<open>\<open>lines().next()\<close>: text up to the first newline, less one carriage return before it.\<close>

definition strip_cr :: "string \<Rightarrow> string" where
  "strip_cr l = (if l \<noteq> [] \<and> last l = CHR 0x0D then butlast l else l)"

definition first_line :: "string \<Rightarrow> string option" where
  "first_line s =
     (if s = [] then None
      else if CHR 0x0A \<in> set s then Some (strip_cr (takeWhile (\<lambda>c. c \<noteq> CHR 0x0A) s))
      else Some s)"

text \<open>\<open>str::strip_prefix\<close>.\<close>

fun strip_prefix :: "string \<Rightarrow> string \<Rightarrow> string option" where
  "strip_prefix [] s = Some s"
| "strip_prefix (p # ps) [] = None"
| "strip_prefix (p # ps) (c # s) = (if p = c then strip_prefix ps s else None)"

lemma strip_prefix_Some: "strip_prefix p s = Some r \<longleftrightarrow> s = p @ r"
  by (induction p s rule: strip_prefix.induct) auto

section \<open>Numbers\<close>

text \<open>\<open>char::to_digit(radix)\<close>.\<close>

definition to_digit :: "nat \<Rightarrow> char \<Rightarrow> nat option" where
  "to_digit radix c =
     (let n = of_char c :: nat;
          d = (if 48 \<le> n \<and> n \<le> 57 then n - 48
               else if 97 \<le> n \<and> n \<le> 122 then n - 87
               else if 65 \<le> n \<and> n \<le> 90 then n - 55 else radix)
      in if d < radix then Some d else None)"

definition is_digit :: "nat \<Rightarrow> char \<Rightarrow> bool" where
  "is_digit radix c = (to_digit radix c \<noteq> None)"

definition digits_val :: "nat \<Rightarrow> string \<Rightarrow> nat" where
  "digits_val radix s = foldl (\<lambda>a c. radix * a + the (to_digit radix c)) 0 s"

text \<open>
  \<open>str::parse::<u16>\<close>: one optional plus sign, then at least one decimal digit; anything
  else, and a value that does not fit, is an error.
\<close>

definition parse_u16 :: "string \<Rightarrow> u16 option" where
  "parse_u16 s =
     (let ds = (case s of [] \<Rightarrow> [] | c # r \<Rightarrow> if c = CHR ''+'' then r else s)
      in if ds \<noteq> [] \<and> list_all (is_digit 10) ds \<and> digits_val 10 ds < 65536
         then Some (word_of_nat (digits_val 10 ds)) else None)"

text \<open>\<open>{}\<close> and \<open>{:x}\<close> on an unsigned number.\<close>

definition digit_char :: "nat \<Rightarrow> char" where
  "digit_char d = (if d < 10 then char_of (48 + d) else char_of (87 + d))"

fun show_radix :: "nat \<Rightarrow> nat \<Rightarrow> string" where
  "show_radix radix n =
     (if radix < 2 \<or> n < radix then [digit_char n]
      else show_radix radix (n div radix) @ [digit_char (n mod radix)])"

declare show_radix.simps [simp del]

definition show_dec :: "nat \<Rightarrow> string" where "show_dec n = show_radix 10 n"
definition show_hex :: "nat \<Rightarrow> string" where "show_hex n = show_radix 16 n"

lemma to_digit_char: "d < radix \<Longrightarrow> radix \<le> 16 \<Longrightarrow> to_digit radix (digit_char d) = Some d"
  by (auto simp: to_digit_def digit_char_def Let_def)

lemma digits_val_snoc: "digits_val radix (s @ [c]) = radix * digits_val radix s + the (to_digit radix c)"
  by (simp add: digits_val_def)

lemma show_radix_not_Nil [simp]: "show_radix radix n \<noteq> []"
  by (subst show_radix.simps) simp

lemma digits_val_show:
  "2 \<le> radix \<Longrightarrow> radix \<le> 16 \<Longrightarrow> digits_val radix (show_radix radix n) = n"
proof (induction radix n rule: show_radix.induct)
  case (1 radix n)
  then show ?case
    by (cases "n < radix")
      (simp_all add: show_radix.simps [of radix n] digits_val_snoc digits_val_def to_digit_char)
qed

lemma show_radix_digits:
  "2 \<le> radix \<Longrightarrow> radix \<le> 16 \<Longrightarrow> c \<in> set (show_radix radix n) \<Longrightarrow> \<exists>d < radix. c = digit_char d"
proof (induction radix n rule: show_radix.induct)
  case (1 radix n)
  show ?case
  proof (cases "n < radix")
    case False
    with "1.prems" consider "c \<in> set (show_radix radix (n div radix))" | "c = digit_char (n mod radix)"
      by (auto simp: show_radix.simps [of radix n])
    then show ?thesis
    proof cases
      case 2
      moreover have "n mod radix < radix" using "1.prems" by simp
      ultimately show ?thesis by blast
    qed (use 1 False in simp)
  qed (use "1.prems" in \<open>auto simp: show_radix.simps [of radix n]\<close>)
qed

lemma show_radix_is_digit:
  "2 \<le> radix \<Longrightarrow> radix \<le> 16 \<Longrightarrow> list_all (is_digit radix) (show_radix radix n)"
  using show_radix_digits by (fastforce simp: list_all_iff is_digit_def to_digit_char)

lemma digit_char_code: "d < 16 \<Longrightarrow> of_char (digit_char d) = (if d < 10 then 48 + d else 87 + d :: nat)"
  by (simp add: digit_char_def)

lemma show_radix_range:
  assumes "2 \<le> radix" "radix \<le> 16" "c \<in> set (show_radix radix n)"
  shows "48 \<le> (of_char c :: nat) \<and> (of_char c :: nat) < 103"
proof -
  from show_radix_digits [OF assms] obtain d where "d < radix" "c = digit_char d" by blast
  with assms show ?thesis by (auto simp: digit_char_code)
qed

lemma show_dec_head: "hd (show_dec n) \<noteq> CHR ''+''"
proof
  assume a: "hd (show_dec n) = CHR ''+''"
  have "hd (show_dec n) \<in> set (show_radix 10 n)" by (simp add: show_dec_def)
  from show_radix_range [OF _ _ this] a show False by simp
qed

text \<open>Printing a port and parsing it back.\<close>

lemma parse_u16_show_dec: "parse_u16 (show_dec (unat p)) = Some p"
proof -
  obtain c r where s: "show_dec (unat p) = c # r"
    by (cases "show_dec (unat p)") (simp_all add: show_dec_def)
  have "unat p < 65536" using unsigned_less [of p] by simp
  moreover have "list_all (is_digit 10) (show_dec (unat p))" "digits_val 10 (show_dec (unat p)) = unat p"
    by (simp_all add: show_dec_def show_radix_is_digit digits_val_show)
  moreover have "c \<noteq> CHR ''+''" using show_dec_head [of "unat p"] s by simp
  ultimately show ?thesis by (simp add: parse_u16_def s Let_def)
qed

text \<open>What is printed is one token of ASCII text.\<close>

lemma show_dec_char: "c \<in> set (show_dec n) \<Longrightarrow> (of_char c :: nat) < 128 \<and> \<not> is_whitespace c"
  using show_radix_range [of 10 c n] by (auto simp: show_dec_def is_whitespace_def)

lemma show_dec_token: "is_token is_whitespace (show_dec n)"
  using show_dec_char [of _ n] by (auto simp: is_token_def list_all_iff show_dec_def)

lemma show_dec_ascii: "ascii_text (show_dec n)"
  using show_dec_char [of _ n] by (auto simp: ascii_text_def list_all_iff)

lemma show_dec_length: "0 < k \<Longrightarrow> n < 10 ^ k \<Longrightarrow> length (show_dec n) \<le> k"
proof (induction k arbitrary: n)
  case (Suc k)
  show ?case
  proof (cases "n < 10")
    case False
    with Suc.prems have "0 < k" by (cases k) simp_all
    moreover have "n div 10 < 10 ^ k" using Suc.prems by (simp add: less_mult_imp_div_less)
    ultimately have "length (show_dec (n div 10)) \<le> k" by (rule Suc.IH)
    with False show ?thesis by (simp add: show_dec_def show_radix.simps [of 10 n])
  qed (simp add: show_dec_def show_radix.simps [of 10 n])
qed simp

lemma token_no_newline: "is_token is_whitespace t \<Longrightarrow> CHR 0x0A \<notin> set t"
  by (auto simp: is_token_def list_all_iff is_whitespace_def)

end
