(* ===== verification/Std_Net.thy ===== *)
theory Std_Net
  imports Std_Text
begin

text \<open>
  \<open>std::net\<close>: addresses, socket addresses, their octets and segments, the IPv4-mapped
  form, and their text. The parser follows \<open>core::net::parser\<close> function by function; each
  of its readers takes the rest of the input and returns what it read with what is left,
  so a reader that fails leaves the input where it was (\<open>read_atomically\<close>).
\<close>

section \<open>Addresses\<close>

type_synonym ipv4 = "32 word"
type_synonym ipv6 = "128 word"

datatype ip_addr = V4 ipv4 | V6 ipv6

text \<open>A V6 socket address also carries a flow label and a scope id.\<close>

datatype socket_addr = SockV4 ipv4 u16 | SockV6 ipv6 u16 u32 u32

fun is_ipv6 :: "ip_addr \<Rightarrow> bool" where
  "is_ipv6 (V4 _) = False"
| "is_ipv6 (V6 _) = True"

definition is_ipv4 :: "ip_addr \<Rightarrow> bool" where "is_ipv4 a = (\<not> is_ipv6 a)"

lemma is_ipv4_simps [simp]: "is_ipv4 (V4 a)" "\<not> is_ipv4 (V6 b)"
  by (simp_all add: is_ipv4_def)

fun sock_ip :: "socket_addr \<Rightarrow> ip_addr" where
  "sock_ip (SockV4 a _) = V4 a"
| "sock_ip (SockV6 a _ _ _) = V6 a"

fun sock_port :: "socket_addr \<Rightarrow> u16" where
  "sock_port (SockV4 _ p) = p"
| "sock_port (SockV6 _ p _ _) = p"

text \<open>\<open>SocketAddr::new\<close>.\<close>

fun socket_addr_new :: "ip_addr \<Rightarrow> u16 \<Rightarrow> socket_addr" where
  "socket_addr_new (V4 a) p = SockV4 a p"
| "socket_addr_new (V6 a) p = SockV6 a p 0 0"

lemma sock_ip_new [simp]: "sock_ip (socket_addr_new a p) = a"
  and sock_port_new [simp]: "sock_port (socket_addr_new a p) = p"
  by (cases a; simp)+

definition octets4 :: "ipv4 \<Rightarrow> bytes" where "octets4 a = be_bytes 4 (unat a)"
definition from_octets4 :: "bytes \<Rightarrow> ipv4" where "from_octets4 bs = word_of_nat (be_val bs)"
definition octets6 :: "ipv6 \<Rightarrow> bytes" where "octets6 a = be_bytes 16 (unat a)"
definition from_octets6 :: "bytes \<Rightarrow> ipv6" where "from_octets6 bs = word_of_nat (be_val bs)"

lemma length_octets [simp]: "length (octets4 a) = 4" "length (octets6 b) = 16"
  by (simp_all add: octets4_def octets6_def)

lemma from_octets4_octets4 [simp]: "from_octets4 (octets4 a) = a"
  by (rule word_unat_eq_iff [THEN iffD2])
    (simp add: from_octets4_def octets4_def be_val_be_bytes unat_of_nat)

lemma from_octets6_octets6 [simp]: "from_octets6 (octets6 a) = a"
  by (rule word_unat_eq_iff [THEN iffD2])
    (simp add: from_octets6_def octets6_def be_val_be_bytes unat_of_nat)

lemma octets4_from_octets4: "length bs = 4 \<Longrightarrow> octets4 (from_octets4 bs) = bs"
  using be_val_less [of bs] be_bytes_be_val [of bs]
  by (simp add: octets4_def from_octets4_def unat_of_nat take_bit_eq_mod)

lemma octets6_from_octets6: "length bs = 16 \<Longrightarrow> octets6 (from_octets6 bs) = bs"
  using be_val_less [of bs] be_bytes_be_val [of bs]
  by (simp add: octets6_def from_octets6_def unat_of_nat take_bit_eq_mod)

lemma octets4_inject: "octets4 a = octets4 b \<longleftrightarrow> a = b"
  by (metis from_octets4_octets4)

lemma octets6_inject: "octets6 a = octets6 b \<longleftrightarrow> a = b"
  by (metis from_octets6_octets6)

text \<open>The eight 16 bit groups of an address, and an address from its groups.\<close>

fun be16s :: "bytes \<Rightarrow> u16 list" where
  "be16s (a # b # r) = word_of_nat (be_val [a, b]) # be16s r"
| "be16s _ = []"

definition segments :: "ipv6 \<Rightarrow> u16 list" where "segments a = be16s (octets6 a)"

definition from_segments :: "u16 list \<Rightarrow> ipv6" where
  "from_segments gs = from_octets6 (concat (map (\<lambda>g. be_bytes 2 (unat g)) gs))"

lemma be16s_concat [simp]: "be16s (concat (map (\<lambda>g. be_bytes 2 (unat g)) gs)) = gs"
proof (induction gs)
  case (Cons g gs)
  have two: "be_bytes 2 n = [word_of_nat (n div 256), word_of_nat n]" for n
    by (simp add: numeral_2_eq_2)
  have "be_val (be_bytes 2 (unat g)) = unat g"
    by (simp add: be_val_be_bytes)
  with Cons show ?case by (simp add: two)
qed simp

lemma length_concat_groups [simp]: "length (concat (map (\<lambda>g :: u16. be_bytes 2 (unat g)) gs)) = 2 * length gs"
  by (induction gs) auto

lemma segments_from_segments: "length gs = 8 \<Longrightarrow> segments (from_segments gs) = gs"
  by (simp add: segments_def from_segments_def octets6_from_octets6)

section \<open>IPv4-mapped addresses\<close>

definition mapped_prefix :: bytes where "mapped_prefix = replicate 10 0 @ [0xff, 0xff]"

definition to_ipv6_mapped :: "ipv4 \<Rightarrow> ipv6" where
  "to_ipv6_mapped a = from_octets6 (mapped_prefix @ octets4 a)"

definition to_ipv4_mapped :: "ipv6 \<Rightarrow> ipv4 option" where
  "to_ipv4_mapped a =
     (if take 12 (octets6 a) = mapped_prefix then Some (from_octets4 (drop 12 (octets6 a))) else None)"

lemma length_mapped_prefix [simp]: "length mapped_prefix = 12"
  by (simp add: mapped_prefix_def)

lemma to_ipv4_mapped_to_ipv6_mapped [simp]: "to_ipv4_mapped (to_ipv6_mapped a) = Some a"
  by (simp add: to_ipv4_mapped_def to_ipv6_mapped_def octets6_from_octets6)

lemma to_ipv4_mapped_Some: "to_ipv4_mapped a = Some v \<longleftrightarrow> a = to_ipv6_mapped v"
proof
  assume "to_ipv4_mapped a = Some v"
  then have p: "take 12 (octets6 a) = mapped_prefix" and v: "v = from_octets4 (drop 12 (octets6 a))"
    by (simp_all add: to_ipv4_mapped_def split: if_splits)
  have "octets6 a = mapped_prefix @ octets4 v"
    using append_take_drop_id [of 12 "octets6 a"] by (simp add: p v octets4_from_octets4)
  then show "a = to_ipv6_mapped v" by (metis from_octets6_octets6 to_ipv6_mapped_def)
qed simp

section \<open>Reading addresses\<close>

definition read_char :: "char \<Rightarrow> string \<Rightarrow> string option" where
  "read_char c s = (case s of [] \<Rightarrow> None | x # r \<Rightarrow> if x = c then Some r else None)"

definition read_separator :: "char \<Rightarrow> nat \<Rightarrow> (string \<Rightarrow> ('a \<times> string) option) \<Rightarrow> string \<Rightarrow> ('a \<times> string) option" where
  "read_separator sep index inner s =
     (if index > 0 then Option.bind (read_char sep s) inner else inner s)"

text \<open>
  \<open>read_number\<close>: the longest run of digits, which must be neither empty nor longer than
  \<open>max_digits\<close>, nor have a leading zero where \<open>allow_zero\<close> is not given, and whose value
  must fit the target type (\<open>bound\<close> is one more than its greatest value).
\<close>

definition read_number :: "nat \<Rightarrow> nat \<Rightarrow> bool \<Rightarrow> nat \<Rightarrow> string \<Rightarrow> (nat \<times> string) option" where
  "read_number radix max_digits allow_zero bound s =
     (let ds = takeWhile (is_digit radix) s
      in if ds = [] \<or> length ds > max_digits then None
         else if \<not> allow_zero \<and> hd ds = CHR ''0'' \<and> length ds > 1 then None
         else if digits_val radix ds < bound
              then Some (digits_val radix ds, dropWhile (is_digit radix) s) else None)"

fun read_ipv4_groups :: "nat \<Rightarrow> nat \<Rightarrow> string \<Rightarrow> (bytes \<times> string) option" where
  "read_ipv4_groups 0 i s = Some ([], s)"
| "read_ipv4_groups (Suc k) i s =
     (case read_separator CHR ''.'' i (read_number 10 3 False 256) s of None \<Rightarrow> None
      | Some (n, r) \<Rightarrow>
          map_option (\<lambda>(gs, r'). (word_of_nat n # gs, r')) (read_ipv4_groups k (Suc i) r))"

definition read_ipv4_addr :: "string \<Rightarrow> (ipv4 \<times> string) option" where
  "read_ipv4_addr s = map_option (\<lambda>(gs, r). (from_octets4 gs, r)) (read_ipv4_groups 4 0 s)"

text \<open>
  \<open>read_groups\<close>: up to \<open>k\<close> further groups, of which \<open>i\<close> were read before; the last two may
  be a dotted IPv4 address, which ends the reading and is reported.
\<close>

fun read_groups :: "nat \<Rightarrow> nat \<Rightarrow> string \<Rightarrow> u16 list \<times> bool \<times> string" where
  "read_groups 0 i s = ([], False, s)"
| "read_groups (Suc k) i s =
     (case (if k > 0 then read_separator CHR '':'' i read_ipv4_addr s else None) of
        Some (v4, r) \<Rightarrow> (be16s (octets4 v4), True, r)
      | None \<Rightarrow>
          (case read_separator CHR '':'' i (read_number 16 4 True 65536) s of
             None \<Rightarrow> ([], False, s)
           | Some (g, r) \<Rightarrow>
               (case read_groups k (Suc i) r of (gs, b, r') \<Rightarrow> (word_of_nat g # gs, b, r'))))"

lemma read_ipv4_groups_numeral [simp]:
  "read_ipv4_groups (numeral k) i s =
     (case read_separator CHR ''.'' i (read_number 10 3 False 256) s of None \<Rightarrow> None
      | Some (n, r) \<Rightarrow>
          map_option (\<lambda>(gs, r'). (word_of_nat n # gs, r')) (read_ipv4_groups (pred_numeral k) (Suc i) r))"
  by (subst numeral_eq_Suc) (rule read_ipv4_groups.simps)

lemma read_groups_numeral [simp]:
  "read_groups (numeral k) i s =
     (case (if pred_numeral k > 0 then read_separator CHR '':'' i read_ipv4_addr s else None) of
        Some (v4, r) \<Rightarrow> (be16s (octets4 v4), True, r)
      | None \<Rightarrow>
          (case read_separator CHR '':'' i (read_number 16 4 True 65536) s of
             None \<Rightarrow> ([], False, s)
           | Some (g, r) \<Rightarrow>
               (case read_groups (pred_numeral k) (Suc i) r of (gs, b, r') \<Rightarrow> (word_of_nat g # gs, b, r'))))"
  by (subst numeral_eq_Suc) (rule read_groups.simps)

definition read_ipv6_addr :: "string \<Rightarrow> (ipv6 \<times> string) option" where
  "read_ipv6_addr s =
     (case read_groups 8 0 s of (head, head_ipv4, r) \<Rightarrow>
        if length head = 8 then Some (from_segments head, r)
        else if head_ipv4 then None
        else case Option.bind (read_char CHR '':'' r) (read_char CHR '':'') of None \<Rightarrow> None
          | Some r1 \<Rightarrow>
              (case read_groups (8 - (length head + 1)) 0 r1 of (tail, _, r2) \<Rightarrow>
                 Some (from_segments (head @ replicate (8 - length head - length tail) 0 @ tail), r2)))"

text \<open>\<open>str::parse::<IpAddr>\<close>: IPv4 if it reads as such, else IPv6; nothing may be left.\<close>

definition parse_ip_addr :: "string \<Rightarrow> ip_addr option" where
  "parse_ip_addr s =
     (case read_ipv4_addr s of
        Some (a, r) \<Rightarrow> if r = [] then Some (V4 a) else None
      | None \<Rightarrow>
          (case read_ipv6_addr s of
             Some (a, r) \<Rightarrow> if r = [] then Some (V6 a) else None
           | None \<Rightarrow> None))"

section \<open>Printing addresses\<close>

fun join :: "string \<Rightarrow> string list \<Rightarrow> string" where
  "join sep [] = []"
| "join sep [x] = x"
| "join sep (x # y # r) = x @ sep @ join sep (y # r)"

definition show_ipv4 :: "ipv4 \<Rightarrow> string" where
  "show_ipv4 a = join ''.'' (map (\<lambda>b. show_dec (unat b)) (octets4 a))"

text \<open>
  The first of the longest runs of zero groups, as a start and a length: \<open>cur\<close> is the run
  that ends at index \<open>i\<close>.
\<close>

fun zero_span :: "nat \<Rightarrow> nat \<times> nat \<Rightarrow> nat \<times> nat \<Rightarrow> u16 list \<Rightarrow> nat \<times> nat" where
  "zero_span i cur longest [] = longest"
| "zero_span i cur longest (g # gs) =
     (if g = 0
      then (let cur' = ((if snd cur = 0 then i else fst cur), Suc (snd cur))
            in zero_span (Suc i) cur' (if snd cur' > snd longest then cur' else longest) gs)
      else zero_span (Suc i) (0, 0) longest gs)"

definition fmt_subslice :: "u16 list \<Rightarrow> string" where
  "fmt_subslice gs = join '':'' (map (\<lambda>g. show_hex (unat g)) gs)"

definition show_ipv6 :: "ipv6 \<Rightarrow> string" where
  "show_ipv6 a =
     (case to_ipv4_mapped a of
        Some v4 \<Rightarrow> ''::ffff:'' @ show_ipv4 v4
      | None \<Rightarrow>
          (let gs = segments a; (start, len) = zero_span 0 (0, 0) (0, 0) gs
           in if len > 1
              then fmt_subslice (take start gs) @ ''::'' @ fmt_subslice (drop (start + len) gs)
              else fmt_subslice gs))"

text \<open>Printed addresses are made of characters that are neither white space nor beyond ASCII.\<close>

definition addr_char :: "char \<Rightarrow> bool" where
  "addr_char c = ((of_char c :: nat) < 128 \<and> \<not> is_whitespace c)"

lemma addr_char_digit: "d < 16 \<Longrightarrow> addr_char (digit_char d)"
proof -
  assume "d < 16"
  then have n: "48 \<le> (of_char (digit_char d) :: nat)" "(of_char (digit_char d) :: nat) < 103"
    by (auto simp: digit_char_code)
  then have "\<not> is_whitespace (digit_char d)" by (auto simp: is_whitespace_def)
  with n show ?thesis by (simp add: addr_char_def)
qed

lemma list_all_join: "list_all p sep \<Longrightarrow> \<forall>x \<in> set xs. list_all p x \<Longrightarrow> list_all p (join sep xs)"
  by (induction sep xs rule: join.induct) auto

lemma join_eq_Nil: "\<forall>x \<in> set xs. x \<noteq> [] \<Longrightarrow> join sep xs = [] \<longleftrightarrow> xs = []"
  by (induction sep xs rule: join.induct) auto

lemma addr_char_show: "2 \<le> radix \<Longrightarrow> radix \<le> 16 \<Longrightarrow> list_all addr_char (show_radix radix n)"
  using show_radix_digits [of radix _ n] addr_char_digit by (fastforce simp: list_all_iff)

lemma addr_char_punct [simp]: "addr_char CHR '':''" "addr_char CHR ''.''" "addr_char CHR ''f''"
  by (simp_all add: addr_char_def is_whitespace_def)

lemma addr_char_fmt [simp]: "list_all addr_char (fmt_subslice gs)"
  by (auto simp: fmt_subslice_def show_hex_def addr_char_show intro!: list_all_join)

lemma addr_char_show_ipv4 [simp]: "list_all addr_char (show_ipv4 a)"
  by (auto simp: show_ipv4_def show_dec_def addr_char_show intro!: list_all_join)

lemma addr_char_show_ipv6: "list_all addr_char (show_ipv6 a)"
  by (simp add: show_ipv6_def Let_def split: option.split prod.split)

lemma show_ipv6_not_Nil: "show_ipv6 a \<noteq> []"
proof -
  have "fmt_subslice (segments a) = [] \<longleftrightarrow> segments a = []"
    by (simp add: fmt_subslice_def show_hex_def join_eq_Nil)
  moreover have "segments a \<noteq> []"
    by (cases "octets6 a" rule: be16s.cases) (auto simp: segments_def dest: arg_cong [where f = length])
  ultimately show ?thesis
    by (simp add: show_ipv6_def Let_def split: option.split prod.split)
qed

lemma show_ipv6_token: "is_token is_whitespace (show_ipv6 a)"
  using addr_char_show_ipv6 [of a] show_ipv6_not_Nil [of a]
  by (simp add: is_token_def addr_char_def list_all_iff)

lemma show_ipv6_ascii: "ascii_text (show_ipv6 a)"
  using addr_char_show_ipv6 [of a] by (simp add: ascii_text_def addr_char_def list_all_iff)

end
