(* ===== verification/Net_Code.thy ===== *)
theory Net_Code
  imports Std_Net
begin

text \<open>
  \<open>src/service/net/code.rs\<close>: the addresses of the private network and the passcodes.
  The random generator of the \<open>rand\<close> package is a parameter: a state and two functions
  that draw from it. \<open>random_address\<close> and \<open>passcode_new\<close> return the drawn value with the
  generator's next state; \<open>None\<close> is a loop that never ends, or an index out of bounds.
\<close>

section \<open>Constants\<close>

definition PASSCODE_ALPHABET :: bytes where
  "PASSCODE_ALPHABET = bytes_of ''ABCDEFGHIJKLMNOPQRSTUVWXYZabcdefghijklmnopqrstuvwxyz0123456789''"

definition PASSCODE_LEN :: nat where "PASSCODE_LEN = 16"
definition PREFIX :: u16 where "PREFIX = 0xfd00"
definition RESERVED :: u64 where "RESERVED = 256"

definition PROXY_ADDRESS :: ipv6 where
  "PROXY_ADDRESS = from_segments [PREFIX, 0, 0, 0, 0, 0, 0, 1]"

definition is_network_address :: "ipv6 \<Rightarrow> bool" where
  "is_network_address addr = (segments addr ! 0 = PREFIX)"

section \<open>The random generator\<close>

record 'r rng_api =
  random_u64 :: "'r \<Rightarrow> u64 \<times> 'r"
  random_range :: "nat \<Rightarrow> 'r \<Rightarrow> nat \<times> 'r"

text \<open>\<open>random_range(0..n)\<close> is documented to draw from the half-open range.\<close>

definition rng_ok :: "'r rng_api \<Rightarrow> bool" where
  "rng_ok G = (\<forall>n r. 0 < n \<longrightarrow> fst (random_range G n r) < n)"

section \<open>Addresses\<close>

definition address_of_low :: "u64 \<Rightarrow> ipv6" where
  "address_of_low low =
     from_octets6 (copy_at 8 (be_bytes 8 (unat low)) (copy_at 0 (be_bytes 2 (unat PREFIX)) (replicate 16 0)))"

partial_function (option) random_address :: "'r rng_api \<Rightarrow> 'r \<Rightarrow> (ipv6 \<times> 'r) option" where
  "random_address G r =
     (case random_u64 G r of (low, r') \<Rightarrow>
        if low < RESERVED then random_address G r' else Some (address_of_low low, r'))"

lemma octets_address_of_low:
  "octets6 (address_of_low low) = [0xfd, 0] @ replicate 6 0 @ be_bytes 8 (unat low)"
  unfolding address_of_low_def
  by (subst octets6_from_octets6) (simp_all add: copy_at_def PREFIX_def be_bytes_numeral)

lemma address_of_low_inject: "address_of_low a = address_of_low b \<longleftrightarrow> a = b"
proof
  assume "address_of_low a = address_of_low b"
  then have "be_bytes 8 (unat a) = be_bytes 8 (unat b)"
    using octets_address_of_low [of a] octets_address_of_low [of b]
    by (simp only: append_same_eq same_append_eq)
  then have "be_val (be_bytes 8 (unat a)) = be_val (be_bytes 8 (unat b))" by simp
  then show "a = b" by (simp only: be_val_be_bytes) (simp add: word_unat_eq_iff)
qed simp

lemma octets_PROXY_ADDRESS: "octets6 PROXY_ADDRESS = [0xfd, 0] @ replicate 6 0 @ be_bytes 8 1"
  unfolding PROXY_ADDRESS_def from_segments_def
  by (subst octets6_from_octets6)
    (simp_all add: PREFIX_def be_bytes_numeral replicate_numeral)

lemma PROXY_ADDRESS_low: "PROXY_ADDRESS = address_of_low 1"
  by (rule octets6_inject [THEN iffD1]) (simp add: octets_PROXY_ADDRESS octets_address_of_low)

lemma network_address_of_low [simp]: "is_network_address (address_of_low low)"
  unfolding is_network_address_def segments_def octets_address_of_low
  by (simp add: PREFIX_def be_val_def)

text \<open>The generator's state after \<open>n\<close> rejected draws.\<close>

definition drawn :: "'r rng_api \<Rightarrow> nat \<Rightarrow> 'r \<Rightarrow> 'r" where
  "drawn G n r = ((\<lambda>r. snd (random_u64 G r)) ^^ n) r"

lemma drawn_simps [simp]: "drawn G 0 r = r" "drawn G (Suc n) r = drawn G n (snd (random_u64 G r))"
  by (simp_all add: drawn_def funpow_Suc_right del: funpow.simps)

text \<open>What \<open>random_address\<close> returns: the first draw that is not reserved.\<close>

lemma random_address_first:
  assumes "\<forall>k < n. fst (random_u64 G (drawn G k r)) < RESERVED"
    and "\<not> fst (random_u64 G (drawn G n r)) < RESERVED"
  shows "random_address G r =
    Some (address_of_low (fst (random_u64 G (drawn G n r))), drawn G (Suc n) r)"
  using assms
proof (induction n arbitrary: r)
  case 0
  then show ?case by (subst random_address.simps) (simp add: case_prod_beta)
next
  case (Suc n)
  have "fst (random_u64 G r) < RESERVED" using Suc.prems(1) by (metis drawn_simps(1) zero_less_Suc)
  moreover have "random_address G (snd (random_u64 G r)) =
    Some (address_of_low (fst (random_u64 G (drawn G (Suc n) r))), drawn G (Suc (Suc n)) r)"
    using Suc.IH [of "snd (random_u64 G r)"] Suc.prems by fastforce
  ultimately show ?case by (subst random_address.simps) (simp add: case_prod_beta)
qed

lemma random_address_low:
  assumes "random_address G r = Some (a, r')"
  shows "\<exists>low. RESERVED \<le> low \<and> a = address_of_low low"
proof -
  have "\<exists>low. RESERVED \<le> low \<and> fst (a, r') = address_of_low low"
  proof (rule random_address.raw_induct
      [where P = "\<lambda>G r x. \<exists>low. RESERVED \<le> low \<and> fst x = address_of_low low", OF _ assms])
    fix f :: "'a rng_api \<Rightarrow> 'a \<Rightarrow> (ipv6 \<times> 'a) option" and G r x
    assume "\<And>G r x. f G r = Some x \<Longrightarrow> \<exists>low. RESERVED \<le> low \<and> fst x = address_of_low low"
      and "(case random_u64 G r of (low, r') \<Rightarrow>
          if low < RESERVED then f G r' else Some (address_of_low low, r')) = Some x"
    then show "\<exists>low. RESERVED \<le> low \<and> fst x = address_of_low low"
      by (auto split: prod.splits if_splits simp: not_less)
  qed
  then show ?thesis by simp
qed

lemma random_address_drawn:
  assumes "random_address G r = Some (a, r')"
  shows "\<exists>n. RESERVED \<le> fst (random_u64 G (drawn G n r))"
proof (rule random_address.raw_induct
    [where P = "\<lambda>G r x. \<exists>n. RESERVED \<le> fst (random_u64 G (drawn G n r))", OF _ assms])
  fix f :: "'a rng_api \<Rightarrow> 'a \<Rightarrow> (ipv6 \<times> 'a) option" and G r x
  assume IH: "\<And>G r x. f G r = Some x \<Longrightarrow> \<exists>n. RESERVED \<le> fst (random_u64 G (drawn G n r))"
    and eq: "(case random_u64 G r of (low, r') \<Rightarrow>
        if low < RESERVED then f G r' else Some (address_of_low low, r')) = Some x"
  show "\<exists>n. RESERVED \<le> fst (random_u64 G (drawn G n r))"
  proof (cases "fst (random_u64 G r) < RESERVED")
    case True
    with eq have "f G (snd (random_u64 G r)) = Some x" by (simp add: case_prod_beta)
    from IH [OF this] show ?thesis by (metis drawn_simps(2))
  next
    case False
    then show ?thesis by (metis drawn_simps(1) not_less)
  qed
qed

text \<open>\<open>random_address\<close> returns exactly when the generator at some point draws an unreserved value.\<close>

lemma random_address_returns_iff:
  "(\<exists>a r'. random_address G r = Some (a, r')) \<longleftrightarrow>
   (\<exists>n. RESERVED \<le> fst (random_u64 G (drawn G n r)))" (is "?ret \<longleftrightarrow> ?drawn")
proof
  assume ?drawn
  define n where "n = (LEAST n. RESERVED \<le> fst (random_u64 G (drawn G n r)))"
  have n: "RESERVED \<le> fst (random_u64 G (drawn G n r))"
    unfolding n_def using \<open>?drawn\<close> by (rule LeastI_ex)
  have "\<forall>k < n. fst (random_u64 G (drawn G k r)) < RESERVED"
    unfolding n_def using not_less_Least by (metis not_less)
  with n show ?ret using random_address_first [of n G r] by (auto simp: not_less)
qed (elim exE, rule random_address_drawn)

lemma random_address_network:
  "random_address G r = Some (a, r') \<Longrightarrow> is_network_address a \<and> a \<noteq> PROXY_ADDRESS"
  using random_address_low [of G r a r']
  by (auto simp: PROXY_ADDRESS_low address_of_low_inject RESERVED_def word_le_nat_alt)

section \<open>Passcodes\<close>

datatype passcode = Passcode (code: string)

text \<open>The characters of a passcode, one draw each; an index out of bounds would panic.\<close>

fun draw_chars :: "'r rng_api \<Rightarrow> nat \<Rightarrow> 'r \<Rightarrow> (string \<times> 'r) option" where
  "draw_chars G 0 r = Some ([], r)"
| "draw_chars G (Suc k) r =
     (case random_range G (length PASSCODE_ALPHABET) r of (i, r1) \<Rightarrow>
        if i < length PASSCODE_ALPHABET
        then map_option (\<lambda>(cs, r2). (char_of (unat (PASSCODE_ALPHABET ! i)) # cs, r2)) (draw_chars G k r1)
        else None)"

definition passcode_new :: "'r rng_api \<Rightarrow> 'r \<Rightarrow> (passcode \<times> 'r) option" where
  "passcode_new G r = map_option (\<lambda>(cs, r'). (Passcode cs, r')) (draw_chars G PASSCODE_LEN r)"

definition passcode_parse :: "string \<Rightarrow> passcode result" where
  "passcode_parse text =
     (if length text \<noteq> PASSCODE_LEN then Err (Bail ''Passcode has the wrong length'')
      else if \<not> list_all (\<lambda>b. b \<in> set PASSCODE_ALPHABET) (bytes_of text)
      then Err (Bail ''Passcode has invalid characters'')
      else Ok (Passcode text))"

definition passcode_fmt :: "passcode \<Rightarrow> string" where "passcode_fmt p = code p"

definition passcode_wf :: "passcode \<Rightarrow> bool" where
  "passcode_wf p = (length (code p) = PASSCODE_LEN \<and>
     list_all (\<lambda>b. b \<in> set PASSCODE_ALPHABET) (bytes_of (code p)))"

lemma passcode_parse_fmt: "passcode_wf p \<Longrightarrow> passcode_parse (passcode_fmt p) = Ok p"
  by (cases p) (simp add: passcode_parse_def passcode_fmt_def passcode_wf_def)

lemma passcode_parse_Ok: "passcode_parse t = Ok p \<longleftrightarrow> passcode_wf p \<and> passcode_fmt p = t"
  by (cases p) (auto simp: passcode_parse_def passcode_fmt_def passcode_wf_def)

lemma draw_chars_returns:
  "rng_ok G \<Longrightarrow> \<exists>cs r'. draw_chars G k r = Some (cs, r')"
proof (induction k arbitrary: r)
  case (Suc k)
  have "length PASSCODE_ALPHABET > 0" by (simp add: PASSCODE_ALPHABET_def)
  with Suc.prems have "fst (random_range G (length PASSCODE_ALPHABET) r) < length PASSCODE_ALPHABET"
    by (simp add: rng_ok_def)
  moreover obtain cs r' where "draw_chars G k (snd (random_range G (length PASSCODE_ALPHABET) r)) = Some (cs, r')"
    using Suc by blast
  ultimately show ?case by (simp add: case_prod_beta)
qed simp

lemma draw_chars_wf:
  "draw_chars G k r = Some (cs, r') \<Longrightarrow>
     length cs = k \<and> list_all (\<lambda>b. b \<in> set PASSCODE_ALPHABET) (bytes_of cs)"
proof (induction k arbitrary: r cs)
  case (Suc k)
  then show ?case
    by (auto simp: bytes_of_def simp del: split_paired_All split: prod.splits if_splits)
qed (simp add: bytes_of_def)

lemma passcode_new_wf: "passcode_new G r = Some (p, r') \<Longrightarrow> passcode_wf p"
  by (auto simp: passcode_new_def passcode_wf_def dest: draw_chars_wf)

lemma passcode_new_returns: "rng_ok G \<Longrightarrow> \<exists>p r'. passcode_new G r = Some (p, r')"
  using draw_chars_returns [of G PASSCODE_LEN r] by (auto simp: passcode_new_def)

text \<open>The alphabet has only letters and digits, so a passcode is one token of ASCII text.\<close>

lemma alphabet_char:
  assumes "b \<in> set PASSCODE_ALPHABET"
  shows "unat b < 128 \<and> \<not> is_whitespace (char_of (unat b))"
proof -
  have "list_all (\<lambda>c. (of_char c :: nat) < 128 \<and> \<not> is_whitespace c) (text_of PASSCODE_ALPHABET)"
    by (simp add: PASSCODE_ALPHABET_def is_whitespace_def)
  moreover have "char_of (unat b) \<in> set (text_of PASSCODE_ALPHABET)"
    using assms by (simp add: text_of_def)
  ultimately show ?thesis by (auto simp: list_all_iff)
qed

lemma passcode_char:
  assumes "passcode_wf p" and "c \<in> set (code p)"
  shows "(of_char c :: nat) < 128 \<and> \<not> is_whitespace c"
proof -
  have "word_of_nat (of_char c) \<in> set PASSCODE_ALPHABET"
    using assms by (auto simp: passcode_wf_def bytes_of_def list_all_iff)
  from alphabet_char [OF this] show ?thesis by simp
qed

lemma passcode_token: "passcode_wf p \<Longrightarrow> is_token is_whitespace (passcode_fmt p)"
  using passcode_char [of p]
  by (auto simp: is_token_def passcode_fmt_def list_all_iff passcode_wf_def PASSCODE_LEN_def)

lemma passcode_ascii: "passcode_wf p \<Longrightarrow> ascii_text (passcode_fmt p)"
  using passcode_char [of p] by (simp add: ascii_text_def passcode_fmt_def list_all_iff)

lemma passcode_length: "passcode_wf p \<Longrightarrow> length (passcode_fmt p) = 16"
  by (simp add: passcode_wf_def passcode_fmt_def PASSCODE_LEN_def)

section \<open>A concrete generator\<close>

text \<open>
  For witnesses: a counter. Its 64 bit values start at 256, its choices go round the range.
\<close>

definition counter_rng :: "nat rng_api" where
  "counter_rng = \<lparr>random_u64 = (\<lambda>r. (word_of_nat (r + 256), Suc r)),
     random_range = (\<lambda>n r. (r mod n, Suc r))\<rparr>"

lemma counter_rng_ok: "rng_ok counter_rng"
  by (simp add: rng_ok_def counter_rng_def)

lemma counter_address: "random_address counter_rng 0 = Some (address_of_low 256, 1)"
  by (subst random_address.simps) (simp add: counter_rng_def RESERVED_def)

lemma draw_chars_numeral:
  "draw_chars G (numeral k) r =
     (case random_range G (length PASSCODE_ALPHABET) r of (i, r1) \<Rightarrow>
        if i < length PASSCODE_ALPHABET
        then map_option (\<lambda>(cs, r2). (char_of (unat (PASSCODE_ALPHABET ! i)) # cs, r2)) (draw_chars G (pred_numeral k) r1)
        else None)"
  by (subst numeral_eq_Suc) (rule draw_chars.simps)

lemma counter_passcode: "passcode_new counter_rng 1 = Some (Passcode ''BCDEFGHIJKLMNOPQ'', 17)"
proof -
  have alphabet: "char_of (unat (PASSCODE_ALPHABET ! i)) =
      ''ABCDEFGHIJKLMNOPQRSTUVWXYZabcdefghijklmnopqrstuvwxyz0123456789'' ! i" if "i < 62" for i
    using that unfolding PASSCODE_ALPHABET_def by (subst nth_bytes_of) simp_all
  have len: "length PASSCODE_ALPHABET = 62" by (simp add: PASSCODE_ALPHABET_def)
  show ?thesis
    by (simp add: passcode_new_def PASSCODE_LEN_def draw_chars_numeral len counter_rng_def alphabet)
qed

section \<open>Properties\<close>

text \<open>\<open>random_address\<close> returns exactly when the generator sooner or later draws an unreserved
  value, and then it returns an address of the private network other than the proxy's own.\<close>

theorem random_address_total:
  "(random_address G r = None \<longleftrightarrow> (\<forall>n. fst (random_u64 G (drawn G n r)) < RESERVED)) \<and>
   (\<forall>a r'. random_address G r \<noteq> Some (a, r') \<or> is_network_address a \<and> a \<noteq> PROXY_ADDRESS)"
  using random_address_returns_iff [of G r] random_address_network [of G r]
  by (auto simp: not_less [symmetric])

theorem random_address_total_witness:
  "random_address counter_rng 0 = Some (address_of_low 256, 1) \<and> is_network_address (address_of_low 256)"
  using random_address_total [of counter_rng 0] counter_address by auto

text \<open>A generator that keeps its range makes a passcode, its text parses back to it, and what
  \<open>Passcode::parse\<close> accepts is printed as the text that was parsed.\<close>

theorem passcode_roundtrip:
  assumes "rng_ok G"
  shows "\<exists>p r'. passcode_new G r = Some (p, r') \<and> length (passcode_fmt p) = PASSCODE_LEN \<and>
    passcode_parse (passcode_fmt p) = Ok p \<and> (\<forall>t. passcode_parse t = Ok p \<longleftrightarrow> t = passcode_fmt p)"
proof -
  from passcode_new_returns [OF assms] obtain p r' where p: "passcode_new G r = Some (p, r')" by blast
  then have "passcode_wf p" by (rule passcode_new_wf)
  with p show ?thesis
    using passcode_parse_fmt [of p] by (auto simp: passcode_parse_Ok passcode_length PASSCODE_LEN_def)
qed

theorem passcode_roundtrip_witness:
  "passcode_parse (passcode_fmt (Passcode ''BCDEFGHIJKLMNOPQ'')) = Ok (Passcode ''BCDEFGHIJKLMNOPQ'')"
  using passcode_roundtrip [OF counter_rng_ok, of 1] counter_passcode by auto

end
