(* ===== verification/Net_Packet.thy ===== *)
theory Net_Packet
  imports Net_Code
begin

text \<open>
  \<open>src/service/net/packet.rs\<close>: the frame that carries one datagram on a bound link.
  A \<open>Bytes\<close> or \<open>BytesMut\<close> is its list of bytes. The integer accessors of the \<open>bytes\<close>
  package are a parameter, a record of the four the code calls; what the code relies on is
  their documented behaviour, the locale \<open>buf\<close>.
\<close>

section \<open>The accessors of the bytes package\<close>

record buf_api =
  put_u16 :: "u16 \<Rightarrow> bytes \<Rightarrow> bytes"
  put_u32 :: "u32 \<Rightarrow> bytes \<Rightarrow> bytes"
  get_u16 :: "bytes \<Rightarrow> u16 \<times> bytes"
  get_u32 :: "bytes \<Rightarrow> u32 \<times> bytes"

text \<open>
  \<open>put\<close> writes in big-endian order at the end of the buffer; \<open>get\<close> reads in the same
  order from the front and advances, where enough bytes are left.
\<close>

locale buf =
  fixes B :: buf_api
  assumes put_u16: "put_u16 B n bs = bs @ be_bytes 2 (unat n)"
    and put_u32: "put_u32 B m bs = bs @ be_bytes 4 (unat m)"
    and get_u16: "2 \<le> length bs \<Longrightarrow> get_u16 B bs = (word_of_nat (be_val (take 2 bs)), drop 2 bs)"
    and get_u32: "4 \<le> length bs \<Longrightarrow> get_u32 B bs = (word_of_nat (be_val (take 4 bs)), drop 4 bs)"
begin

lemma get_put_u16: "get_u16 B (be_bytes 2 (unat n) @ r) = (n, r)"
  by (subst get_u16) (simp_all add: be_val_be_bytes)

lemma get_put_u32: "get_u32 B (be_bytes 4 (unat m) @ r) = (m, r)"
  by (subst get_u32) (simp_all add: be_val_be_bytes)

text \<open>A value read back is written as the bytes it was read from.\<close>

lemma put_get_u16: "2 \<le> length bs \<Longrightarrow> get_u16 B bs = (n, r) \<Longrightarrow> bs = be_bytes 2 (unat n) @ r"
proof -
  assume l: "2 \<le> length bs" and g: "get_u16 B bs = (n, r)"
  have len: "length (take 2 bs) = 2" using l by simp
  have "be_val (take 2 bs) < 65536" using be_val_less [of "take 2 bs"] unfolding len by simp
  then have "unat n = be_val (take 2 bs)" using g get_u16 [OF l] by (auto simp: unat_of_nat take_bit_eq_mod)
  then have "be_bytes 2 (unat n) = take 2 bs" using be_bytes_be_val [of "take 2 bs"] unfolding len by simp
  then show "bs = be_bytes 2 (unat n) @ r" using g get_u16 [OF l] by auto
qed

lemma put_get_u32: "4 \<le> length bs \<Longrightarrow> get_u32 B bs = (m, r) \<Longrightarrow> bs = be_bytes 4 (unat m) @ r"
proof -
  assume l: "4 \<le> length bs" and g: "get_u32 B bs = (m, r)"
  have len: "length (take 4 bs) = 4" using l by simp
  have "be_val (take 4 bs) < 4294967296" using be_val_less [of "take 4 bs"] unfolding len by simp
  then have "unat m = be_val (take 4 bs)" using g get_u32 [OF l] by (auto simp: unat_of_nat take_bit_eq_mod)
  then have "be_bytes 4 (unat m) = take 4 bs" using be_bytes_be_val [of "take 4 bs"] unfolding len by simp
  then show "bs = be_bytes 4 (unat m) @ r" using g get_u32 [OF l] by auto
qed

lemma get_u16_length: "2 \<le> length bs \<Longrightarrow> get_u16 B bs = (n, r) \<Longrightarrow> length bs = 2 + length r"
  by (drule (1) put_get_u16) simp

lemma get_u32_length: "4 \<le> length bs \<Longrightarrow> get_u32 B bs = (m, r) \<Longrightarrow> length bs = 4 + length r"
  by (drule (1) put_get_u32) simp

end

text \<open>
  The accessors built from \<open>to_be_bytes\<close> and \<open>from_be_bytes\<close> of the standard library
  satisfy the documentation.
\<close>

definition be_buf :: buf_api where
  "be_buf = \<lparr>put_u16 = (\<lambda>n bs. bs @ be_bytes 2 (unat n)), put_u32 = (\<lambda>n bs. bs @ be_bytes 4 (unat n)),
     get_u16 = (\<lambda>bs. (word_of_nat (be_val (take 2 bs)), drop 2 bs)),
     get_u32 = (\<lambda>bs. (word_of_nat (be_val (take 4 bs)), drop 4 bs))\<rparr>"

interpretation be: buf be_buf
  by unfold_locales (simp_all add: be_buf_def)

section \<open>Frames\<close>

record frame =
  peer_ip :: ipv6
  peer_port :: u16
  frame_data :: bytes

definition MAGIC :: u32 where "MAGIC = 0x778B4CF6"
definition HEADER_LEN :: nat where "HEADER_LEN = 4 + 16 + 2 + 2"

definition frame_new :: "ipv6 \<Rightarrow> u16 \<Rightarrow> bytes \<Rightarrow> frame" where
  "frame_new ip port d = \<lparr>peer_ip = ip, peer_port = port, frame_data = d\<rparr>"

definition frame_to_peer :: "socket_addr \<Rightarrow> bytes \<Rightarrow> frame" where
  "frame_to_peer peer d =
     frame_new (case sock_ip peer of V4 v4 \<Rightarrow> to_ipv6_mapped v4 | V6 v6 \<Rightarrow> v6) (sock_port peer) d"

definition frame_peer :: "frame \<Rightarrow> socket_addr" where
  "frame_peer f =
     (case to_ipv4_mapped (peer_ip f) of
        Some v4 \<Rightarrow> socket_addr_new (V4 v4) (peer_port f)
      | None \<Rightarrow> socket_addr_new (V6 (peer_ip f)) (peer_port f))"

definition frame_encode :: "buf_api \<Rightarrow> frame \<Rightarrow> bytes result" where
  "frame_encode B f =
     (if length (frame_data f) > 65535 then Err (Bail ''datagram too large to encapsulate'')
      else
        let len = (word_of_nat (length (frame_data f)) :: u16);
            buffer = put_u32 B MAGIC [];
            buffer = buffer @ octets6 (peer_ip f);
            buffer = put_u16 B (peer_port f) buffer;
            buffer = put_u16 B len buffer
        in Ok (buffer @ frame_data f))"

definition frame_decode :: "buf_api \<Rightarrow> bytes \<Rightarrow> frame result" where
  "frame_decode B raw =
     (if \<not> length raw \<ge> HEADER_LEN then Err (Bail ''frame too small'')
      else case get_u32 B raw of (magic, cursor) \<Rightarrow>
        if magic \<noteq> MAGIC then Err (Bail ''frame has invalid magic'')
        else
          let octets = take 16 cursor; cursor = drop 16 cursor
          in case get_u16 B cursor of (port, cursor) \<Rightarrow>
             (case get_u16 B cursor of (len, cursor) \<Rightarrow>
                if length cursor \<noteq> unat len then Err (Bail ''frame size mismatch'')
                else Ok \<lparr>peer_ip = from_octets6 octets, peer_port = port, frame_data = cursor\<rparr>))"

text \<open>The wire format, and both directions against it.\<close>

definition frame_bytes :: "frame \<Rightarrow> bytes" where
  "frame_bytes f = be_bytes 4 (unat MAGIC) @ octets6 (peer_ip f) @ be_bytes 2 (unat (peer_port f)) @
     be_bytes 2 (length (frame_data f)) @ frame_data f"

lemma length_frame_bytes: "length (frame_bytes f) = HEADER_LEN + length (frame_data f)"
  by (simp add: frame_bytes_def HEADER_LEN_def)

lemma unat_len16: "n \<le> 65535 \<Longrightarrow> unat (word_of_nat n :: u16) = n"
  by (simp add: unat_of_nat take_bit_eq_mod)

context buf
begin

lemma encode_eq:
  "frame_encode B f =
     (if length (frame_data f) \<le> 65535 then Ok (frame_bytes f)
      else Err (Bail ''datagram too large to encapsulate''))"
  by (simp add: frame_encode_def frame_bytes_def put_u16 put_u32 unat_len16 Let_def)

lemma decode_frame_bytes:
  assumes "length (frame_data f) \<le> 65535"
  shows "frame_decode B (frame_bytes f) = Ok f"
proof -
  have len: "get_u16 B (be_bytes 2 (length (frame_data f)) @ frame_data f) =
      (word_of_nat (length (frame_data f)), frame_data f)"
    using get_put_u16 [of "word_of_nat (length (frame_data f))" "frame_data f"] assms
    by (simp only: unat_len16)
  have "\<not> length (frame_bytes f) < HEADER_LEN" by (simp add: length_frame_bytes)
  then show ?thesis
    by (simp add: frame_decode_def frame_bytes_def get_put_u32 get_put_u16 len unat_len16 assms)
qed

lemma decode_Ok_bytes:
  assumes "frame_decode B raw = Ok f"
  shows "raw = frame_bytes f \<and> length (frame_data f) \<le> 65535"
proof -
  obtain m c1 p c2 n c3 where g1: "get_u32 B raw = (m, c1)" and g2: "get_u16 B (drop 16 c1) = (p, c2)"
    and g3: "get_u16 B c2 = (n, c3)" by (metis surj_pair)
  with assms have l: "24 \<le> length raw" and m: "m = MAGIC" and n: "length c3 = unat n"
    and f: "f = \<lparr>peer_ip = from_octets6 (take 16 c1), peer_port = p, frame_data = c3\<rparr>"
    by (auto simp: frame_decode_def HEADER_LEN_def Let_def split: if_splits)
  from l have r1: "raw = be_bytes 4 (unat m) @ c1" by (intro put_get_u32 [OF _ g1]) simp
  with l have l1: "20 \<le> length c1" by simp
  then have r2: "drop 16 c1 = be_bytes 2 (unat p) @ c2" by (intro put_get_u16 [OF _ g2]) simp
  then have "length (drop 16 c1) = 2 + length c2" by simp
  with l1 have "2 \<le> length c2" by simp
  then have r3: "c2 = be_bytes 2 (unat n) @ c3" by (rule put_get_u16 [OF _ g3])
  have "octets6 (from_octets6 (take 16 c1)) = take 16 c1" using l1 by (intro octets6_from_octets6) simp
  moreover have "c1 = take 16 c1 @ drop 16 c1" by simp
  ultimately have "raw = frame_bytes f"
    using r1 r2 r3 n m by (simp add: f frame_bytes_def)
  moreover have "length c3 \<le> 65535" using unat_word_less(1) [of n] unfolding n by linarith
  ultimately show ?thesis by (simp add: f)
qed

lemma decode_iff_encode: "frame_decode B raw = Ok f \<longleftrightarrow> frame_encode B f = Ok raw"
  using decode_Ok_bytes [of raw f] decode_frame_bytes [of f] by (auto simp: encode_eq split: if_splits)

lemma encode_length: "frame_encode B f = Ok raw \<Longrightarrow> length raw = HEADER_LEN + length (frame_data f)"
  by (auto simp: encode_eq length_frame_bytes split: if_splits)

end

text \<open>
  What a socket address becomes in a frame: an IPv4-mapped one is unmapped, and the flow
  label and scope are lost.
\<close>

fun canonical :: "socket_addr \<Rightarrow> socket_addr" where
  "canonical (SockV4 a p) = SockV4 a p"
| "canonical (SockV6 a p _ _) =
     (case to_ipv4_mapped a of Some v4 \<Rightarrow> SockV4 v4 p | None \<Rightarrow> SockV6 a p 0 0)"

lemma frame_peer_to_peer: "frame_peer (frame_to_peer s d) = canonical s"
  by (cases s) (simp_all add: frame_peer_def frame_to_peer_def frame_new_def split: option.split)

lemma frame_to_peer_data [simp]: "frame_data (frame_to_peer s d) = d"
  by (simp add: frame_to_peer_def frame_new_def)

lemma canonical_idem [simp]: "canonical (canonical s) = canonical s"
  by (cases s) (simp_all split: option.split)

section \<open>Properties\<close>

text \<open>For witnesses: a frame of three bytes.\<close>

definition demo_frame :: frame where "demo_frame = frame_new 1 80 [1, 2, 3]"

text \<open>C22. Decoding and encoding are inverse to each other: \<open>decode\<close> accepts exactly the bytes
  \<open>encode\<close> makes, whatever the frame, and returns the frame they were made from. \<open>encode\<close> fails
  only on data that does not fit its 16 bit length.\<close>

theorem frame_decode_encode:
  assumes "buf B"
  shows "(frame_decode B raw = Ok f \<longleftrightarrow> frame_encode B f = Ok raw) \<and>
    (is_ok (frame_encode B f) \<longleftrightarrow> length (frame_data f) < 2 ^ 16)"
proof
  from assms show "frame_decode B raw = Ok f \<longleftrightarrow> frame_encode B f = Ok raw" by (rule buf.decode_iff_encode)
  show "is_ok (frame_encode B f) \<longleftrightarrow> length (frame_data f) < 2 ^ 16"
    using buf.encode_eq [OF assms, of f] by auto
qed

theorem frame_decode_encode_witness:
  "frame_decode be_buf (frame_bytes demo_frame) = Ok demo_frame"
  using frame_decode_encode [OF be.buf_axioms, of "frame_bytes demo_frame" demo_frame] be.encode_eq [of demo_frame]
  by (simp add: demo_frame_def frame_new_def)

text \<open>A reply wrapped for the client reads back as coming from its peer, in canonical form, with
  its data unchanged.\<close>

theorem frame_reply_roundtrip:
  assumes "buf B" and "length d \<le> 65535"
  shows "\<exists>raw f. frame_encode B (frame_to_peer peer d) = Ok raw \<and> frame_decode B raw = Ok f \<and>
    frame_peer f = canonical peer \<and> frame_data f = d \<and> length raw = HEADER_LEN + length d"
proof (intro exI conjI)
  show e: "frame_encode B (frame_to_peer peer d) = Ok (frame_bytes (frame_to_peer peer d))"
    using assms by (simp add: buf.encode_eq)
  show "frame_decode B (frame_bytes (frame_to_peer peer d)) = Ok (frame_to_peer peer d)"
    using assms by (intro buf.decode_frame_bytes) simp_all
qed (simp_all add: frame_peer_to_peer length_frame_bytes)

theorem frame_reply_roundtrip_witness:
  "\<exists>raw f. frame_encode be_buf (frame_to_peer (SockV6 (to_ipv6_mapped 7) 53 0 9) [1]) = Ok raw \<and>
    frame_decode be_buf raw = Ok f \<and> frame_peer f = SockV4 7 53 \<and> frame_data f = [1]"
  using frame_reply_roundtrip [OF be.buf_axioms, of "[1]" "SockV6 (to_ipv6_mapped 7) 53 0 9"] by auto

end
