(* ===== verification/Lease.thy ===== *)
theory Lease
  imports Net_Packet
begin

text \<open>
  \<open>src/service/lease.rs\<close>: what every kind of lease offers its session, as the trait
  \<open>LeaseHandler\<close>; and the vocabulary in which the components say what they do.

  A channel of \<open>tokio::sync::mpsc\<close>, a task and a socket are outside the sources. A channel
  is named by a number; sending on one is an \<open>effect\<close> in the order the code makes the
  calls, and whether a send succeeds or a channel is closed is read from an environment,
  like the clock.
\<close>

section \<open>Effects and their environment\<close>

type_synonym chan = nat
type_synonym route_key = "ipv6 \<times> u16"

datatype effect =
    Send chan bytes
  | Egress chan socket_addr bytes
  | SpawnTranslate route_key chan chan
  | SpawnConnect chan chan
  | SpawnDns chan chan
  | DropSender chan

text \<open>
  What the calls of one step return: \<open>send_ok c\<close> for \<open>UnboundedSender::send\<close>, \<open>closed c\<close>
  for \<open>is_closed\<close>, and the first and second reading of \<open>Instant::now\<close>.
\<close>

record env =
  send_ok :: "chan \<Rightarrow> bool"
  closed :: "chan \<Rightarrow> bool"
  clock1 :: instant
  clock2 :: instant

text \<open>
  The documentation of \<open>mpsc\<close>: a send fails exactly when the receiving half is closed. The
  clock does not run backwards.
\<close>

definition env_ok :: "env \<Rightarrow> bool" where
  "env_ok E = ((\<forall>c. send_ok E c \<longleftrightarrow> \<not> closed E c) \<and> clock1 E \<le> clock2 E)"

text \<open>For witnesses: everything works, at time 0.\<close>

definition env_up :: env where
  "env_up = \<lparr>send_ok = (\<lambda>_. True), closed = (\<lambda>_. False), clock1 = 0, clock2 = 0\<rparr>"

lemma env_up_simps [simp]:
  "send_ok env_up c" "\<not> closed env_up c" "clock1 env_up = 0" "clock2 env_up = 0"
  by (simp_all add: env_up_def)

definition chan_send :: "env \<Rightarrow> chan \<Rightarrow> bytes \<Rightarrow> effect list \<times> unit result" where
  "chan_send E c d = (if send_ok E c then ([Send c d], Ok ()) else ([], Err External))"

definition egress_send :: "env \<Rightarrow> chan \<Rightarrow> socket_addr \<Rightarrow> bytes \<Rightarrow> effect list \<times> unit result" where
  "egress_send E c peer d = (if send_ok E c then ([Egress c peer d], Ok ()) else ([], Err External))"

section \<open>The trait\<close>

text \<open>
  The laws every handler keeps: closing never fails, keeps the invariant of the state it
  works on and does nothing the second time; a lease that is no longer live refuses data;
  and a send that fails has sent nothing.
\<close>

locale lease_handler =
  fixes send :: "env \<Rightarrow> 'h \<Rightarrow> bytes \<Rightarrow> 'w \<Rightarrow> effect list \<times> unit result"
    and close :: "env \<Rightarrow> 'h \<Rightarrow> 'w \<Rightarrow> 'w \<times> unit result"
    and is_live :: "env \<Rightarrow> 'h \<Rightarrow> bool"
    and inv :: "'w \<Rightarrow> bool"
  assumes close_ok: "snd (close E h w) = Ok ()"
    and close_inv: "inv w \<Longrightarrow> inv (fst (close E h w))"
    and close_close: "fst (close E' h (fst (close E h w))) = fst (close E h w)"
    and dead_send: "env_ok E \<Longrightarrow> \<not> is_live E h \<Longrightarrow> \<not> is_ok (snd (send E h d w))"
    and failed_send: "\<not> is_ok (snd (send E h d w)) \<Longrightarrow> fst (send E h d w) = []"
    and one_effect: "length (fst (send E h d w)) \<le> 1"
begin

text \<open>A whole stream of sends stops at the first that fails, as the \<open>?\<close> of the callers does.\<close>

primrec send_all :: "env \<Rightarrow> 'h \<Rightarrow> bytes list \<Rightarrow> 'w \<Rightarrow> effect list \<times> unit result" where
  "send_all E h [] w = ([], Ok ())"
| "send_all E h (d # ds) w =
     (case send E h d w of
        (es, Err e) \<Rightarrow> (es, Err e)
      | (es, Ok _) \<Rightarrow> (case send_all E h ds w of (es', r) \<Rightarrow> (es @ es', r)))"

lemma send_all_bound: "length (fst (send_all E h ds w)) \<le> length ds"
proof (induction ds)
  case (Cons d ds)
  with one_effect [of E h d w] show ?case
    by (auto split: prod.splits sum.splits)
qed simp

lemma dead_send_all:
  assumes "env_ok E" and "\<not> is_live E h" and "ds \<noteq> []"
  shows "\<not> is_ok (snd (send_all E h ds w)) \<and> fst (send_all E h ds w) = []"
proof (cases ds)
  case (Cons d ds')
  have "\<not> is_ok (snd (send E h d w))" using assms(1,2) by (rule dead_send)
  moreover from this have "fst (send E h d w) = []" by (rule failed_send)
  ultimately show ?thesis using Cons
    by (cases "send E h d w"; cases "snd (send E h d w)") auto
qed (use assms in simp)

text \<open>Dropping any number of leases keeps the invariant, whatever the order.\<close>

lemma close_all_inv: "inv w \<Longrightarrow> inv (fold (\<lambda>h w. fst (close E h w)) hs w)"
  by (induction hs arbitrary: w) (simp_all add: close_inv)

end

end
