(* ===== verification/Network.thy ===== *)
theory Network
  imports Lease
begin

text \<open>
  \<open>src/service/net/network.rs\<close>: the private network. The state behind the mutex is a
  record of the three hash maps; each method is a function from the state it locks to the
  state it leaves, with the effects it has on channels and tasks. \<open>network_inv\<close> is what ties the
  three maps together; a second, abstract state has one table only, and the methods refine
  its steps.
\<close>

section \<open>State\<close>

text \<open>\<open>Duration::from_secs(24 * 60 * 60)\<close>, in nanoseconds.\<close>

definition ASSIGNMENT_TTL :: nat where "ASSIGNMENT_TTL = 24 * 60 * 60 * 1000000000"

record assignment =
  passcode :: passcode
  binds :: nat
  touched :: instant

record network_state =
  by_address :: "(ipv6, assignment) hmap"
  by_passcode :: "(passcode, ipv6) hmap"
  routes :: "(route_key, chan) hmap"

definition network_new :: network_state where
  "network_new = \<lparr>by_address = hm_empty, by_passcode = hm_empty, routes = hm_empty\<rparr>"

section \<open>Assignments\<close>

definition stale :: "instant \<Rightarrow> assignment \<Rightarrow> bool" where
  "stale now a = (binds a = 0 \<and> now - touched a \<ge> ASSIGNMENT_TTL)"

definition expire :: "instant \<Rightarrow> network_state \<Rightarrow> network_state" where
  "expire now s =
     (let stales = map (\<lambda>(address, a). (address, passcode a))
                    (filter (\<lambda>(_, a). stale now a) (hm_iter (by_address s)))
      in fold (\<lambda>(address, pc) s. s\<lparr>by_address := hm_remove address (by_address s),
                                    by_passcode := hm_remove pc (by_passcode s)\<rparr>) stales s)"

text \<open>\<open>None\<close>: the loop draws for ever, or the generator panics.\<close>

partial_function (option) assign_loop ::
  "'r rng_api \<Rightarrow> instant \<Rightarrow> 'r \<Rightarrow> network_state \<Rightarrow> ((ipv6 \<times> passcode) \<times> 'r \<times> network_state) option" where
  "assign_loop G now r s =
     (case random_address G r of None \<Rightarrow> None
      | Some (address, r1) \<Rightarrow>
          (case passcode_new G r1 of None \<Rightarrow> None
           | Some (pc, r2) \<Rightarrow>
               if hm_get (by_address s) address \<noteq> None \<or> hm_get (by_passcode s) pc \<noteq> None
               then assign_loop G now r2 s
               else Some ((address, pc), r2,
                      s\<lparr>by_address := hm_insert address \<lparr>passcode = pc, binds = 0, touched = now\<rparr> (by_address s),
                        by_passcode := hm_insert pc address (by_passcode s)\<rparr>)))"

definition network_assign ::
  "'r rng_api \<Rightarrow> env \<Rightarrow> 'r \<Rightarrow> network_state \<Rightarrow> ((ipv6 \<times> passcode) \<times> 'r \<times> network_state) option" where
  "network_assign G E r s = assign_loop G (clock2 E) r (expire (clock1 E) s)"

section \<open>Ports\<close>

record bind_handler =
  bind_key :: route_key
  bind_egress :: chan

text \<open>
  \<open>egress\<close> names the channel that \<open>unbounded_channel\<close> makes; the result is the handler the
  lease is built from.
\<close>

definition network_bind ::
  "env \<Rightarrow> passcode \<Rightarrow> u16 \<Rightarrow> chan \<Rightarrow> chan \<Rightarrow> network_state \<Rightarrow>
     network_state \<times> effect list \<times> bind_handler result" where
  "network_bind E pc port relay egress s =
     (if port = 0 then (s, [], Err (Bail ''Cannot bind port 0''))
      else case hm_get (by_passcode s) pc of
        None \<Rightarrow> (s, [], Err (Bail ''Unknown or expired passcode''))
      | Some address \<Rightarrow>
          (let key = (address, port) in
           if hm_get (routes s) key \<noteq> None
           then (s, [], Err (Bail (''Port '' @ show_dec (unat port) @ '' is already bound on '' @ show_ipv6 address)))
           else case hm_get (by_address s) address of
             None \<Rightarrow> (s, [], Err (Bail ''Assignment is missing''))
           | Some a \<Rightarrow>
               (s\<lparr>by_address := hm_insert address (a\<lparr>binds := binds a + 1, touched := clock1 E\<rparr>) (by_address s),
                  routes := hm_insert key relay (routes s)\<rparr>,
                [SpawnTranslate key egress relay],
                Ok \<lparr>bind_key = key, bind_egress = egress\<rparr>)))"

definition network_unbind :: "env \<Rightarrow> route_key \<Rightarrow> network_state \<Rightarrow> network_state" where
  "network_unbind E key s =
     (if hm_get (routes s) key = None then s
      else
        let s = s\<lparr>routes := hm_remove key (routes s)\<rparr> in
        case hm_get (by_address s) (fst key) of
          None \<Rightarrow> s
        | Some a \<Rightarrow>
            s\<lparr>by_address := hm_insert (fst key) (a\<lparr>binds := binds a - 1, touched := clock1 E\<rparr>) (by_address s)\<rparr>)"

definition network_deliver ::
  "buf_api \<Rightarrow> env \<Rightarrow> route_key \<Rightarrow> route_key \<Rightarrow> bytes \<Rightarrow> network_state \<Rightarrow> effect list \<times> unit result" where
  "network_deliver B E frm to d s =
     (case frame_encode B (frame_new (fst frm) (snd frm) d) of
        Inl e \<Rightarrow> ([], Err e)
      | Inr out \<Rightarrow>
          (case hm_get (routes s) to of
             None \<Rightarrow> ([], Ok ())
           | Some relay \<Rightarrow> (fst (chan_send E relay out), Ok ())))"

section \<open>The handler of a bound port\<close>

definition bind_send ::
  "buf_api \<Rightarrow> env \<Rightarrow> bind_handler \<Rightarrow> bytes \<Rightarrow> network_state \<Rightarrow> effect list \<times> unit result" where
  "bind_send B E h d s =
     (case frame_decode B d of
        Inl e \<Rightarrow> ([], Err (Context ''Bad frame from client'' e))
      | Inr f \<Rightarrow>
          (let peer = frame_peer f in
           case sock_ip peer of
             V6 v6 \<Rightarrow>
               if is_network_address v6
               then network_deliver B E (bind_key h) (v6, sock_port peer) (frame_data f) s
               else egress_send E (bind_egress h) peer (frame_data f)
           | V4 _ \<Rightarrow> egress_send E (bind_egress h) peer (frame_data f)))"

definition bind_close :: "env \<Rightarrow> bind_handler \<Rightarrow> network_state \<Rightarrow> network_state \<times> unit result" where
  "bind_close E h s = (network_unbind E (bind_key h) s, Ok ())"

definition bind_is_live :: "env \<Rightarrow> bind_handler \<Rightarrow> bool" where
  "bind_is_live E h = True"

section \<open>The invariant\<close>

text \<open>The ports bound on an address, read off the routes.\<close>

definition bound_ports :: "network_state \<Rightarrow> ipv6 \<Rightarrow> u16 set" where
  "bound_ports s a = {p. hm_get (routes s) (a, p) \<noteq> None}"

text \<open>
  The two tables of assignments are inverse to each other, each assignment counts the
  routes on its address, no route is without an assignment, and the addresses handed out
  are network addresses other than the proxy's own.
\<close>

definition tables_inverse :: "network_state \<Rightarrow> bool" where
  "tables_inverse s =
     (\<forall>pc a. hm_get (by_passcode s) pc = Some a \<longleftrightarrow>
        (\<exists>x. hm_get (by_address s) a = Some x \<and> passcode x = pc))"

definition assignment_ok :: "network_state \<Rightarrow> ipv6 \<Rightarrow> assignment \<Rightarrow> bool" where
  "assignment_ok s a x =
     (is_network_address a \<and> a \<noteq> PROXY_ADDRESS \<and> passcode_wf (passcode x) \<and> binds x = card (bound_ports s a))"

definition network_inv :: "network_state \<Rightarrow> bool" where
  "network_inv s =
     (hm_wf (by_address s) \<and> hm_wf (by_passcode s) \<and> hm_wf (routes s) \<and> tables_inverse s \<and>
      (\<forall>a x. hm_get (by_address s) a = Some x \<longrightarrow> assignment_ok s a x) \<and>
      (\<forall>a p r. hm_get (routes s) (a, p) = Some r \<longrightarrow> p \<noteq> 0 \<and> hm_get (by_address s) a \<noteq> None))"

lemma network_invI:
  assumes "hm_wf (by_address s)" "hm_wf (by_passcode s)" "hm_wf (routes s)" "tables_inverse s"
    and "\<And>a x. hm_get (by_address s) a = Some x \<Longrightarrow> assignment_ok s a x"
    and "\<And>a p r. hm_get (routes s) (a, p) = Some r \<Longrightarrow> p \<noteq> 0 \<and> hm_get (by_address s) a \<noteq> None"
  shows "network_inv s"
  using assms by (auto simp: network_inv_def)

lemma network_invD:
  assumes "network_inv s"
  shows "hm_wf (by_address s)" "hm_wf (by_passcode s)" "hm_wf (routes s)" "tables_inverse s"
    and "hm_get (by_address s) a = Some x \<Longrightarrow> assignment_ok s a x"
    and "hm_get (routes s) (a, p) = Some r \<Longrightarrow> p \<noteq> 0 \<and> hm_get (by_address s) a \<noteq> None"
  using assms unfolding network_inv_def by blast+

lemma tables_inverseD:
  "tables_inverse s \<Longrightarrow> hm_get (by_passcode s) pc = Some a \<longleftrightarrow>
     (\<exists>x. hm_get (by_address s) a = Some x \<and> passcode x = pc)"
  by (simp add: tables_inverse_def)

lemma network_inv_new: "network_inv network_new"
  by (simp add: network_inv_def network_new_def tables_inverse_def)

lemma bound_ports_cong: "routes s = routes t \<Longrightarrow> bound_ports s a = bound_ports t a"
  by (simp add: bound_ports_def)

lemma bound_ports_insert:
  "bound_ports (s\<lparr>routes := hm_insert (a, p) r (routes s)\<rparr>) a' =
     (if a' = a then insert p (bound_ports s a) else bound_ports s a')"
  by (auto simp: bound_ports_def)

lemma bound_ports_remove:
  "bound_ports (s\<lparr>routes := hm_remove (a, p) (routes s)\<rparr>) a' =
     (if a' = a then bound_ports s a - {p} else bound_ports s a')"
  by (auto simp: bound_ports_def)

section \<open>What the methods do to the maps\<close>

text \<open>The loop of \<open>expire\<close>, one map at a time.\<close>

lemma expire_fold:
  "fold (\<lambda>(address, pc) s. s\<lparr>by_address := hm_remove address (by_address s),
                               by_passcode := hm_remove pc (by_passcode s)\<rparr>) xs s =
   s\<lparr>by_address := fold (\<lambda>x. hm_remove (fst x)) xs (by_address s),
     by_passcode := fold (\<lambda>x. hm_remove (snd x)) xs (by_passcode s)\<rparr>"
  by (induction xs arbitrary: s) auto

definition stales :: "instant \<Rightarrow> network_state \<Rightarrow> (ipv6 \<times> passcode) list" where
  "stales now s = map (\<lambda>(address, a). (address, passcode a))
     (filter (\<lambda>(_, a). stale now a) (hm_iter (by_address s)))"

lemma expire_eq:
  "expire now s =
   s\<lparr>by_address := fold (\<lambda>x. hm_remove (fst x)) (stales now s) (by_address s),
     by_passcode := fold (\<lambda>x. hm_remove (snd x)) (stales now s) (by_passcode s)\<rparr>"
  by (simp add: expire_def Let_def expire_fold stales_def)

lemma stales_iff:
  "hm_wf (by_address s) \<Longrightarrow> (a, pc) \<in> set (stales now s) \<longleftrightarrow>
     (\<exists>x. hm_get (by_address s) a = Some x \<and> stale now x \<and> passcode x = pc)"
  by (force simp: stales_def hm.iter_get [symmetric])

lemma expire_routes [simp]: "routes (expire now s) = routes s"
  by (simp add: expire_eq)

lemma expire_by_address:
  assumes "hm_wf (by_address s)"
  shows "hm_get (by_address (expire now s)) a =
    (case hm_get (by_address s) a of None \<Rightarrow> None | Some x \<Rightarrow> if stale now x then None else Some x)"
proof -
  have "a \<in> fst ` set (stales now s) \<longleftrightarrow> (\<exists>x. hm_get (by_address s) a = Some x \<and> stale now x)"
    using stales_iff [OF assms, of a] by force
  then show ?thesis
    by (auto simp: expire_eq hm.get_remove_all split: option.split)
qed

lemma expire_by_passcode:
  assumes "hm_wf (by_address s)" and "tables_inverse s"
  shows "hm_get (by_passcode (expire now s)) pc = Some a \<longleftrightarrow>
    (\<exists>x. hm_get (by_address s) a = Some x \<and> passcode x = pc \<and> \<not> stale now x)"
proof -
  have "pc \<in> snd ` set (stales now s) \<longleftrightarrow>
      (\<exists>a x. hm_get (by_address s) a = Some x \<and> stale now x \<and> passcode x = pc)"
    using stales_iff [OF assms(1), of _ pc] by force
  moreover have "a' = a" if "hm_get (by_address s) a' = Some x'" "passcode x' = pc"
    "hm_get (by_passcode s) pc = Some a" for a' x'
    using that tables_inverseD [OF assms(2), of pc a'] by simp
  ultimately have "hm_get (by_passcode (expire now s)) pc = Some a \<longleftrightarrow>
      hm_get (by_passcode s) pc = Some a \<and> \<not> (\<exists>x. hm_get (by_address s) a = Some x \<and> stale now x \<and> passcode x = pc)"
    by (simp add: expire_eq hm.get_remove_all) metis
  then show ?thesis using tables_inverseD [OF assms(2), of pc a] by fastforce
qed

lemma expire_inv:
  assumes inv: "network_inv s"
  shows "network_inv (expire now s)"
proof (rule network_invI)
  note wf = network_invD(1) [OF inv] and tab = network_invD(4) [OF inv]
  show "hm_wf (by_address (expire now s))" "hm_wf (by_passcode (expire now s))" "hm_wf (routes (expire now s))"
    using network_invD(1-3) [OF inv] by (simp_all add: expire_eq hm.wf_remove_all)
  show "tables_inverse (expire now s)"
    by (auto simp: tables_inverse_def expire_by_passcode [OF wf tab] expire_by_address [OF wf]
        split: option.splits if_splits)
  fix a x
  assume "hm_get (by_address (expire now s)) a = Some x"
  then have "hm_get (by_address s) a = Some x" by (auto simp: expire_by_address [OF wf] split: option.splits if_splits)
  from network_invD(5) [OF inv this] show "assignment_ok (expire now s) a x"
    by (simp add: assignment_ok_def bound_ports_def)
next
  fix a p r
  assume r: "hm_get (routes (expire now s)) (a, p) = Some r"
  with network_invD(6) [OF inv] obtain x where p: "p \<noteq> 0" and x: "hm_get (by_address s) a = Some x" by fastforce
  have "p \<in> bound_ports s a" using r by (simp add: bound_ports_def)
  then have "card (bound_ports s a) \<noteq> 0" using card_eq_0_iff [of "bound_ports s a"] by auto
  with network_invD(5) [OF inv x] have "\<not> stale now x" by (simp add: assignment_ok_def stale_def)
  with p x show "p \<noteq> 0 \<and> hm_get (by_address (expire now s)) a \<noteq> None"
    by (simp add: expire_by_address [OF network_invD(1) [OF inv]])
qed

text \<open>What the loop of \<open>assign\<close> returns, when it returns.\<close>

definition assigned :: "instant \<Rightarrow> ipv6 \<Rightarrow> passcode \<Rightarrow> network_state \<Rightarrow> network_state" where
  "assigned now a pc s =
     s\<lparr>by_address := hm_insert a \<lparr>passcode = pc, binds = 0, touched = now\<rparr> (by_address s),
       by_passcode := hm_insert pc a (by_passcode s)\<rparr>"

lemma assigned_simps [simp]:
  "by_address (assigned now a pc s) = hm_insert a \<lparr>passcode = pc, binds = 0, touched = now\<rparr> (by_address s)"
  "by_passcode (assigned now a pc s) = hm_insert pc a (by_passcode s)"
  "routes (assigned now a pc s) = routes s"
  by (simp_all add: assigned_def)

lemma assign_loop_Some:
  assumes "assign_loop G now r s = Some ((a, pc), r', s')"
  shows "is_network_address a \<and> a \<noteq> PROXY_ADDRESS \<and> passcode_wf pc \<and>
    hm_get (by_address s) a = None \<and> hm_get (by_passcode s) pc = None \<and> s' = assigned now a pc s"
proof -
  define P where "P = (\<lambda>(now :: instant) s ((a, pc), (r' :: 'a), s').
    is_network_address a \<and> a \<noteq> PROXY_ADDRESS \<and> passcode_wf pc \<and>
    hm_get (by_address s) a = None \<and> hm_get (by_passcode s) pc = None \<and> s' = assigned now a pc s)"
  have "P now s ((a, pc), r', s')"
  proof (rule assign_loop.raw_induct [where P = "\<lambda>G now r s x. P now s x", OF _ assms])
    fix f :: "'a rng_api \<Rightarrow> instant \<Rightarrow> 'a \<Rightarrow> network_state \<Rightarrow> ((ipv6 \<times> passcode) \<times> 'a \<times> network_state) option"
      and G now r s x
    assume IH: "\<And>G now r s x. f G now r s = Some x \<Longrightarrow> P now s x"
      and eq: "(case random_address G r of None \<Rightarrow> None
        | Some (address, r1) \<Rightarrow>
          (case passcode_new G r1 of None \<Rightarrow> None
           | Some (pc, r2) \<Rightarrow>
               if hm_get (by_address s) address \<noteq> None \<or> hm_get (by_passcode s) pc \<noteq> None
               then f G now r2 s
               else Some ((address, pc), r2,
                      s\<lparr>by_address := hm_insert address \<lparr>passcode = pc, binds = 0, touched = now\<rparr> (by_address s),
                        by_passcode := hm_insert pc address (by_passcode s)\<rparr>))) = Some x"
    from eq obtain a r1 where a: "random_address G r = Some (a, r1)"
      by (cases "random_address G r") auto
    with eq obtain pc r2 where pc: "passcode_new G r1 = Some (pc, r2)"
      by (cases "passcode_new G r1") auto
    show "P now s x"
    proof (cases "hm_get (by_address s) a \<noteq> None \<or> hm_get (by_passcode s) pc \<noteq> None")
      case True
      with eq a pc have "f G now r2 s = Some x" by simp
      then show ?thesis by (rule IH)
    next
      case False
      with eq a pc have "x = ((a, pc), r2, assigned now a pc s)" by (simp add: assigned_def)
      with False random_address_network [OF a] passcode_new_wf [OF pc] show ?thesis
        by (simp add: P_def)
    qed
  qed
  then show ?thesis by (simp add: P_def)
qed

lemma assigned_inv:
  assumes inv: "network_inv s" and a: "is_network_address a" "a \<noteq> PROXY_ADDRESS" "passcode_wf pc"
    and new: "hm_get (by_address s) a = None" "hm_get (by_passcode s) pc = None"
  shows "network_inv (assigned now a pc s)"
proof (rule network_invI)
  note tab = network_invD(4) [OF inv]
  have ports: "bound_ports (assigned now a pc s) a' = bound_ports s a'" for a'
    by (rule bound_ports_cong) simp
  show "hm_wf (by_address (assigned now a pc s))" "hm_wf (by_passcode (assigned now a pc s))"
    "hm_wf (routes (assigned now a pc s))"
    using network_invD(1-3) [OF inv] by simp_all
  show "tables_inverse (assigned now a pc s)"
    using new tab by (auto simp: tables_inverse_def) (metis option.distinct(1))+
  have "bound_ports s a = {}"
    using network_invD(6) [OF inv, of a] new(1) unfolding bound_ports_def by blast
  then show "assignment_ok (assigned now a pc s) a' x" if "hm_get (by_address (assigned now a pc s)) a' = Some x" for a' x
    using that a network_invD(5) [OF inv, of a' x]
    by (auto simp: assignment_ok_def ports split: if_splits)
  show "p \<noteq> 0 \<and> hm_get (by_address (assigned now a pc s)) a' \<noteq> None"
    if "hm_get (routes (assigned now a pc s)) (a', p) = Some r" for a' p r
    using that network_invD(6) [OF inv, of a' p r] by auto
qed

lemma assign_inv:
  assumes "network_inv s" and "network_assign G E r s = Some ((a, pc), r', s')"
  shows "network_inv s'"
  using assign_loop_Some [OF assms(2) [unfolded network_assign_def]] expire_inv [OF assms(1)]
  by (auto intro: assigned_inv)

text \<open>A port that is bound, and one that is released.\<close>

definition bound :: "instant \<Rightarrow> route_key \<Rightarrow> chan \<Rightarrow> assignment \<Rightarrow> network_state \<Rightarrow> network_state" where
  "bound now key relay a s =
     s\<lparr>by_address := hm_insert (fst key) (a\<lparr>binds := binds a + 1, touched := now\<rparr>) (by_address s),
       routes := hm_insert key relay (routes s)\<rparr>"

lemma bound_simps [simp]:
  "by_address (bound now key relay x s) =
     hm_insert (fst key) (x\<lparr>binds := binds x + 1, touched := now\<rparr>) (by_address s)"
  "by_passcode (bound now key relay x s) = by_passcode s"
  "routes (bound now key relay x s) = hm_insert key relay (routes s)"
  by (simp_all add: bound_def)

text \<open>The branches of \<open>bind\<close>; with the invariant the fourth error cannot happen.\<close>

lemma bind_Ok:
  assumes "port \<noteq> 0" "hm_get (by_passcode s) pc = Some a" "hm_get (routes s) (a, port) = None"
    "hm_get (by_address s) a = Some x"
  shows "network_bind E pc port relay egress s =
    (bound (clock1 E) (a, port) relay x s, [SpawnTranslate (a, port) egress relay],
     Ok \<lparr>bind_key = (a, port), bind_egress = egress\<rparr>)"
  using assms by (simp add: network_bind_def bound_def Let_def)

lemma bind_cases [consumes 1, case_names ok zero unknown taken]:
  assumes inv: "network_inv s"
  obtains (ok) a x where "port \<noteq> 0" "hm_get (by_passcode s) pc = Some a"
      "hm_get (by_address s) a = Some x" "passcode x = pc" "hm_get (routes s) (a, port) = None"
      "network_bind E pc port relay egress s =
        (bound (clock1 E) (a, port) relay x s, [SpawnTranslate (a, port) egress relay],
         Ok \<lparr>bind_key = (a, port), bind_egress = egress\<rparr>)"
    | (zero) "port = 0" "network_bind E pc port relay egress s = (s, [], Err (Bail ''Cannot bind port 0''))"
    | (unknown) "port \<noteq> 0" "hm_get (by_passcode s) pc = None"
        "network_bind E pc port relay egress s = (s, [], Err (Bail ''Unknown or expired passcode''))"
    | (taken) a r where "port \<noteq> 0" "hm_get (by_passcode s) pc = Some a" "hm_get (routes s) (a, port) = Some r"
        "network_bind E pc port relay egress s = (s, [], Err (Bail (''Port '' @ show_dec (unat port) @
          '' is already bound on '' @ show_ipv6 a)))"
proof (cases "port = 0")
  case True
  then show thesis by (intro zero) (simp_all add: network_bind_def)
next
  case port: False
  show thesis
  proof (cases "hm_get (by_passcode s) pc")
    case None
    then show thesis using port by (intro unknown) (simp_all add: network_bind_def)
  next
    case (Some a)
    with tables_inverseD [OF network_invD(4) [OF inv], of pc a]
    obtain x where x: "hm_get (by_address s) a = Some x" "passcode x = pc" by auto
    show thesis
    proof (cases "hm_get (routes s) (a, port)")
      case None
      with Some port x show thesis by (intro ok bind_Ok)
    next
      case (Some r)
      with \<open>hm_get (by_passcode s) pc = Some a\<close> port show thesis
        by (intro taken) (simp_all add: network_bind_def Let_def)
    qed
  qed
qed

lemma bound_inv:
  assumes inv: "network_inv s" and p: "p \<noteq> 0" and x: "hm_get (by_address s) a = Some x"
    and free: "hm_get (routes s) (a, p) = None"
  shows "network_inv (bound now (a, p) relay x s)" (is "network_inv ?t")
proof (rule network_invI)
  have ports: "bound_ports ?t a' = (if a' = a then insert p (bound_ports s a) else bound_ports s a')" for a'
    by (auto simp: bound_ports_def)
  have "p \<notin> bound_ports s a" using free by (simp add: bound_ports_def)
  then have card: "card (insert p (bound_ports s a)) = Suc (card (bound_ports s a))" by simp
  show "hm_wf (by_address ?t)" "hm_wf (by_passcode ?t)" "hm_wf (routes ?t)"
    using network_invD(1-3) [OF inv] by simp_all
  show "tables_inverse ?t"
    using network_invD(4) [OF inv] x by (auto simp: tables_inverse_def)
  show "assignment_ok ?t a' y" if "hm_get (by_address ?t) a' = Some y" for a' y
    using that network_invD(5) [OF inv, of a' y] network_invD(5) [OF inv x] card
    by (auto simp: assignment_ok_def ports split: if_splits)
  show "q \<noteq> 0 \<and> hm_get (by_address ?t) a' \<noteq> None" if "hm_get (routes ?t) (a', q) = Some r" for a' q r
    using that p network_invD(6) [OF inv, of a' q r] by (auto split: if_splits)
qed

lemma bind_inv: "network_inv s \<Longrightarrow> network_inv (fst (network_bind E pc port relay egress s))"
  by (rule bind_cases [of s port pc E relay egress]) (auto intro: bound_inv)

lemma bind_inv_eq: "network_inv s \<Longrightarrow> network_bind E pc port relay egress s = (t, es, r) \<Longrightarrow> network_inv t"
  using bind_inv [of s E pc port relay egress] by simp

lemma unbind_None: "hm_get (routes s) key = None \<Longrightarrow> network_unbind E key s = s"
  by (simp add: network_unbind_def)

definition released :: "instant \<Rightarrow> route_key \<Rightarrow> assignment \<Rightarrow> network_state \<Rightarrow> network_state" where
  "released now key a s =
     s\<lparr>routes := hm_remove key (routes s),
       by_address := hm_insert (fst key) (a\<lparr>binds := binds a - 1, touched := now\<rparr>) (by_address s)\<rparr>"

lemma released_simps [simp]:
  "by_address (released now key x s) =
     hm_insert (fst key) (x\<lparr>binds := binds x - 1, touched := now\<rparr>) (by_address s)"
  "by_passcode (released now key x s) = by_passcode s"
  "routes (released now key x s) = hm_remove key (routes s)"
  by (simp_all add: released_def)

lemma unbind_Some:
  assumes "hm_get (routes s) key = Some r" "hm_get (by_address s) (fst key) = Some x"
  shows "network_unbind E key s = released (clock1 E) key x s"
  using assms by (simp add: network_unbind_def released_def)

lemma unbind_cases [consumes 1, case_names free held]:
  assumes inv: "network_inv s"
  obtains (free) "hm_get (routes s) (a, p) = None" "network_unbind E (a, p) s = s"
    | (held) r x where "hm_get (routes s) (a, p) = Some r" "hm_get (by_address s) a = Some x"
        "network_unbind E (a, p) s = released (clock1 E) (a, p) x s"
proof (cases "hm_get (routes s) (a, p)")
  case None
  then show thesis by (intro free unbind_None)
next
  case (Some r)
  with network_invD(6) [OF inv] obtain x where "hm_get (by_address s) a = Some x" by blast
  with Some show thesis using unbind_Some [of s "(a, p)" r x E] by (intro held) simp_all
qed

lemma released_inv:
  assumes inv: "network_inv s" and r: "hm_get (routes s) (a, p) = Some r"
    and x: "hm_get (by_address s) a = Some x"
  shows "network_inv (released now (a, p) x s)" (is "network_inv ?t")
proof (rule network_invI)
  have ports: "bound_ports ?t a' = (if a' = a then bound_ports s a - {p} else bound_ports s a')" for a'
    by (auto simp: bound_ports_def)
  have "p \<in> bound_ports s a" using r by (simp add: bound_ports_def)
  then have card: "card (bound_ports s a - {p}) = card (bound_ports s a) - 1" by simp
  show "hm_wf (by_address ?t)" "hm_wf (by_passcode ?t)" "hm_wf (routes ?t)"
    using network_invD(1-3) [OF inv] by simp_all
  show "tables_inverse ?t"
    using network_invD(4) [OF inv] x by (auto simp: tables_inverse_def)
  show "assignment_ok ?t a' y" if "hm_get (by_address ?t) a' = Some y" for a' y
    using that network_invD(5) [OF inv, of a' y] network_invD(5) [OF inv x] card
    by (auto simp: assignment_ok_def ports split: if_splits)
  show "q \<noteq> 0 \<and> hm_get (by_address ?t) a' \<noteq> None" if "hm_get (routes ?t) (a', q) = Some r" for a' q r
    using that network_invD(6) [OF inv, of a' q r] by (auto split: if_splits)
qed

lemma unbind_inv: "network_inv s \<Longrightarrow> network_inv (network_unbind E key s)"
  by (cases key; cases rule: unbind_cases [of s "fst key" "snd key" E]) (auto intro: released_inv)

lemma unbind_unbind: "network_unbind E' key (network_unbind E key s) = network_unbind E key s"
proof (cases "hm_get (routes s) key")
  case (Some r)
  have "hm_get (routes (network_unbind E key s)) key = None"
    by (simp add: network_unbind_def Let_def Some split: option.split)
  then show ?thesis by (rule unbind_None)
qed (simp add: unbind_None)

section \<open>The handler keeps the laws of leases\<close>

lemma deliver_facts:
  "\<not> is_ok (snd (network_deliver B E frm to d s)) \<Longrightarrow> fst (network_deliver B E frm to d s) = []"
  "length (fst (network_deliver B E frm to d s)) \<le> 1"
  by (auto simp: network_deliver_def chan_send_def split: sum.splits option.splits)

lemma egress_facts:
  "\<not> is_ok (snd (egress_send E c peer d)) \<Longrightarrow> fst (egress_send E c peer d) = []"
  "length (fst (egress_send E c peer d)) \<le> 1"
  by (auto simp: egress_send_def split: if_splits)

interpretation bind: lease_handler "bind_send B" bind_close bind_is_live network_inv for B
proof
  fix E E' h s d
  show "snd (bind_close E h s) = Ok ()" by (simp add: bind_close_def)
  show "network_inv s \<Longrightarrow> network_inv (fst (bind_close E h s))" by (simp add: bind_close_def unbind_inv)
  show "fst (bind_close E' h (fst (bind_close E h s))) = fst (bind_close E h s)"
    by (simp add: bind_close_def unbind_unbind)
  show "\<not> bind_is_live E h \<Longrightarrow> \<not> is_ok (snd (bind_send B E h d s))" by (simp add: bind_is_live_def)
  show "\<not> is_ok (snd (bind_send B E h d s)) \<Longrightarrow> fst (bind_send B E h d s) = []"
    by (auto simp: bind_send_def Let_def deliver_facts(1) egress_facts(1)
        split: sum.splits ip_addr.splits if_splits)
  show "length (fst (bind_send B E h d s)) \<le> 1"
    using deliver_facts(2) egress_facts(2)
    by (auto simp: bind_send_def Let_def split: sum.split ip_addr.split)
qed

section \<open>When the loop of \<open>assign\<close> returns\<close>

text \<open>One turn of the loop draws a pair; \<open>draw_nth k\<close> is the pair of turn \<open>k\<close>, whatever the maps hold.\<close>

definition draw_pair :: "'r rng_api \<Rightarrow> 'r \<Rightarrow> ((ipv6 \<times> passcode) \<times> 'r) option" where
  "draw_pair G r =
     (case random_address G r of None \<Rightarrow> None
      | Some (a, r1) \<Rightarrow> map_option (\<lambda>(pc, r2). ((a, pc), r2)) (passcode_new G r1))"

primrec draw_nth :: "'r rng_api \<Rightarrow> nat \<Rightarrow> 'r \<Rightarrow> ((ipv6 \<times> passcode) \<times> 'r) option" where
  "draw_nth G 0 r = draw_pair G r"
| "draw_nth G (Suc k) r = Option.bind (draw_pair G r) (\<lambda>(_, r'). draw_nth G k r')"

definition unused :: "network_state \<Rightarrow> ipv6 \<Rightarrow> passcode \<Rightarrow> bool" where
  "unused s a pc = (hm_get (by_address s) a = None \<and> hm_get (by_passcode s) pc = None)"

lemma assign_loop_draw:
  "assign_loop G now r s =
     (case draw_pair G r of None \<Rightarrow> None
      | Some ((a, pc), r') \<Rightarrow>
          if unused s a pc then Some ((a, pc), r', assigned now a pc s) else assign_loop G now r' s)"
  by (subst assign_loop.simps)
    (auto simp: draw_pair_def unused_def assigned_def split: option.split prod.split)

lemma assign_loop_returns:
  "draw_nth G k r = Some ((a, pc), r') \<Longrightarrow> unused s a pc \<Longrightarrow> \<exists>x. assign_loop G now r s = Some x"
proof (induction k arbitrary: r)
  case 0
  then show ?case by (subst assign_loop_draw) simp
next
  case (Suc k)
  then obtain a1 pc1 r1 where d: "draw_pair G r = Some ((a1, pc1), r1)" and n: "draw_nth G k r1 = Some ((a, pc), r')"
    by (auto simp: bind_eq_Some_conv)
  from Suc.IH [OF n Suc.prems(2)] d show ?case by (subst assign_loop_draw) simp
qed

lemma assign_loop_drawn:
  assumes "assign_loop G now r s = Some x"
  shows "\<exists>k a pc r'. draw_nth G k r = Some ((a, pc), r') \<and> unused s a pc"
proof (rule assign_loop.raw_induct
    [where P = "\<lambda>G now r s x. \<exists>k a pc r'. draw_nth G k r = Some ((a, pc), r') \<and> unused s a pc", OF _ assms])
  fix f :: "'a rng_api \<Rightarrow> instant \<Rightarrow> 'a \<Rightarrow> network_state \<Rightarrow> ((ipv6 \<times> passcode) \<times> 'a \<times> network_state) option"
    and G now r s x
  assume IH: "\<And>G now r s x. f G now r s = Some x \<Longrightarrow>
        \<exists>k a pc r'. draw_nth G k r = Some ((a, pc), r') \<and> unused s a pc"
    and eq: "(case random_address G r of None \<Rightarrow> None
      | Some (address, r1) \<Rightarrow>
          (case passcode_new G r1 of None \<Rightarrow> None
           | Some (pc, r2) \<Rightarrow>
               if hm_get (by_address s) address \<noteq> None \<or> hm_get (by_passcode s) pc \<noteq> None
               then f G now r2 s
               else Some ((address, pc), r2,
                      s\<lparr>by_address := hm_insert address \<lparr>passcode = pc, binds = 0, touched = now\<rparr> (by_address s),
                        by_passcode := hm_insert pc address (by_passcode s)\<rparr>))) = Some x"
  then obtain a r1 pc r2 where a: "random_address G r = Some (a, r1)" and pc: "passcode_new G r1 = Some (pc, r2)"
    by (cases "random_address G r"; cases "passcode_new G (snd (the (random_address G r)))") auto
  then have d: "draw_pair G r = Some ((a, pc), r2)" by (simp add: draw_pair_def)
  show "\<exists>k a pc r'. draw_nth G k r = Some ((a, pc), r') \<and> unused s a pc"
  proof (cases "unused s a pc")
    case True
    moreover have "draw_nth G 0 r = Some ((a, pc), r2)" using d by simp
    ultimately show ?thesis by blast
  next
    case False
    with eq a pc have "f G now r2 s = Some x" by (auto simp: unused_def split: if_splits)
    from IH [OF this] obtain k a' pc' r' where "draw_nth G k r2 = Some ((a', pc'), r')" "unused s a' pc'" by blast
    moreover from this d have "draw_nth G (Suc k) r = Some ((a', pc'), r')" by simp
    ultimately show ?thesis by blast
  qed
qed

section \<open>The steps of the network\<close>

text \<open>What the holder of the mutex does, with what a bystander sees of it as the label.\<close>

datatype net_label =
    LAssign ipv6 passcode instant instant
  | LBind route_key passcode chan instant
  | LRefuse error
  | LUnbind route_key instant

inductive net_op :: "'r rng_api \<Rightarrow> network_state \<Rightarrow> net_label \<Rightarrow> network_state \<Rightarrow> bool" for G where
  assign: "network_assign G E r s = Some ((a, pc), r', t) \<Longrightarrow>
     net_op G s (LAssign a pc (clock1 E) (clock2 E)) t"
| bind: "network_bind E pc port relay egress s = (t, es, Ok h) \<Longrightarrow>
     net_op G s (LBind (bind_key h) pc relay (clock1 E)) t"
| refuse: "network_bind E pc port relay egress s = (t, es, Err e) \<Longrightarrow> net_op G s (LRefuse e) t"
| unbind: "t = network_unbind E key s \<Longrightarrow> net_op G s (LUnbind key (clock1 E)) t"

inductive_cases net_opE: "net_op G s l t"

lemma net_op_inv: "network_inv s \<Longrightarrow> net_op G s l t \<Longrightarrow> network_inv t"
  by (erule net_opE) (auto intro: assign_inv bind_inv_eq unbind_inv)

interpretation net: invariant_system network_new "\<lambda>s t. \<exists>l. net_op G s l t" network_inv for G
  by unfold_locales (auto intro: network_inv_new net_op_inv)

text \<open>A refused bind leaves the state as it was.\<close>

lemma bind_Err_unchanged:
  "network_inv s \<Longrightarrow> network_bind E pc port relay egress s = (t, es, Err e) \<Longrightarrow> t = s \<and> es = []"
  by (cases rule: bind_cases [of s port pc E relay egress]) auto

lemma bind_Ok_state:
  assumes "network_inv s" and "network_bind E pc port relay egress s = (t, es, Ok h)"
  obtains a x where "port \<noteq> 0" "hm_get (by_passcode s) pc = Some a" "hm_get (by_address s) a = Some x"
    "passcode x = pc" "hm_get (routes s) (a, port) = None" "t = bound (clock1 E) (a, port) relay x s"
    "es = [SpawnTranslate (a, port) egress relay]" "h = \<lparr>bind_key = (a, port), bind_egress = egress\<rparr>"
  using assms by (cases rule: bind_cases [of s port pc E relay egress]) auto

section \<open>The abstract registry\<close>

text \<open>
  What the network promises, without its tables: who holds an address, which ports are
  bound on it and to which relay, and when it was last used.
\<close>

record holding =
  holder :: passcode
  ports :: "u16 \<rightharpoonup> chan"
  last_used :: instant

type_synonym registry = "ipv6 \<rightharpoonup> holding"

definition registry_of :: "network_state \<Rightarrow> registry" where
  "registry_of s a = map_option
     (\<lambda>x. \<lparr>holder = passcode x, ports = (\<lambda>p. hm_get (routes s) (a, p)), last_used = touched x\<rparr>)
     (hm_get (by_address s) a)"

definition registry_expire :: "instant \<Rightarrow> registry \<Rightarrow> registry" where
  "registry_expire now R = (\<lambda>a. case R a of None \<Rightarrow> None
     | Some c \<Rightarrow> if ports c = Map.empty \<and> now - last_used c \<ge> ASSIGNMENT_TTL then None else Some c)"

inductive registry_step :: "registry \<Rightarrow> net_label \<Rightarrow> registry \<Rightarrow> bool" where
  assign: "R' = registry_expire t1 R \<Longrightarrow> R' a = None \<Longrightarrow> \<forall>c \<in> ran R'. holder c \<noteq> pc \<Longrightarrow>
     is_network_address a \<Longrightarrow> a \<noteq> PROXY_ADDRESS \<Longrightarrow>
     registry_step R (LAssign a pc t1 t2) (R'(a \<mapsto> \<lparr>holder = pc, ports = Map.empty, last_used = t2\<rparr>))"
| bind: "R a = Some c \<Longrightarrow> holder c = pc \<Longrightarrow> p \<noteq> 0 \<Longrightarrow> ports c p = None \<Longrightarrow>
     registry_step R (LBind (a, p) pc relay now)
       (R(a \<mapsto> c\<lparr>ports := (ports c)(p \<mapsto> relay), last_used := now\<rparr>))"
| refuse: "registry_step R (LRefuse e) R"
| unbind: "R a = Some c \<Longrightarrow> ports c p \<noteq> None \<Longrightarrow>
     registry_step R (LUnbind (a, p) now) (R(a \<mapsto> c\<lparr>ports := (ports c)(p := None), last_used := now\<rparr>))"
| unbind_free: "\<forall>c. R a = Some c \<longrightarrow> ports c p = None \<Longrightarrow> registry_step R (LUnbind (a, p) now) R"

lemma bound_ports_empty: "bound_ports s a = {} \<longleftrightarrow> (\<lambda>p. hm_get (routes s) (a, p)) = Map.empty"
  by (auto simp: bound_ports_def fun_eq_iff)

lemma registry_of_expire:
  assumes inv: "network_inv s"
  shows "registry_of (expire now s) = registry_expire now (registry_of s)"
proof
  fix a
  have "binds x = 0 \<longleftrightarrow> (\<lambda>p. hm_get (routes s) (a, p)) = Map.empty" if "hm_get (by_address s) a = Some x" for x
    using network_invD(5) [OF inv that] by (simp add: assignment_ok_def bound_ports_empty)
  then show "registry_of (expire now s) a = registry_expire now (registry_of s) a"
    by (cases "hm_get (by_address s) a")
      (simp_all add: registry_of_def registry_expire_def expire_by_address [OF network_invD(1) [OF inv]] stale_def)
qed

lemma registry_of_assigned:
  assumes "network_inv s" "hm_get (by_address s) a = None"
  shows "registry_of (assigned now a pc s) =
    (registry_of s)(a \<mapsto> \<lparr>holder = pc, ports = Map.empty, last_used = now\<rparr>)"
proof -
  have "hm_get (routes s) (a, p) = None" for p
    using network_invD(6) [OF assms(1), of a p] assms(2) by (cases "hm_get (routes s) (a, p)") auto
  then show ?thesis by (auto simp: registry_of_def fun_eq_iff)
qed

lemma registry_of_bound:
  assumes "hm_get (by_address s) a = Some x"
  shows "registry_of (bound now (a, p) relay x s) =
    (registry_of s)(a \<mapsto> (the (registry_of s a))
       \<lparr>ports := (ports (the (registry_of s a)))(p \<mapsto> relay), last_used := now\<rparr>)"
  using assms by (auto simp: registry_of_def fun_eq_iff)

lemma registry_of_released:
  assumes "hm_get (by_address s) a = Some x"
  shows "registry_of (released now (a, p) x s) =
    (registry_of s)(a \<mapsto> (the (registry_of s a))
       \<lparr>ports := (ports (the (registry_of s a)))(p := None), last_used := now\<rparr>)"
  using assms by (auto simp: registry_of_def fun_eq_iff)

lemma registry_holders:
  assumes "network_inv s" "hm_get (by_passcode s) pc = None" "c \<in> ran (registry_of s)"
  shows "holder c \<noteq> pc"
proof -
  from assms(3) obtain a x where x: "hm_get (by_address s) a = Some x" and c: "holder c = passcode x"
    by (auto simp: ran_def registry_of_def)
  then have "hm_get (by_passcode s) (passcode x) = Some a"
    using tables_inverseD [OF network_invD(4) [OF assms(1)], of "passcode x" a] by simp
  with assms(2) c show ?thesis by auto
qed

lemma net_op_refines:
  assumes inv: "network_inv s" and op: "net_op G s l t"
  shows "registry_step (registry_of s) l (registry_of t)"
  using op
proof cases
  case (assign E r a pc r')
  let ?s = "expire (clock1 E) s"
  note a = assign_loop_Some [OF assign(2) [unfolded network_assign_def]] and inv' = expire_inv [OF inv, of "clock1 E"]
  then have "registry_of t = (registry_expire (clock1 E) (registry_of s))
      (a \<mapsto> \<lparr>holder = pc, ports = Map.empty, last_used = clock2 E\<rparr>)"
    using registry_of_assigned [OF inv', of a] by (simp add: registry_of_expire [OF inv])
  moreover have "registry_of ?s a = None" using a by (simp add: registry_of_def)
  moreover have "\<forall>c \<in> ran (registry_of ?s). holder c \<noteq> pc" using registry_holders [OF inv'] a by blast
  ultimately show ?thesis
    unfolding assign(1) using a
    by (simp only:) (rule registry_step.assign; simp add: registry_of_expire [OF inv])
next
  case (bind E pc port relay egress es h)
  from bind_Ok_state [OF inv bind(2)] obtain a x where x: "port \<noteq> 0" "hm_get (by_address s) a = Some x"
    "passcode x = pc" "hm_get (routes s) (a, port) = None" "t = bound (clock1 E) (a, port) relay x s"
    "h = \<lparr>bind_key = (a, port), bind_egress = egress\<rparr>" by metis
  define c where "c = \<lparr>holder = pc, ports = (\<lambda>p. hm_get (routes s) (a, p)), last_used = touched x\<rparr>"
  have c: "registry_of s a = Some c" using x by (simp add: registry_of_def c_def)
  have "registry_of t = (registry_of s)(a \<mapsto> c\<lparr>ports := (ports c)(port \<mapsto> relay), last_used := clock1 E\<rparr>)"
    using registry_of_bound [OF x(2)] x(5) c by simp
  moreover have "holder c = pc" "ports c port = None" using x by (simp_all add: c_def)
  ultimately show ?thesis
    unfolding bind(1) using x(1,6) registry_step.bind [of "registry_of s" a c pc port relay "clock1 E"] c by simp
next
  case (refuse E pc port relay egress es e)
  with bind_Err_unchanged [OF inv refuse(2)] show ?thesis by (auto intro: registry_step.refuse)
next
  case (unbind E key)
  obtain a p where key: "key = (a, p)" by (cases key)
  show ?thesis
    unfolding unbind key using inv
  proof (cases rule: unbind_cases [of s a p E])
    case free
    then show "registry_step (registry_of s) (LUnbind (a, p) (clock1 E)) (registry_of (network_unbind E (a, p) s))"
      by (auto simp: registry_of_def intro!: registry_step.unbind_free)
  next
    case (held r x)
    define c where "c = \<lparr>holder = passcode x, ports = (\<lambda>p. hm_get (routes s) (a, p)), last_used = touched x\<rparr>"
    have c: "registry_of s a = Some c" using held(2) by (simp add: registry_of_def c_def)
    have "ports c p \<noteq> None" using held(1) by (simp add: c_def)
    then show "registry_step (registry_of s) (LUnbind (a, p) (clock1 E)) (registry_of (network_unbind E (a, p) s))"
      using registry_step.unbind [of "registry_of s" a c p "clock1 E"] registry_of_released [OF held(2), of "clock1 E" p] c held(3)
      by simp
  qed
qed

section \<open>Lemmas behind the properties\<close>

lemma bind_result_iff:
  assumes "network_inv s"
  shows "is_ok (snd (snd (network_bind E pc port relay egress s))) \<longleftrightarrow>
    port \<noteq> 0 \<and> (\<exists>a. hm_get (by_passcode s) pc = Some a \<and> hm_get (routes s) (a, port) = None)"
  using assms by (cases rule: bind_cases [of s port pc E relay egress]) auto

lemma bind_refused:
  assumes "network_inv s" "\<not> is_ok (snd (snd (network_bind E pc port relay egress s)))"
  shows "fst (network_bind E pc port relay egress s) = s" "fst (snd (network_bind E pc port relay egress s)) = []"
    "snd (snd (network_bind E pc port relay egress s)) \<noteq> Err (Bail ''Assignment is missing'')"
  using assms by (cases rule: bind_cases [of s port pc E relay egress]; simp)+

lemma bind_after_assign:
  assumes inv: "network_inv s" and as: "network_assign G E r s = Some ((a, pc), r', t)" and p: "port \<noteq> 0"
  shows "snd (snd (network_bind E' pc port relay egress t)) = Ok \<lparr>bind_key = (a, port), bind_egress = egress\<rparr>"
proof -
  note a = assign_loop_Some [OF as [unfolded network_assign_def]] and inv' = expire_inv [OF inv, of "clock1 E"]
  then have "hm_get (routes t) (a, port) = None"
    using network_invD(6) [OF inv', of a port] by (cases "hm_get (routes t) (a, port)") auto
  with a p show ?thesis by (simp add: bind_Ok)
qed

lemma net_op_route_kept:
  assumes inv: "network_inv s" and op: "net_op G s l t" and r: "hm_get (routes s) key = Some relay"
    and l: "\<forall>now. l \<noteq> LUnbind key now"
  shows "hm_get (routes t) key = Some relay"
  using op
proof cases
  case (assign E r a pc r')
  from assign_loop_Some [OF assign(2) [unfolded network_assign_def]] r show ?thesis by simp
next
  case (bind E pc port relay' egress es h)
  from bind_Ok_state [OF inv bind(2)] r show ?thesis by (metis bound_simps(3) hm.get_insert_new option.distinct(1))
next
  case (refuse E pc port relay' egress es e)
  with bind_Err_unchanged [OF inv refuse(2)] r show ?thesis by simp
next
  case (unbind E key')
  obtain a p where key': "key' = (a, p)" by (cases key')
  with l unbind(1) have "key \<noteq> (a, p)" by auto
  with inv show ?thesis
    unfolding unbind(2) key' by (cases rule: unbind_cases [of s a p E]) (simp_all add: r)
qed

lemma binds_card: "network_inv s \<Longrightarrow> hm_get (by_address s) a = Some x \<Longrightarrow> binds x = card (bound_ports s a)"
  using network_invD(5) [of s a x] by (simp add: assignment_ok_def)

lemma bound_ports_card: "network_inv s \<Longrightarrow> card (bound_ports s a) \<le> 65535"
proof -
  assume inv: "network_inv s"
  have "bound_ports s a \<subseteq> UNIV - {0}"
    using network_invD(6) [OF inv, of a] by (auto simp: bound_ports_def)
  then have "card (bound_ports s a) \<le> card (UNIV - {0 :: u16})" by (intro card_mono) simp_all
  also have "\<dots> = 65535" by (simp add: card_Diff_singleton card_word)
  finally show ?thesis .
qed

lemma bind_close_restores:
  fixes E' :: env
  assumes inv: "network_inv s" and b: "network_bind E pc port relay egress s = (t, es, Ok h)"
  defines "u \<equiv> fst (bind_close E' h t)"
  shows "hm_get (routes u) = hm_get (routes s)" "hm_get (by_passcode u) = hm_get (by_passcode s)"
    "map_option binds (hm_get (by_address u) a) = map_option binds (hm_get (by_address s) a)"
proof -
  from bind_Ok_state [OF inv b] obtain a0 x where x: "hm_get (by_address s) a0 = Some x"
    and free: "hm_get (routes s) (a0, port) = None" and t: "t = bound (clock1 E) (a0, port) relay x s"
    and h: "h = \<lparr>bind_key = (a0, port), bind_egress = egress\<rparr>" by metis
  let ?y = "x\<lparr>binds := binds x + 1, touched := clock1 E\<rparr>"
  have "u = released (clock1 E') (a0, port) ?y t"
    using unbind_Some [of t "(a0, port)" relay ?y E'] by (simp add: u_def bind_close_def h t)
  with x free show "hm_get (routes u) = hm_get (routes s)" "hm_get (by_passcode u) = hm_get (by_passcode s)"
    "map_option binds (hm_get (by_address u) a) = map_option binds (hm_get (by_address s) a)"
    by (auto simp: t fun_eq_iff)
qed

text \<open>A datagram to the private network is delivered under the sender's own bound address.\<close>

lemma chan_send_fst: "fst (chan_send E c d) = (if send_ok E c then [Send c d] else [])"
  by (simp add: chan_send_def)

context buf
begin

lemma bind_send_network:
  assumes "frame_decode B d = Ok f" and "sock_ip (frame_peer f) = V6 v6" and "is_network_address v6"
  shows "bind_send B E h d s =
    ((case hm_get (routes s) (v6, sock_port (frame_peer f)) of None \<Rightarrow> []
      | Some relay \<Rightarrow> fst (chan_send E relay
          (frame_bytes (frame_new (fst (bind_key h)) (snd (bind_key h)) (frame_data f))))), Ok ())"
proof -
  have "length (frame_data f) \<le> 65535" using decode_Ok_bytes [OF assms(1)] by simp
  then show ?thesis
    using assms by (auto simp: bind_send_def network_deliver_def encode_eq frame_new_def split: option.split)
qed

lemma bind_send_internet:
  assumes "frame_decode B d = Ok f" and "\<forall>v6. sock_ip (frame_peer f) = V6 v6 \<longrightarrow> \<not> is_network_address v6"
  shows "bind_send B E h d s = egress_send E (bind_egress h) (frame_peer f) (frame_data f)"
  using assms by (simp add: bind_send_def Let_def split: ip_addr.split)

end

section \<open>A concrete network\<close>

text \<open>For witnesses: the first assignment of the counting generator, and a port bound on it.\<close>

definition demo_address :: ipv6 where "demo_address = address_of_low 256"
definition demo_passcode :: passcode where "demo_passcode = Passcode ''BCDEFGHIJKLMNOPQ''"
definition demo_assigned :: network_state where
  "demo_assigned = assigned 0 demo_address demo_passcode network_new"
definition demo_assignment :: assignment where
  "demo_assignment = \<lparr>passcode = demo_passcode, binds = 0, touched = 0\<rparr>"
definition demo_bound :: network_state where
  "demo_bound = bound 0 (demo_address, 80) 1 demo_assignment demo_assigned"

lemma demo_get [simp]:
  "hm_get (by_address demo_assigned) demo_address = Some demo_assignment"
  "hm_get (by_passcode demo_assigned) demo_passcode = Some demo_address"
  "hm_get (routes demo_assigned) k = None"
  "hm_get (routes demo_bound) k = (if k = (demo_address, 80) then Some 1 else None)"
  by (simp_all add: demo_assigned_def demo_assignment_def demo_bound_def) (simp_all add: network_new_def)

lemma expire_new [simp]: "expire now network_new = network_new"
  by (simp add: expire_def network_new_def hm_eval)

lemma demo_assign:
  "network_assign counter_rng env_up 0 network_new = Some ((demo_address, demo_passcode), 17, demo_assigned)"
proof -
  have "draw_pair counter_rng 0 = Some ((demo_address, demo_passcode), 17)"
    by (simp add: draw_pair_def counter_address counter_passcode [unfolded One_nat_def] counter_passcode
        demo_address_def demo_passcode_def)
  moreover have "unused network_new a pc" for a pc by (simp add: unused_def network_new_def)
  ultimately show ?thesis
    by (simp add: network_assign_def assign_loop_draw [of _ _ 0] demo_assigned_def)
qed

lemma demo_bind:
  "network_bind env_up demo_passcode 80 1 2 demo_assigned =
     (demo_bound, [SpawnTranslate (demo_address, 80) 2 1], Ok \<lparr>bind_key = (demo_address, 80), bind_egress = 2\<rparr>)"
  by (simp add: bind_Ok demo_bound_def)

lemma demo_assigned_inv: "network_inv demo_assigned"
  by (rule assign_inv [OF network_inv_new demo_assign])

lemma demo_bound_inv: "network_inv demo_bound"
  by (rule bind_inv_eq [OF demo_assigned_inv demo_bind])

lemma demo_steps: "(\<lambda>s t. \<exists>l. net_op counter_rng s l t)\<^sup>*\<^sup>* network_new demo_assigned"
  using net_op.assign [OF demo_assign] by (intro r_into_rtranclp) blast

section \<open>Properties\<close>

text \<open>C9. Whatever sequence of assignments, binds and unbinds the network has been through, the next
  one is a step of the abstract registry, which knows only who holds an address, what is
  bound on it and when it was last used; and the tables stay consistent.\<close>

theorem network_refines_registry:
  assumes "(\<lambda>s t. \<exists>l. net_op G s l t)\<^sup>*\<^sup>* network_new s" and "net_op G s l t"
  shows "registry_step (registry_of s) l (registry_of t) \<and> network_inv t"
  using net.reachable_inv [OF assms(1)] assms(2) by (blast intro: net_op_refines net_op_inv)

theorem network_refines_registry_witness:
  "registry_step (registry_of demo_assigned) (LBind (demo_address, 80) demo_passcode 1 0) (registry_of demo_bound)"
  using network_refines_registry [OF demo_steps net_op.bind [OF demo_bind]] by simp

text \<open>C26. \<open>bind\<close> succeeds exactly for a port other than 0 that is free on the address its passcode was
  issued for. Then the route leads to the caller's relay, nothing else changes in the routes, and one
  translation task is started. Otherwise nothing changes at all, and the tables being inverse
  to each other, the error is never the one for a missing assignment.\<close>

theorem bind_outcome:
  assumes "network_inv s" and "network_bind E pc port relay egress s = (t, es, r)"
  shows "if port \<noteq> 0 \<and> (\<exists>a. hm_get (by_passcode s) pc = Some a \<and> hm_get (routes s) (a, port) = None)
    then \<exists>a. hm_get (by_passcode s) pc = Some a \<and> r = Ok \<lparr>bind_key = (a, port), bind_egress = egress\<rparr> \<and>
      hm_get (routes t) = (hm_get (routes s))((a, port) \<mapsto> relay) \<and> hm_get (by_passcode t) = hm_get (by_passcode s) \<and>
      es = [SpawnTranslate (a, port) egress relay]
    else t = s \<and> es = [] \<and> \<not> is_ok r \<and> r \<noteq> Err (Bail ''Assignment is missing'')"
  using assms(1)
  by (cases rule: bind_cases [of s port pc E relay egress]) (use assms(2) in \<open>auto intro!: ext\<close>)

theorem bind_outcome_witness:
  "hm_get (routes demo_bound) = (hm_get (routes demo_assigned))((demo_address, 80) \<mapsto> 1)"
  using bind_outcome [OF demo_assigned_inv demo_bind] by simp

text \<open>C23. A bound port cannot be taken over: no operation of the network but the release of that very
  port removes its route or makes it lead elsewhere.\<close>

theorem route_not_taken_over:
  assumes "network_inv s" and "net_op G s l t" and "hm_get (routes s) key = Some relay"
    and "\<forall>now. l \<noteq> LUnbind key now"
  shows "hm_get (routes t) key = Some relay"
  using assms by (rule net_op_route_kept)

theorem route_not_taken_over_witness:
  "hm_get (routes (network_unbind env_up (demo_address, 81) demo_bound)) (demo_address, 80) = Some 1"
  using route_not_taken_over [OF demo_bound_inv net_op.unbind [of _ env_up "(demo_address, 81)" _ counter_rng], OF refl,
      of "(demo_address, 80)" 1] by simp

text \<open>The address and passcode \<open>assign\<close> hands out were not in use: no assignment has that address
  or passcode after the expiry it begins with, no port is bound on the address, and the passcode is at
  once good for binding any port but 0 on it. Assignments that are not stale are kept.\<close>

theorem assign_fresh:
  assumes inv: "network_inv s" and as: "network_assign G E r s = Some ((a, pc), r', t)"
  shows "is_network_address a \<and> a \<noteq> PROXY_ADDRESS \<and> passcode_wf pc \<and>
    (\<forall>x. hm_get (by_address s) a = Some x \<longrightarrow> stale (clock1 E) x) \<and> bound_ports t a = {} \<and>
    (\<forall>p relay egress E'. p \<noteq> 0 \<longrightarrow> snd (snd (network_bind E' pc p relay egress t)) =
        Ok \<lparr>bind_key = (a, p), bind_egress = egress\<rparr>) \<and>
    (\<forall>b x. hm_get (by_address s) b = Some x \<and> \<not> stale (clock1 E) x \<longrightarrow>
        b \<noteq> a \<and> passcode x \<noteq> pc \<and> hm_get (by_address t) b = Some x)"
proof -
  note new = assign_loop_Some [OF as [unfolded network_assign_def]] and inv' = expire_inv [OF inv, of "clock1 E"]
  note exp = expire_by_address [OF network_invD(1) [OF inv], of "clock1 E"]
  have kept: "b \<noteq> a \<and> passcode x \<noteq> pc \<and> hm_get (by_address t) b = Some x"
    if x: "hm_get (by_address s) b = Some x" "\<not> stale (clock1 E) x" for b x
  proof -
    have b: "hm_get (by_address (expire (clock1 E) s)) b = Some x" using x by (simp add: exp)
    then have "hm_get (by_passcode (expire (clock1 E) s)) (passcode x) = Some b"
      using tables_inverseD [OF network_invD(4) [OF inv']] by blast
    with b new show ?thesis by auto
  qed
  have "bound_ports (expire (clock1 E) s) a = {}"
    using network_invD(6) [OF inv', of a] new unfolding bound_ports_def by blast
  then have "bound_ports t a = {}" using new by (simp add: bound_ports_def)
  moreover have "\<forall>x. hm_get (by_address s) a = Some x \<longrightarrow> stale (clock1 E) x" using kept by blast
  ultimately show ?thesis using new kept bind_after_assign [OF inv as] by blast
qed

theorem assign_fresh_witness:
  "is_network_address demo_address \<and> bound_ports demo_assigned demo_address = {}"
  using assign_fresh [OF network_inv_new demo_assign] by simp

text \<open>C38. \<open>assign\<close> returns exactly when one of the pairs of an address and a passcode that the generator
  goes on to draw is not in use; it does not loop for ever on any other account.\<close>

theorem assign_returns_iff:
  "(\<exists>x. network_assign G E r s = Some x) \<longleftrightarrow>
   (\<exists>k a pc r'. draw_nth G k r = Some ((a, pc), r') \<and> unused (expire (clock1 E) s) a pc)"
  unfolding network_assign_def using assign_loop_returns assign_loop_drawn by metis

text \<open>C29. Expiry forgets exactly the assignments with no port bound that were last used a day ago or more,
  in both tables, and touches no route.\<close>

theorem expire_exact:
  assumes inv: "network_inv s"
  shows "(hm_get (by_address (expire now s)) a = Some x \<longleftrightarrow> hm_get (by_address s) a = Some x \<and>
      (bound_ports s a \<noteq> {} \<or> now - touched x < 24 * 60 * 60 * 1000000000)) \<and>
    (hm_get (by_passcode (expire now s)) pc = Some a \<longleftrightarrow>
      (\<exists>x. hm_get (by_address (expire now s)) a = Some x \<and> passcode x = pc)) \<and>
    routes (expire now s) = routes s"
proof -
  have fin: "finite (bound_ports s a)" by simp
  have "stale now y \<longleftrightarrow> \<not> (bound_ports s a \<noteq> {} \<or> now - touched y < 24 * 60 * 60 * 1000000000)"
    if "hm_get (by_address s) a = Some y" for y
    using network_invD(5) [OF inv that] fin by (auto simp: assignment_ok_def stale_def ASSIGNMENT_TTL_def)
  then have "hm_get (by_address (expire now s)) a = Some x \<longleftrightarrow> hm_get (by_address s) a = Some x \<and>
      (bound_ports s a \<noteq> {} \<or> now - touched x < 24 * 60 * 60 * 1000000000)"
    by (auto simp: expire_by_address [OF network_invD(1) [OF inv]] split: option.split)
  then show ?thesis using tables_inverseD [OF network_invD(4) [OF expire_inv [OF inv]]] by simp
qed

theorem expire_exact_witness:
  "hm_get (by_address (expire (ASSIGNMENT_TTL - 1) demo_assigned)) demo_address = Some demo_assignment \<and>
   hm_get (by_address (expire ASSIGNMENT_TTL demo_assigned)) demo_address = None"
proof -
  have "bound_ports demo_assigned demo_address = {}" by (simp add: bound_ports_def)
  then show ?thesis
    using expire_exact [OF demo_assigned_inv, of "ASSIGNMENT_TTL - 1" demo_address demo_assignment]
      expire_exact [OF demo_assigned_inv, of ASSIGNMENT_TTL demo_address demo_assignment]
    by (simp add: demo_assignment_def ASSIGNMENT_TTL_def)
      (cases "hm_get (by_address (expire 86400000000000 demo_assigned)) demo_address";
        simp add: expire_by_address [OF network_invD(1) [OF demo_assigned_inv]] stale_def ASSIGNMENT_TTL_def
          demo_assignment_def)
qed

text \<open>C27. Dropping the lease of a bind undoes it: the routes, the passcodes and the number of ports
  counted for every address are what they were before the bind.\<close>

theorem bind_then_close:
  assumes "network_inv s" and "network_bind E pc port relay egress s = (t, es, Ok h)"
  shows "hm_get (routes (fst (bind_close E' h t))) = hm_get (routes s) \<and>
    hm_get (by_passcode (fst (bind_close E' h t))) = hm_get (by_passcode s) \<and>
    map_option binds (hm_get (by_address (fst (bind_close E' h t))) a) = map_option binds (hm_get (by_address s) a) \<and>
    fst (bind_close E'' h (fst (bind_close E' h t))) = fst (bind_close E' h t)"
  using bind_close_restores [OF assms] bind.close_close by blast

theorem bind_then_close_witness:
  "hm_get (routes (fst (bind_close env_up \<lparr>bind_key = (demo_address, 80), bind_egress = 2\<rparr> demo_bound))) =
   hm_get (routes demo_assigned)"
  using bind_then_close [OF demo_assigned_inv demo_bind] by blast

text \<open>C30. The counter of an assignment is exact, after whatever sequence of assignments, binds and unbinds: it is the number of
  ports bound on the address, at most 65535. A bind that succeeds finds it below that and adds one, so that it cannot overflow;
  the release of a bound port finds it above 0 and takes one off, so that it cannot underflow; and as long as a port is bound the
  assignment is never stale.\<close>

theorem binds_exact:
  assumes "(\<lambda>s t. \<exists>l. net_op G s l t)\<^sup>*\<^sup>* network_new s"
  shows "(\<forall>a x. hm_get (by_address s) a = Some x \<longrightarrow> binds x = card (bound_ports s a) \<and> binds x \<le> 65535) \<and>
    (\<forall>E pc port relay egress t es h. network_bind E pc port relay egress s = (t, es, Ok h) \<longrightarrow>
      (\<exists>x. hm_get (by_address s) (fst (bind_key h)) = Some x \<and> binds x < 65535 \<and>
         hm_get (by_address t) (fst (bind_key h)) = Some (x\<lparr>binds := binds x + 1, touched := clock1 E\<rparr>) \<and>
         card (bound_ports t (fst (bind_key h))) = binds x + 1)) \<and>
    (\<forall>E a p now. hm_get (routes s) (a, p) \<noteq> None \<longrightarrow>
      (\<exists>x. hm_get (by_address s) a = Some x \<and> 0 < binds x \<and> \<not> stale now x \<and>
         hm_get (by_address (network_unbind E (a, p) s)) a = Some (x\<lparr>binds := binds x - 1, touched := clock1 E\<rparr>) \<and>
         card (bound_ports (network_unbind E (a, p) s) a) = binds x - 1))"
proof (intro conjI allI impI)
  note inv = net.reachable_inv [OF assms]
  show exact: "binds x = card (bound_ports s a)" "binds x \<le> 65535" if "hm_get (by_address s) a = Some x" for a x
    using binds_card [OF inv that] bound_ports_card [OF inv, of a] by simp_all
  show "\<exists>x. hm_get (by_address s) (fst (bind_key h)) = Some x \<and> binds x < 65535 \<and>
         hm_get (by_address t) (fst (bind_key h)) = Some (x\<lparr>binds := binds x + 1, touched := clock1 E\<rparr>) \<and>
         card (bound_ports t (fst (bind_key h))) = binds x + 1"
    if b: "network_bind E pc port relay egress s = (t, es, Ok h)" for E pc port relay egress t es h
  proof -
    obtain a x where x: "hm_get (by_address s) a = Some x" "t = bound (clock1 E) (a, port) relay x s" "fst (bind_key h) = a"
      using bind_Ok_state [OF inv b] by (metis bind_handler.select_convs(1) fst_conv)
    note inv' = bind_inv_eq [OF inv b]
    have new: "hm_get (by_address t) a = Some (x\<lparr>binds := binds x + 1, touched := clock1 E\<rparr>)" by (simp add: x(2))
    from binds_card [OF inv' new] bound_ports_card [OF inv', of a] x new show ?thesis by simp
  qed
  show "\<exists>x. hm_get (by_address s) a = Some x \<and> 0 < binds x \<and> \<not> stale now x \<and>
         hm_get (by_address (network_unbind E (a, p) s)) a = Some (x\<lparr>binds := binds x - 1, touched := clock1 E\<rparr>) \<and>
         card (bound_ports (network_unbind E (a, p) s) a) = binds x - 1"
    if r: "hm_get (routes s) (a, p) \<noteq> None" for E a p now
  proof -
    obtain x where x: "hm_get (by_address s) a = Some x" "network_unbind E (a, p) s = released (clock1 E) (a, p) x s"
      using r by (cases rule: unbind_cases [OF inv, of a p E]) auto
    have "p \<in> bound_ports s a" using r by (simp add: bound_ports_def)
    then have pos: "0 < binds x" unfolding binds_card [OF inv x(1)] by (simp add: card_gt_0_iff) blast
    have new: "hm_get (by_address (network_unbind E (a, p) s)) a = Some (x\<lparr>binds := binds x - 1, touched := clock1 E\<rparr>)"
      by (simp add: x(2))
    from binds_card [OF unbind_inv [OF inv] new] x(1) pos new show ?thesis by (simp add: stale_def)
  qed
qed

theorem binds_exact_witness:
  "card (bound_ports demo_bound demo_address) = 1 \<and>
   hm_get (by_address (network_unbind env_up (demo_address, 80) demo_bound)) demo_address = Some (demo_assignment\<lparr>binds := 0, touched := 0\<rparr>)"
proof -
  have "(\<lambda>s t. \<exists>l. net_op counter_rng s l t)\<^sup>*\<^sup>* network_new demo_bound"
    using net_op.bind [OF demo_bind, of counter_rng] by (intro rtranclp.rtrancl_into_rtrancl [OF demo_steps]) blast
  note exact = binds_exact [OF this]
  have x: "hm_get (by_address demo_bound) demo_address = Some (demo_assignment\<lparr>binds := 1, touched := 0\<rparr>)"
    by (simp add: demo_bound_def demo_assignment_def)
  moreover have "hm_get (routes demo_bound) (demo_address, 80) \<noteq> None" by (simp add: demo_bound_def)
  with conjunct2 [OF conjunct2 [OF exact], rule_format, of demo_address 80 _ env_up] x
  have "hm_get (by_address (network_unbind env_up (demo_address, 80) demo_bound)) demo_address =
      Some (demo_assignment\<lparr>binds := 0, touched := 0\<rparr>)" by simp
  ultimately show ?thesis using conjunct1 [OF exact] by fastforce
qed

text \<open>For witnesses: the lease of the demo bind, and what a client sends on it.\<close>

definition demo_handler :: bind_handler where
  "demo_handler = \<lparr>bind_key = (demo_address, 80), bind_egress = 2\<rparr>"

definition demo_peer_frame :: "ipv6 \<Rightarrow> frame" where "demo_peer_frame a = frame_new a 80 [1, 2, 3]"

lemma demo_decode: "frame_decode be_buf (frame_bytes (demo_peer_frame a)) = Ok (demo_peer_frame a)"
  by (rule be.decode_frame_bytes) (simp add: demo_peer_frame_def frame_new_def)

lemma demo_internet:
  "\<not> is_network_address 1" "frame_peer (demo_peer_frame 1) = SockV6 1 80 0 0"
proof -
  have "to_ipv4_mapped 1 = None"
    by (simp add: to_ipv4_mapped_def mapped_prefix_def octets6_def be_bytes_numeral replicate_numeral)
  then show "frame_peer (demo_peer_frame 1) = SockV6 1 80 0 0"
    by (simp add: demo_peer_frame_def frame_peer_def frame_new_def)
  show "\<not> is_network_address 1"
    by (simp add: octets6_def be_bytes_numeral is_network_address_def segments_def PREFIX_def be_val_def)
qed

lemma network_not_mapped: "is_network_address a \<Longrightarrow> to_ipv4_mapped a = None"
proof (rule ccontr)
  assume n: "is_network_address a" and "to_ipv4_mapped a \<noteq> None"
  then obtain v where "a = to_ipv6_mapped v" by (auto simp: to_ipv4_mapped_Some)
  then have "octets6 a = mapped_prefix @ octets4 v" by (simp add: to_ipv6_mapped_def octets6_from_octets6)
  then have "segments a ! 0 = 0" by (simp add: segments_def mapped_prefix_def replicate_numeral be_val_def)
  with n show False by (simp add: is_network_address_def PREFIX_def)
qed

lemma frame_peer_network:
  "is_network_address (peer_ip f) \<Longrightarrow> frame_peer f = SockV6 (peer_ip f) (peer_port f) 0 0"
  by (simp add: frame_peer_def network_not_mapped)

text \<open>A datagram a client addresses to a bound port of the private network goes to the relay of that port
  and nowhere else, in a frame that reads back as coming from the sender's own bound address and
  port, whatever the sender wrote in its frame, with the data unchanged.\<close>

theorem deliver_from_own_address:
  assumes "buf B" and "frame_decode B d = Ok f" and "is_network_address (peer_ip f)"
    and "hm_get (routes s) (peer_ip f, peer_port f) = Some relay" and "send_ok E relay"
  shows "\<exists>out. bind_send B E h d s = ([Send relay out], Ok ()) \<and>
    frame_decode B out = Ok (frame_new (fst (bind_key h)) (snd (bind_key h)) (frame_data f))"
proof -
  have len: "length (frame_data f) \<le> 65535" using buf.decode_Ok_bytes [OF assms(1,2)] by simp
  have "sock_ip (frame_peer f) = V6 (peer_ip f)" by (simp add: frame_peer_network assms(3))
  from buf.bind_send_network [OF assms(1,2) this assms(3), of E h s]
  have "bind_send B E h d s =
      ([Send relay (frame_bytes (frame_new (fst (bind_key h)) (snd (bind_key h)) (frame_data f)))], Ok ())"
    using assms(4,5) by (simp add: frame_peer_network assms(3) chan_send_fst)
  with len buf.decode_frame_bytes [OF assms(1)] show ?thesis by (auto simp: frame_new_def)
qed

theorem deliver_from_own_address_witness:
  "\<exists>out. bind_send be_buf env_up demo_handler (frame_bytes (demo_peer_frame demo_address)) demo_bound =
    ([Send 1 out], Ok ()) \<and> frame_decode be_buf out = Ok (frame_new demo_address 80 [1, 2, 3])"
  using deliver_from_own_address [OF be.buf_axioms demo_decode [of demo_address], of demo_bound 1 env_up demo_handler]
  by (simp add: demo_peer_frame_def frame_new_def demo_handler_def) (simp add: demo_address_def)

text \<open>C40. A datagram for an address of the private network that nobody has bound is dropped: the send
  succeeds, nothing is relayed and nothing goes out to the internet.\<close>

theorem deliver_unbound:
  assumes "buf B" and "frame_decode B d = Ok f" and "is_network_address (peer_ip f)"
    and "hm_get (routes s) (peer_ip f, peer_port f) = None"
  shows "bind_send B E h d s = ([], Ok ())"
proof -
  have "sock_ip (frame_peer f) = V6 (peer_ip f)" by (simp add: frame_peer_network assms(3))
  from buf.bind_send_network [OF assms(1,2) this assms(3), of E h s] assms(4) show ?thesis
    by (simp add: frame_peer_network assms(3))
qed

theorem deliver_unbound_witness:
  "bind_send be_buf env_up demo_handler (frame_bytes (demo_peer_frame demo_address)) demo_assigned = ([], Ok ())"
  using deliver_unbound [OF be.buf_axioms demo_decode [of demo_address], of demo_assigned env_up demo_handler]
  by (simp add: demo_peer_frame_def frame_new_def) (simp add: demo_address_def)

text \<open>Only traffic for the internet leaves through the lease's own translator: what a bound port is given
  to send out is one datagram, addressed to the peer named in the client's frame, which is not
  on the private network, and is that frame's data.\<close>

theorem egress_only_internet:
  assumes "bind_send B E h d s = (es, r)" and "Egress c peer data \<in> set es"
  shows "es = [Egress (bind_egress h) peer data] \<and> c = bind_egress h \<and>
    (\<exists>f. frame_decode B d = Ok f \<and> peer = frame_peer f \<and> data = frame_data f \<and>
       (\<forall>v6. sock_ip peer = V6 v6 \<longrightarrow> \<not> is_network_address v6))"
  using assms
  by (auto simp: bind_send_def Let_def network_deliver_def egress_send_def chan_send_def
      split: sum.splits option.splits ip_addr.splits if_splits)

theorem egress_only_internet_witness:
  "bind_send be_buf env_up demo_handler (frame_bytes (demo_peer_frame 1)) demo_bound =
     ([Egress 2 (SockV6 1 80 0 0) [1, 2, 3]], Ok ()) \<and>
   (\<exists>f. frame_decode be_buf (frame_bytes (demo_peer_frame 1)) = Ok f \<and> frame_peer f = SockV6 1 80 0 0)"
proof -
  have eq: "bind_send be_buf env_up demo_handler (frame_bytes (demo_peer_frame 1)) demo_bound =
     ([Egress 2 (SockV6 1 80 0 0) [1, 2, 3]], Ok ())"
    using be.bind_send_internet [OF demo_decode [of 1], of env_up demo_handler demo_bound] demo_internet
    by (simp add: egress_send_def demo_handler_def) (simp add: demo_peer_frame_def frame_new_def)
  from egress_only_internet [OF this, of 2 "SockV6 1 80 0 0" "[1, 2, 3]"] show ?thesis by (auto simp: eq)
qed

end
