(* ===== verification/Dns_Proxy.thy ===== *)
theory Dns_Proxy
  imports Lease "HOL-Library.Multiset"
begin

text \<open>
  \<open>src/service/dnsproxy.rs\<close>: the resolver. \<open>tokio::net::lookup_host\<close> is a parameter, a
  function from a host name to the socket addresses found, or \<open>None\<close> for an error. The loop of
  \<open>run\<close> is a function of the messages that arrive, each with the environment of its moment.
\<close>

section \<open>Queries\<close>

datatype dns_filter = FilterV4 | FilterV6 | FilterAny

fun dns_accepts :: "dns_filter \<Rightarrow> ip_addr \<Rightarrow> bool" where
  "dns_accepts FilterV4 addr = is_ipv4 addr"
| "dns_accepts FilterV6 addr = is_ipv6 addr"
| "dns_accepts FilterAny addr = True"

definition MAX_RECORDS :: nat where "MAX_RECORDS = 4"
definition TAG_IPV4 :: u8 where "TAG_IPV4 = 4"
definition TAG_IPV6 :: u8 where "TAG_IPV6 = 6"

definition parse_query :: "bytes \<Rightarrow> (string \<times> dns_filter) result" where
  "parse_query raw =
     (if \<not> is_ascii raw then Err (Bail ''Non-ascii hostname'')
      else case split_whitespace (text_of raw) of
        [] \<Rightarrow> Err (Bail ''Empty DNS query'')
      | [hostname] \<Rightarrow> Err (Bail ''DNS query has no type'')
      | hostname # ty # rest \<Rightarrow>
          (let finish = (\<lambda>f. if rest = [] then Ok (hostname, f) else Err (Bail ''Trailing data in DNS query''))
           in if ty = ''A'' then finish FilterV4
              else if ty = ''AAAA'' then finish FilterV6
              else if ty = ''ANY'' then finish FilterAny
              else Err (Bail (''Unknown DNS query type '' @ [CHR 0x27] @ ty @ [CHR 0x27]))))"

section \<open>Replies\<close>

text \<open>Resolves a name to every address it has, without duplicates.\<close>

definition do_lookup :: "(string \<Rightarrow> socket_addr list option) \<Rightarrow> string \<Rightarrow> ip_addr list" where
  "do_lookup lookup hostname =
     (case lookup hostname of
        None \<Rightarrow> []
      | Some found \<Rightarrow>
          foldl (\<lambda>addrs addr. if sock_ip addr \<in> set addrs then addrs else addrs @ [sock_ip addr]) [] found)"

definition dns_selected :: "dns_filter \<Rightarrow> ip_addr list \<Rightarrow> ip_addr list" where
  "dns_selected f addrs =
     take MAX_RECORDS (filter (\<lambda>a. is_ipv6 a \<and> dns_accepts f a) addrs @
                       filter (\<lambda>a. is_ipv4 a \<and> dns_accepts f a) addrs)"

fun dns_record :: "ip_addr \<Rightarrow> bytes" where
  "dns_record (V4 v4) = TAG_IPV4 # octets4 v4"
| "dns_record (V6 v6) = TAG_IPV6 # octets6 v6"

definition dns_encode :: "dns_filter \<Rightarrow> ip_addr list \<Rightarrow> bytes" where
  "dns_encode f addrs =
     (let selected = dns_selected f addrs
      in word_of_nat (length selected) # concat (map dns_record selected))"

definition handle_query :: "(string \<Rightarrow> socket_addr list option) \<Rightarrow> bytes \<Rightarrow> bytes" where
  "handle_query lookup raw =
     (case parse_query raw of
        Inl _ \<Rightarrow> dns_encode FilterAny []
      | Inr (hostname, f) \<Rightarrow> dns_encode f (do_lookup lookup hostname))"

section \<open>The task and its lease\<close>

text \<open>
  \<open>run\<close>: the messages received, then \<open>None\<close> once every sender is gone. The result says
  whether the task is still waiting for more.
\<close>

datatype task_end = Waiting | Returned

fun dns_run ::
  "(string \<Rightarrow> socket_addr list option) \<Rightarrow> chan \<Rightarrow> (env \<times> bytes option) list \<Rightarrow> effect list \<times> task_end result" where
  "dns_run lookup relay [] = ([], Ok Waiting)"
| "dns_run lookup relay ((E, None) # evs) = ([], Ok Returned)"
| "dns_run lookup relay ((E, Some r) # evs) =
     (case chan_send E relay (handle_query lookup r) of
        (es, Inl e) \<Rightarrow> (es, Err e)
      | (es, Inr _) \<Rightarrow> (case dns_run lookup relay evs of (es', res) \<Rightarrow> (es @ es', res)))"

text \<open>The task of \<open>into_lease\<close>: after an error an empty message wakes the session up.\<close>

definition dns_task ::
  "(string \<Rightarrow> socket_addr list option) \<Rightarrow> chan \<Rightarrow> env \<Rightarrow> (env \<times> bytes option) list \<Rightarrow> effect list" where
  "dns_task lookup relay E evs =
     (case dns_run lookup relay evs of
        (es, Inr _) \<Rightarrow> es
      | (es, Inl _) \<Rightarrow> es @ fst (chan_send E relay []))"

record dns_lease =
  dns_transmit :: chan

text \<open>The resolver before it is started, with the relay it will give to its task.\<close>

record dns_proxy =
  dp_relay :: "chan option"

definition dns_proxy_new :: "chan \<Rightarrow> dns_proxy" where
  "dns_proxy_new relay = \<lparr>dp_relay = Some relay\<rparr>"

definition dns_into_lease :: "dns_proxy \<Rightarrow> chan \<Rightarrow> (effect list \<times> dns_lease) result" where
  "dns_into_lease p tx =
     and_then (ok_or (Panic ''called `Option::unwrap()` on a `None` value'') (dp_relay p))
       (\<lambda>relay. Ok ([SpawnDns tx relay], \<lparr>dns_transmit = tx\<rparr>))"

lemma dns_into_lease_new [simp]:
  "dns_into_lease (dns_proxy_new relay) tx = Ok ([SpawnDns tx relay], \<lparr>dns_transmit = tx\<rparr>)"
  by (simp add: dns_into_lease_def dns_proxy_new_def)

definition dns_send :: "env \<Rightarrow> dns_lease \<Rightarrow> bytes \<Rightarrow> 'w \<Rightarrow> effect list \<times> unit result" where
  "dns_send E h d w = chan_send E (dns_transmit h) d"

definition dns_close :: "env \<Rightarrow> dns_lease \<Rightarrow> 'w \<Rightarrow> 'w \<times> unit result" where
  "dns_close E h w = (w, Ok ())"

definition dns_is_live :: "env \<Rightarrow> dns_lease \<Rightarrow> bool" where
  "dns_is_live E h = (\<not> closed E (dns_transmit h))"

interpretation dns: lease_handler dns_send dns_close dns_is_live "\<lambda>_ :: 'w. True"
  by unfold_locales (auto simp: dns_send_def dns_close_def dns_is_live_def chan_send_def env_ok_def split: if_splits)

section \<open>What a client reads\<close>

text \<open>
  The reply as its documentation puts it, read back: a count, then as many records of a tag
  and an address.
\<close>

fun read_records :: "nat \<Rightarrow> bytes \<Rightarrow> ip_addr list option" where
  "read_records 0 [] = Some []"
| "read_records 0 (b # bs) = None"
| "read_records (Suc n) [] = None"
| "read_records (Suc n) (t # bs) =
     (if t = TAG_IPV4 \<and> 4 \<le> length bs
      then map_option ((#) (V4 (from_octets4 (take 4 bs)))) (read_records n (drop 4 bs))
      else if t = TAG_IPV6 \<and> 16 \<le> length bs
      then map_option ((#) (V6 (from_octets6 (take 16 bs)))) (read_records n (drop 16 bs))
      else None)"

fun read_reply :: "bytes \<Rightarrow> ip_addr list option" where
  "read_reply [] = None"
| "read_reply (n # bs) = read_records (unat n) bs"

lemma read_records_concat: "read_records (length as) (concat (map dns_record as)) = Some as"
proof (induction as)
  case (Cons a as)
  then show ?case by (cases a) (simp_all add: TAG_IPV4_def TAG_IPV6_def)
qed simp

lemma selected_length: "length (dns_selected f addrs) \<le> 4"
  by (simp add: dns_selected_def MAX_RECORDS_def)

lemma read_reply_encode: "read_reply (dns_encode f addrs) = Some (dns_selected f addrs)"
proof -
  have "unat (word_of_nat (length (dns_selected f addrs)) :: u8) = length (dns_selected f addrs)"
    using selected_length [of f addrs] by simp
  then show ?thesis by (simp add: dns_encode_def Let_def read_records_concat)
qed

lemma dns_record_length: "length (dns_record a) \<le> 17"
  by (cases a) simp_all

lemma concat_records_length: "length (concat (map dns_record as)) \<le> 17 * length as"
  by (induction as) (use dns_record_length in \<open>auto intro: add_mono\<close>)

lemma encode_length_bound: "0 < length (dns_encode f addrs) \<and> length (dns_encode f addrs) \<le> 69"
  using concat_records_length [of "dns_selected f addrs"] selected_length [of f addrs]
  by (simp add: dns_encode_def Let_def)

section \<open>The preferred order of addresses\<close>

text \<open>IPv6 comes before IPv4, and otherwise the order of the lookup is kept.\<close>

datatype preference = Prefer6 | Prefer4

instantiation preference :: linorder
begin

definition less_eq_preference :: "preference \<Rightarrow> preference \<Rightarrow> bool" where
  "less_eq_preference a b = (a = Prefer6 \<or> b = Prefer4)"

definition less_preference :: "preference \<Rightarrow> preference \<Rightarrow> bool" where
  "less_preference a b = (a = Prefer6 \<and> b = Prefer4)"

instance
proof
  fix a b c :: preference
  show "a < b \<longleftrightarrow> a \<le> b \<and> \<not> b \<le> a" "a \<le> a" "a \<le> b \<or> b \<le> a"
    by (cases a; cases b; simp add: less_eq_preference_def less_preference_def)+
  show "a \<le> b \<Longrightarrow> b \<le> c \<Longrightarrow> a \<le> c" "a \<le> b \<Longrightarrow> b \<le> a \<Longrightarrow> a = b"
    by (cases a; cases b; simp add: less_eq_preference_def)+
qed

end

definition preference_of :: "ip_addr \<Rightarrow> preference" where
  "preference_of a = (if is_ipv6 a then Prefer6 else Prefer4)"

lemma sort_preference:
  "sort_key preference_of xs = filter is_ipv6 xs @ filter is_ipv4 xs"
proof (rule properties_for_sort_key)
  show "mset (filter is_ipv6 xs @ filter is_ipv4 xs) = mset xs"
    by (induction xs) (simp_all add: is_ipv4_def)
  show "filter (\<lambda>x. preference_of k = preference_of x) (filter is_ipv6 xs @ filter is_ipv4 xs) =
      filter (\<lambda>x. preference_of k = preference_of x) xs" for k
    by (induction xs) (auto simp: preference_of_def is_ipv4_def)
  show "sorted (map preference_of (filter is_ipv6 xs @ filter is_ipv4 xs))"
  proof -
    have "sorted (map preference_of (filter is_ipv6 xs))" "sorted (map preference_of (filter is_ipv4 xs))"
      by (induction xs) (auto simp: preference_of_def is_ipv4_def less_eq_preference_def)
    then show ?thesis
      by (auto simp: sorted_append preference_of_def is_ipv4_def less_eq_preference_def)
  qed
qed

lemma selected_sorted:
  "dns_selected f addrs = take MAX_RECORDS (sort_key preference_of (filter (dns_accepts f) addrs))"
  by (simp add: dns_selected_def sort_preference filter_filter conj_commute)

section \<open>Lookups and queries\<close>

lemma foldl_new_eq:
  "foldl (\<lambda>as a. if k a \<in> set as then as else as @ [k a]) acc xs =
     acc @ rev (remdups (rev (filter (\<lambda>y. y \<notin> set acc) (map k xs))))"
proof (induction xs rule: rev_induct)
  case (snoc x xs)
  then show ?case by (auto simp: image_iff)
qed simp

text \<open>The first occurrence of each address, in the order found.\<close>

lemma do_lookup_found:
  "lookup hostname = Some found \<Longrightarrow> do_lookup lookup hostname = rev (remdups (rev (map sock_ip found)))"
  by (simp add: do_lookup_def foldl_new_eq)

lemma do_lookup_distinct: "distinct (do_lookup lookup hostname)"
  by (cases "lookup hostname") (simp_all add: do_lookup_found, simp add: do_lookup_def)

fun filter_token :: "dns_filter \<Rightarrow> string" where
  "filter_token FilterV4 = ''A''"
| "filter_token FilterV6 = ''AAAA''"
| "filter_token FilterAny = ''ANY''"

lemma parse_query_Ok:
  "parse_query raw = Ok (h, f) \<longleftrightarrow> is_ascii raw \<and> split_whitespace (text_of raw) = [h, filter_token f]"
proof (cases "split_whitespace (text_of raw)")
  case (Cons a as)
  show ?thesis
  proof (cases as)
    case (Cons b bs)
    with \<open>split_whitespace (text_of raw) = a # as\<close> show ?thesis
      by (cases f) (auto simp: parse_query_def Let_def)
  qed (use Cons in \<open>simp add: parse_query_def\<close>)
qed (simp add: parse_query_def)

lemma handle_query_reply:
  "read_reply (handle_query lookup raw) =
     Some (case parse_query raw of Inl _ \<Rightarrow> [] | Inr (h, f) \<Rightarrow> dns_selected f (do_lookup lookup h))"
  by (simp add: handle_query_def read_reply_encode dns_selected_def split: sum.split)

lemma handle_query_length: "0 < length (handle_query lookup raw) \<and> length (handle_query lookup raw) \<le> 69"
  using encode_length_bound by (simp add: handle_query_def split: sum.split)

text \<open>One reply for each query, in order, for as long as the relay takes them.\<close>

lemma dns_run_replies:
  "(\<forall>(E, q) \<in> set qs. send_ok E relay) \<Longrightarrow>
     dns_run lookup relay (map (\<lambda>(E, q). (E, Some q)) qs) =
       (map (\<lambda>(E, q). Send relay (handle_query lookup q)) qs, Ok Waiting)"
  by (induction qs) (auto simp: chan_send_def)

lemma dns_run_append:
  "dns_run lookup relay xs = (es, Ok Waiting) \<Longrightarrow>
     dns_run lookup relay (xs @ ys) =
       (case dns_run lookup relay ys of (es', r) \<Rightarrow> (es @ es', r))"
proof (induction lookup relay xs arbitrary: es rule: dns_run.induct)
  case (3 lookup relay E r evs)
  then show ?case by (cases "send_ok E relay") (auto simp: chan_send_def split: prod.splits)
qed (auto split: prod.splits)

text \<open>Whatever arrives, no reply is empty, so the only empty message is the wake-up call.\<close>

lemma dns_run_effects:
  "dns_run lookup relay evs = (es, r) \<Longrightarrow>
     \<forall>e \<in> set es. \<exists>q. e = Send relay (handle_query lookup q) \<and> handle_query lookup q \<noteq> []"
proof (induction lookup relay evs arbitrary: es r rule: dns_run.induct)
  case (3 lookup relay E q evs)
  have "handle_query lookup q \<noteq> []" using handle_query_length [of lookup q] by auto
  with 3 show ?case by (cases "send_ok E relay") (auto simp: chan_send_def split: prod.splits)
qed auto

section \<open>Properties\<close>

text \<open>For witnesses: a resolver that finds an IPv4 address twice and an IPv6 address.\<close>

definition demo_lookup :: "string \<Rightarrow> socket_addr list option" where
  "demo_lookup h = (if h = ''a'' then Some [SockV4 1 0, SockV4 1 0, SockV6 2 0 0 0] else None)"

text \<open>C32. Every query is answered, and the answer read back by its documented format, a count and that many tagged
  records, is the list of addresses selected for the query; none for a query that is malformed. It
  has between 1 and 69 bytes.\<close>

theorem dns_reply_roundtrip:
  "read_reply (handle_query lookup raw) =
     Some (case parse_query raw of Inl _ \<Rightarrow> [] | Inr (h, f) \<Rightarrow> dns_selected f (do_lookup lookup h)) \<and>
   0 < length (handle_query lookup raw) \<and> length (handle_query lookup raw) \<le> 69"
  using handle_query_reply handle_query_length by blast

text \<open>A query is accepted exactly if it is ASCII text of two words, a name and one of the types \<open>A\<close>,
  \<open>AAAA\<close> and \<open>ANY\<close>.\<close>

theorem dns_query_exact:
  "parse_query raw = Ok (h, f) \<longleftrightarrow> is_ascii raw \<and>
     split_whitespace (text_of raw) = [h, case f of FilterV4 \<Rightarrow> ''A'' | FilterV6 \<Rightarrow> ''AAAA'' | FilterAny \<Rightarrow> ''ANY'']"
  unfolding parse_query_Ok by (cases f) simp_all

text \<open>C33. The addresses of an answer are the first four of those the filter accepts in the preferred order:
  a stable sort that puts IPv6 first. The lookup gives each address once, in the order in
  which it was first found.\<close>

theorem dns_selection:
  assumes "lookup hostname = Some found"
  shows "dns_selected f (do_lookup lookup hostname) =
    take 4 (sort_key preference_of (filter (dns_accepts f) (rev (remdups (rev (map sock_ip found))))))"
  by (simp add: selected_sorted do_lookup_found [of lookup, OF assms] MAX_RECORDS_def)

theorem dns_selection_witness:
  "dns_selected FilterAny (do_lookup demo_lookup ''a'') = [V6 2, V4 1]"
proof -
  have f: "demo_lookup ''a'' = Some [SockV4 1 0, SockV4 1 0, SockV6 2 0 0 0]" by (simp add: demo_lookup_def)
  show ?thesis
    unfolding dns_selection [of demo_lookup, OF f] by (simp add: preference_of_def less_eq_preference_def)
qed

text \<open>The resolver answers each query it is sent once and in order, for as long as the client takes the
  answers.\<close>

theorem dns_answers_in_order:
  assumes "\<forall>(E, q) \<in> set qs. send_ok E relay"
  shows "dns_task lookup relay E0 (map (\<lambda>(E, q). (E, Some q)) qs) = map (\<lambda>(E, q). Send relay (handle_query lookup q)) qs"
  using dns_run_replies [OF assms] by (simp add: dns_task_def)

theorem dns_answers_in_order_witness:
  "dns_task demo_lookup 3 env_up [(env_up, Some [1]), (env_up, Some [2])] =
    [Send 3 (handle_query demo_lookup [1]), Send 3 (handle_query demo_lookup [2])]"
  using dns_answers_in_order [of "[(env_up, [1]), (env_up, [2])]" 3 demo_lookup env_up] by simp

end
