(* ===== verification/Connect_Proxy.thy ===== *)
theory Connect_Proxy
  imports Lease
begin

text \<open>
  \<open>src/service/connectproxy.rs\<close>: the HTTP CONNECT proxy. The loop of \<open>run\<close> takes one
  completed branch of \<open>select!\<close> at a time, as an event with what the calls on the TCP stream
  return. \<open>allowed\<close> is \<open>settings.http_proxy.allowed_hosts\<close>.
\<close>

section \<open>The request header\<close>

definition SUCCESS_REPLY :: bytes where
  "SUCCESS_REPLY =
     bytes_of (''HTTP/1.0 200 Connection Established'' @ [CHR 0x0D, CHR 0x0A] @
       ''Proxy-agent: Apache/2.4.41 (Ubuntu)'' @ [CHR 0x0D, CHR 0x0A, CHR 0x0D, CHR 0x0A])"

definition header_mark :: bytes where "header_mark = [13, 10, 13, 10]"

definition header_end :: "bytes \<Rightarrow> nat option" where
  "header_end b = position (\<lambda>w. w = header_mark) (windows 4 b)"

definition header_complete :: "bytes \<Rightarrow> bool" where
  "header_complete b = (header_end b \<noteq> None)"

record connect_header =
  connect_host :: string
  connect_port :: u16

definition parse_header :: "bytes \<Rightarrow> (connect_header \<times> bytes) result" where
  "parse_header b =
     (case header_end b of
        None \<Rightarrow> Err (Bail ''Invalid header'')
      | Some header_ending \<Rightarrow>
          (let header = take header_ending b; remainder = drop (header_ending + 4) b in
           if \<not> is_ascii header then Err (Bail ''Non-ascii in CONNECT header'')
           else case first_line (text_of header) of
             None \<Rightarrow> Err (Bail ''Missing line for CONNECT'')
           | Some firstline \<Rightarrow>
               (let tokens = split_ascii_whitespace firstline in
                if length tokens \<noteq> 3 \<or> tokens ! 0 \<noteq> ''CONNECT'' \<or> tokens ! 2 \<noteq> ''HTTP/1.1''
                then Err (Bail ''Invalid CONNECT line'')
                else
                  let hostport = split_on CHR '':'' (tokens ! 1) in
                  if length hostport \<noteq> 2 then Err (Bail ''Invalid CONNECT host and port'')
                  else case parse_u16 (hostport ! 1) of
                    None \<Rightarrow> Err (Context ''Invalid CONNECT port'' External)
                  | Some port \<Rightarrow>
                      Ok (\<lparr>connect_host = hostport ! 0, connect_port = port\<rparr>, remainder))))"

section \<open>The task\<close>

record connect_state =
  conn_buffer :: "bytes option"
  conn_read :: bool
  conn_write :: bool

definition connect_new :: connect_state where
  "connect_new = \<lparr>conn_buffer = Some [], conn_read = False, conn_write = False\<rparr>"

text \<open>
  \<open>FromRemote r\<close>: the read returned \<open>r\<close>, an error or some bytes (none at end of stream).
  \<open>FromClient r connects writes\<close>: the lease's channel yielded \<open>r\<close>; a connection attempted
  for it succeeds if \<open>connects\<close>, a write if \<open>writes\<close>.
\<close>

datatype connect_event =
    FromRemote "bytes option"
  | FromClient "bytes option" bool bool

datatype connect_action =
    Connect string u16
  | Write bytes
  | ToClient effect

fun connect_enabled :: "connect_state \<Rightarrow> connect_event \<Rightarrow> bool" where
  "connect_enabled st (FromRemote _) = conn_read st"
| "connect_enabled st (FromClient _ _ _) = True"

definition relay_to_client :: "env \<Rightarrow> chan \<Rightarrow> bytes \<Rightarrow> connect_action list \<times> unit result" where
  "relay_to_client E relay d = (case chan_send E relay d of (es, r) \<Rightarrow> (map ToClient es, r))"

text \<open>The bytes that complete the header: connect, pass on what came with it, report success.\<close>

definition establish ::
  "string list \<Rightarrow> env \<Rightarrow> chan \<Rightarrow> connect_state \<Rightarrow> bytes \<Rightarrow> bool \<Rightarrow> bool \<Rightarrow>
     connect_action list \<times> connect_state option result" where
  "establish allowed E relay st b connects writes =
     (case parse_header b of
        Inl e \<Rightarrow> ([], Err e)
      | Inr (header, remainder) \<Rightarrow>
          if connect_host header \<notin> set allowed
          then ([], Err (Bail ''Host not allowed in CONNECT proxy''))
          else
            let conn = [Connect (connect_host header) (connect_port header)] in
            if \<not> connects then (conn, Err External)
            else if remainder \<noteq> [] \<and> \<not> writes then (conn, Err External)
            else
              let acts = conn @ (if remainder \<noteq> [] then [Write remainder] else []) in
              (case relay_to_client E relay SUCCESS_REPLY of
                 (es, Inl e) \<Rightarrow> (acts @ es, Err e)
               | (es, Inr _) \<Rightarrow>
                   (acts @ es, Ok (Some (st\<lparr>conn_buffer := None, conn_read := True, conn_write := True\<rparr>)))))"

fun connect_turn ::
  "string list \<Rightarrow> env \<Rightarrow> chan \<Rightarrow> connect_state \<Rightarrow> connect_event \<Rightarrow>
     connect_action list \<times> connect_state option result" where
  "connect_turn allowed E relay st (FromRemote None) = ([], Err External)"
| "connect_turn allowed E relay st (FromRemote (Some d)) =
     (if d = [] then ([], Ok None)
      else case relay_to_client E relay d of
        (es, Inl e) \<Rightarrow> (es, Err e)
      | (es, Inr _) \<Rightarrow> (es, Ok (Some st)))"
| "connect_turn allowed E relay st (FromClient None connects writes) = ([], Err (Bail ''Client disconnected''))"
| "connect_turn allowed E relay st (FromClient (Some d) connects writes) =
     (if conn_write st then (if writes then ([Write d], Ok (Some st)) else ([], Err External))
      else case conn_buffer st of
        None \<Rightarrow> ([], Ok (Some st))
      | Some b \<Rightarrow>
          (let b = b @ d in
           if header_complete b then establish allowed E relay (st\<lparr>conn_buffer := None\<rparr>) b connects writes
           else ([], Ok (Some (st\<lparr>conn_buffer := Some b\<rparr>)))))"

text \<open>\<open>None\<close>: not a run, as an event was not enabled or came after the end.\<close>

fun connect_run ::
  "string list \<Rightarrow> chan \<Rightarrow> connect_state \<Rightarrow> (env \<times> connect_event) list \<Rightarrow>
     (connect_action list \<times> connect_state option result) option" where
  "connect_run allowed relay st [] = Some ([], Ok (Some st))"
| "connect_run allowed relay st ((E, ev) # evs) =
     (if \<not> connect_enabled st ev then None
      else case connect_turn allowed E relay st ev of
        (as, Inr (Some st')) \<Rightarrow> map_option (\<lambda>(as', r). (as @ as', r)) (connect_run allowed relay st' evs)
      | (as, r) \<Rightarrow> if evs = [] then Some (as, r) else None)"

text \<open>The task of \<open>into_lease\<close>: an error ends with an empty message to the session.\<close>

definition connect_task ::
  "string list \<Rightarrow> chan \<Rightarrow> env \<Rightarrow> (env \<times> connect_event) list \<Rightarrow> connect_action list option" where
  "connect_task allowed relay E evs =
     map_option (\<lambda>(as, r). case r of Inl _ \<Rightarrow> as @ map ToClient (fst (chan_send E relay [])) | Inr _ \<Rightarrow> as)
       (connect_run allowed relay connect_new evs)"

section \<open>The lease\<close>

record connect_lease =
  connect_transmit :: chan

text \<open>The proxy before it is started, with the relay it will give to its task.\<close>

record connect_proxy =
  cp_relay :: "chan option"

definition connect_proxy_new :: "chan \<Rightarrow> connect_proxy" where
  "connect_proxy_new relay = \<lparr>cp_relay = Some relay\<rparr>"

definition connect_into_lease :: "connect_proxy \<Rightarrow> chan \<Rightarrow> (effect list \<times> connect_lease) result" where
  "connect_into_lease p tx =
     and_then (ok_or (Panic ''called `Option::unwrap()` on a `None` value'') (cp_relay p))
       (\<lambda>relay. Ok ([SpawnConnect tx relay], \<lparr>connect_transmit = tx\<rparr>))"

lemma connect_into_lease_new [simp]:
  "connect_into_lease (connect_proxy_new relay) tx = Ok ([SpawnConnect tx relay], \<lparr>connect_transmit = tx\<rparr>)"
  by (simp add: connect_into_lease_def connect_proxy_new_def)

definition connect_send :: "env \<Rightarrow> connect_lease \<Rightarrow> bytes \<Rightarrow> 'w \<Rightarrow> effect list \<times> unit result" where
  "connect_send E h d w = chan_send E (connect_transmit h) d"

definition connect_close :: "env \<Rightarrow> connect_lease \<Rightarrow> 'w \<Rightarrow> 'w \<times> unit result" where
  "connect_close E h w = (w, Ok ())"

definition connect_is_live :: "env \<Rightarrow> connect_lease \<Rightarrow> bool" where
  "connect_is_live E h = (\<not> closed E (connect_transmit h))"

interpretation connect: lease_handler connect_send connect_close connect_is_live "\<lambda>_ :: 'w. True"
  by unfold_locales
    (auto simp: connect_send_def connect_close_def connect_is_live_def chan_send_def env_ok_def split: if_splits)

section \<open>Where the header ends\<close>

lemma header_end_Some:
  "header_end b = Some i \<longleftrightarrow>
     i + 4 \<le> length b \<and> take 4 (drop i b) = header_mark \<and> (\<forall>j < i. take 4 (drop j b) \<noteq> header_mark)"
  by (auto simp: header_end_def position_Some nth_windows)

text \<open>More bytes do not move the end of a header.\<close>

lemma header_end_append: "header_end b = Some i \<Longrightarrow> header_end (b @ c) = Some i"
  by (auto simp: header_end_Some)

lemma header_complete_append: "header_complete b \<Longrightarrow> header_complete (b @ c)"
  by (auto simp: header_complete_def dest: header_end_append)

definition with_rest :: "bytes \<Rightarrow> (connect_header \<times> bytes) result \<Rightarrow> (connect_header \<times> bytes) result" where
  "with_rest c r = (case r of Inl e \<Rightarrow> Err e | Inr (h, rest) \<Rightarrow> Ok (h, rest @ c))"

lemma parse_header_append:
  assumes "header_complete b"
  shows "parse_header (b @ c) = with_rest c (parse_header b)"
proof -
  obtain i where i: "header_end b = Some i" using assms by (auto simp: header_complete_def)
  then have "i + 4 \<le> length b" by (simp add: header_end_Some)
  with i header_end_append [OF i, of c] show ?thesis
    by (simp add: parse_header_def with_rest_def Let_def split: option.split)
qed

lemma parse_header_complete: "parse_header b = Ok x \<Longrightarrow> header_complete b"
  by (auto simp: parse_header_def header_complete_def split: option.splits)

section \<open>What a run has done\<close>

fun written :: "connect_action list \<Rightarrow> bytes" where
  "written [] = []"
| "written (Write d # as) = d @ written as"
| "written (_ # as) = written as"

fun connections :: "connect_action list \<Rightarrow> (string \<times> u16) list" where
  "connections [] = []"
| "connections (Connect h p # as) = (h, p) # connections as"
| "connections (_ # as) = connections as"

fun to_client :: "connect_action list \<Rightarrow> effect list" where
  "to_client [] = []"
| "to_client (ToClient e # as) = e # to_client as"
| "to_client (_ # as) = to_client as"

lemma projections_append [simp]:
  "written (xs @ ys) = written xs @ written ys"
  "connections (xs @ ys) = connections xs @ connections ys"
  "to_client (xs @ ys) = to_client xs @ to_client ys"
proof -
  show "written (xs @ ys) = written xs @ written ys" by (induction xs rule: written.induct) auto
  show "connections (xs @ ys) = connections xs @ connections ys" by (induction xs rule: connections.induct) auto
  show "to_client (xs @ ys) = to_client xs @ to_client ys" by (induction xs rule: to_client.induct) auto
qed

lemma projections_relay [simp]:
  "written (map ToClient es) = []" "connections (map ToClient es) = []" "to_client (map ToClient es) = es"
  by (induction es) auto

lemma relay_to_client_cases:
  obtains (sent) "send_ok E relay" "relay_to_client E relay d = ([ToClient (Send relay d)], Ok ())"
    | (failed) "\<not> send_ok E relay" "relay_to_client E relay d = ([], Err External)"
  by (cases "send_ok E relay") (simp_all add: relay_to_client_def chan_send_def)

text \<open>Only hosts of the list are ever connected to, and one connection at most is attempted.\<close>

definition connect_inv :: "connect_state \<Rightarrow> bool" where
  "connect_inv st = ((conn_read st \<longleftrightarrow> conn_write st) \<and> (conn_write st \<longleftrightarrow> conn_buffer st = None) \<and>
     (\<forall>b. conn_buffer st = Some b \<longrightarrow> \<not> header_complete b))"

lemma header_complete_Nil: "\<not> header_complete []"
  by (simp add: header_complete_def header_end_def windows_def)

lemma connect_inv_new: "connect_inv connect_new"
  by (simp add: connect_inv_def connect_new_def header_complete_Nil)

lemma establish_facts:
  assumes "establish allowed E relay st b connects writes = (as, r)"
  shows "set (map fst (connections as)) \<subseteq> set allowed \<and> length (connections as) \<le> 1 \<and>
    (\<forall>st'. r = Ok (Some st') \<longrightarrow>
       connect_inv st' \<and> conn_write st' \<and> to_client as = [Send relay SUCCESS_REPLY]) \<and>
    (to_client as = [] \<or> to_client as = [Send relay SUCCESS_REPLY])"
  using assms
  by (cases rule: relay_to_client_cases [of E relay SUCCESS_REPLY])
    (auto simp: establish_def connect_inv_def Let_def split: sum.splits prod.splits if_splits)

lemma connect_turn_facts:
  assumes "connect_turn allowed E relay st ev = (as, r)" "connect_inv st" "connect_enabled st ev"
  shows "set (map fst (connections as)) \<subseteq> set allowed \<and>
    length (connections as) + (if conn_write st then 1 else 0) \<le> 1 \<and>
    (\<forall>st'. r = Ok (Some st') \<longrightarrow> connect_inv st' \<and>
       length (connections as) + (if conn_write st then 1 else 0) \<le> (if conn_write st' then 1 else (0::nat)))"
proof (cases "(allowed, E, relay, st, ev)" rule: connect_turn.cases)
  case (2 al E' rel st' d)
  with assms show ?thesis
    by (cases rule: relay_to_client_cases [of E relay d]) (auto split: if_splits)
next
  case (4 al E' rel st' d connects writes)
  show ?thesis
  proof (cases "conn_write st \<or> \<not> header_complete (the (conn_buffer st) @ d)")
    case True
    with 4 assms show ?thesis
      by (auto simp: connect_inv_def Let_def split: if_splits option.splits)
  next
    case False
    with 4 assms have "establish allowed E relay (st\<lparr>conn_buffer := None\<rparr>) (the (conn_buffer st) @ d) connects writes = (as, r)"
      by (auto simp: connect_inv_def Let_def split: option.splits)
    from establish_facts [OF this] False show ?thesis by auto
  qed
qed (use assms in auto)

lemma connect_run_facts:
  "connect_run allowed relay st evs = Some (as, r) \<Longrightarrow> connect_inv st \<Longrightarrow>
     set (map fst (connections as)) \<subseteq> set allowed \<and>
     length (connections as) + (if conn_write st then 1 else 0) \<le> 1"
proof (induction evs arbitrary: st as)
  case (Cons x evs)
  obtain E ev where x: "x = (E, ev)" by fastforce
  obtain as1 r1 where turn: "connect_turn allowed E relay st ev = (as1, r1)" by fastforce
  from Cons.prems(1) x have en: "connect_enabled st ev" by (auto split: if_splits)
  note facts = connect_turn_facts [OF turn Cons.prems(2) en]
  show ?case
  proof (cases "\<exists>st'. r1 = Ok (Some st')")
    case True
    then obtain st' where r1: "r1 = Ok (Some st')" by blast
    with Cons.prems x turn obtain as2 where as: "as = as1 @ as2" and run: "connect_run allowed relay st' evs = Some (as2, r)"
      by (auto split: if_splits)
    from Cons.IH [OF run] facts r1 have "set (map fst (connections as2)) \<subseteq> set allowed"
      "length (connections as2) + (if conn_write st' then 1 else 0) \<le> 1" by auto
    moreover from facts r1 have "set (map fst (connections as1)) \<subseteq> set allowed"
      "length (connections as1) + (if conn_write st then 1 else 0) \<le> (if conn_write st' then 1 else (0::nat))"
      by auto
    ultimately show ?thesis unfolding as by (simp del: set_map split: if_splits)
  next
    case False
    with Cons.prems(1) x turn have "as = as1" by (auto split: if_splits sum.splits option.splits)
    with facts show ?thesis by simp
  qed
qed (simp split: if_splits)

section \<open>The stream through an established connection\<close>

text \<open>
  A client's bytes, in whatever pieces they arrive, where every call succeeds.
\<close>

definition client_chunks :: "env \<Rightarrow> bytes list \<Rightarrow> (env \<times> connect_event) list" where
  "client_chunks E cs = map (\<lambda>c. (E, FromClient (Some c) True True)) cs"

lemma client_chunks_simps [simp]:
  "client_chunks E [] = []"
  "client_chunks E (c # cs) = (E, FromClient (Some c) True True) # client_chunks E cs"
  by (simp_all add: client_chunks_def)

lemma connected_writes:
  "conn_write st \<Longrightarrow> connect_run allowed relay st (client_chunks E cs) = Some (map Write cs, Ok (Some st))"
  by (induction cs) simp_all

lemma written_map_Write [simp]:
  "written (map Write cs) = concat cs" "connections (map Write cs) = []" "to_client (map Write cs) = []"
  by (induction cs) auto

lemma stream_from_buffer:
  assumes "send_ok E relay" and "connect_host h \<in> set allowed"
  shows "parse_header (b @ concat cs) = Ok (h, rest) \<Longrightarrow> \<not> header_complete b \<Longrightarrow>
    \<not> conn_write st \<Longrightarrow> conn_buffer st = Some b \<Longrightarrow>
    \<exists>as st'. connect_run allowed relay st (client_chunks E cs) = Some (as, Ok (Some st')) \<and>
      written as = rest \<and> connections as = [(connect_host h, connect_port h)] \<and>
      to_client as = [Send relay SUCCESS_REPLY]"
proof (induction cs arbitrary: b st)
  case Nil
  then show ?case by (auto dest: parse_header_complete)
next
  case (Cons c cs)
  show ?case
  proof (cases "header_complete (b @ c)")
    case False
    have "parse_header ((b @ c) @ concat cs) = Ok (h, rest)" using Cons.prems(1) by simp
    from Cons.IH [OF this False, of "st\<lparr>conn_buffer := Some (b @ c)\<rparr>"] False Cons.prems(3,4)
    show ?thesis by (auto simp: Let_def)
  next
    case True
    from Cons.prems(1) parse_header_append [OF True, of "concat cs"]
    obtain rest0 where p: "parse_header (b @ c) = Ok (h, rest0)" and rest: "rest = rest0 @ concat cs"
      by (auto simp: with_rest_def split: sum.splits prod.splits)
    let ?st = "st\<lparr>conn_buffer := None, conn_read := True, conn_write := True\<rparr>"
    have "connect_turn allowed E relay st (FromClient (Some c) True True) =
        ([Connect (connect_host h) (connect_port h)] @ (if rest0 \<noteq> [] then [Write rest0] else []) @
           [ToClient (Send relay SUCCESS_REPLY)], Ok (Some ?st))"
      using True Cons.prems(3,4) p assms
      by (simp add: Let_def establish_def relay_to_client_def chan_send_def)
    then show ?thesis
      using connected_writes [of ?st allowed relay E cs] rest by auto
  qed
qed

lemma stream_written:
  assumes "send_ok E relay" "connect_host h \<in> set allowed" "parse_header (concat cs) = Ok (h, rest)"
  shows "\<exists>as st'. connect_run allowed relay connect_new (client_chunks E cs) = Some (as, Ok (Some st')) \<and>
    written as = rest \<and> connections as = [(connect_host h, connect_port h)] \<and>
    to_client as = [Send relay SUCCESS_REPLY]"
  using stream_from_buffer [OF assms(1,2), of "[]" cs rest connect_new] assms(3)
  by (simp add: header_complete_Nil connect_new_def)

text \<open>
  Both directions at once: the client's messages and the remote's bytes in any order in which the
  events of the task can come, where every call succeeds.
\<close>

fun smooth :: "connect_event \<Rightarrow> bool" where
  "smooth (FromClient (Some _) connects writes) = (connects \<and> writes)"
| "smooth (FromRemote (Some d)) = (d \<noteq> [])"
| "smooth _ = False"

fun client_msgs :: "(env \<times> connect_event) list \<Rightarrow> bytes list" where
  "client_msgs [] = []"
| "client_msgs ((_, FromClient (Some d) _ _) # evs) = d # client_msgs evs"
| "client_msgs (_ # evs) = client_msgs evs"

fun remote_msgs :: "(env \<times> connect_event) list \<Rightarrow> bytes list" where
  "remote_msgs [] = []"
| "remote_msgs ((_, FromRemote (Some d)) # evs) = d # remote_msgs evs"
| "remote_msgs (_ # evs) = remote_msgs evs"

lemma smooth_cases:
  assumes "smooth ev"
  obtains (client) c where "ev = FromClient (Some c) True True" | (remote) d where "ev = FromRemote (Some d)" "d \<noteq> []"
  using assms by (cases ev rule: smooth.cases) auto

lemma tunnel_connected:
  assumes "\<forall>(E, ev) \<in> set evs. send_ok E relay \<and> smooth ev" and "conn_read st" and "conn_write st"
  shows "\<exists>as. connect_run allowed relay st evs = Some (as, Ok (Some st)) \<and> written as = concat (client_msgs evs) \<and>
    connections as = [] \<and> to_client as = map (Send relay) (remote_msgs evs)"
  using assms(1)
proof (induction evs)
  case (Cons x evs)
  obtain E ev where x: "x = (E, ev)" by fastforce
  from Cons obtain as where run: "connect_run allowed relay st evs = Some (as, Ok (Some st))"
    "written as = concat (client_msgs evs)" "connections as = []" "to_client as = map (Send relay) (remote_msgs evs)" by auto
  have "send_ok E relay" "smooth ev" using Cons.prems x by auto
  from this(2) show ?case
    by (cases rule: smooth_cases)
      (simp_all add: x run assms(2,3) relay_to_client_def chan_send_def \<open>send_ok E relay\<close>)
qed simp

lemma tunnel_from_buffer:
  assumes "connect_host h \<in> set allowed"
  shows "connect_run allowed relay st evs = Some (as, r) \<Longrightarrow> \<forall>(E, ev) \<in> set evs. send_ok E relay \<and> smooth ev \<Longrightarrow>
    parse_header (b @ concat (client_msgs evs)) = Ok (h, rest) \<Longrightarrow> \<not> header_complete b \<Longrightarrow>
    \<not> conn_read st \<Longrightarrow> \<not> conn_write st \<Longrightarrow> conn_buffer st = Some b \<Longrightarrow>
    (\<exists>st'. r = Ok (Some st')) \<and> written as = rest \<and> connections as = [(connect_host h, connect_port h)] \<and>
    to_client as = Send relay SUCCESS_REPLY # map (Send relay) (remote_msgs evs)"
proof (induction evs arbitrary: b st as)
  case Nil
  then show ?case by (auto dest: parse_header_complete)
next
  case (Cons x evs)
  obtain E ev where x: "x = (E, ev)" by fastforce
  have up: "send_ok E relay" and rest_up: "\<forall>(E, ev) \<in> set evs. send_ok E relay \<and> smooth ev"
    using Cons.prems(2) x by auto
  have "smooth ev" using Cons.prems(2) x by auto
  moreover have "ev \<noteq> FromRemote (Some d)" for d using Cons.prems(1,5) x by auto
  ultimately obtain c where ev: "ev = FromClient (Some c) True True" by (cases rule: smooth_cases) auto
  show ?case
  proof (cases "header_complete (b @ c)")
    case False
    let ?st = "st\<lparr>conn_buffer := Some (b @ c)\<rparr>"
    have "connect_turn allowed E relay st ev = ([], Ok (Some ?st))"
      using False Cons.prems(6,7) by (simp add: ev Let_def)
    then have "connect_run allowed relay ?st evs = Some (as, r)"
      using Cons.prems(1) by (auto simp: x ev simp del: connect_turn.simps)
    moreover have "parse_header ((b @ c) @ concat (client_msgs evs)) = Ok (h, rest)" using Cons.prems(3) by (simp add: x ev)
    ultimately show ?thesis
      using Cons.IH [of ?st as "b @ c"] rest_up False Cons.prems(5,6) by (simp add: x ev)
  next
    case True
    from Cons.prems(3) parse_header_append [OF True, of "concat (client_msgs evs)"]
    obtain rest0 where p: "parse_header (b @ c) = Ok (h, rest0)" and rest: "rest = rest0 @ concat (client_msgs evs)"
      by (auto simp: with_rest_def x ev split: sum.splits prod.splits)
    let ?st = "st\<lparr>conn_buffer := None, conn_read := True, conn_write := True\<rparr>"
    let ?as = "[Connect (connect_host h) (connect_port h)] @ (if rest0 \<noteq> [] then [Write rest0] else []) @
           [ToClient (Send relay SUCCESS_REPLY)]"
    have turn: "connect_turn allowed E relay st ev = (?as, Ok (Some ?st))"
      using True Cons.prems(6,7) p assms up
      by (simp add: ev Let_def establish_def relay_to_client_def chan_send_def)
    obtain as' where run: "connect_run allowed relay ?st evs = Some (as', Ok (Some ?st))"
      and as': "written as' = concat (client_msgs evs)" "connections as' = []" "to_client as' = map (Send relay) (remote_msgs evs)"
      using tunnel_connected [OF rest_up, of ?st allowed] by auto
    have "as = ?as @ as'" "r = Ok (Some ?st)" using Cons.prems(1) turn run by (simp_all add: x ev del: connect_turn.simps)
    then show ?thesis using as' rest by (simp add: x ev)
  qed
qed

lemma tunnel_run:
  assumes "connect_run allowed relay connect_new evs = Some (as, r)" and "\<forall>(E, ev) \<in> set evs. send_ok E relay \<and> smooth ev"
    and "connect_host h \<in> set allowed" and "parse_header (concat (client_msgs evs)) = Ok (h, rest)"
  shows "(\<exists>st'. r = Ok (Some st')) \<and> written as = rest \<and> connections as = [(connect_host h, connect_port h)] \<and>
    to_client as = Send relay SUCCESS_REPLY # map (Send relay) (remote_msgs evs)"
  using tunnel_from_buffer [OF assms(3,1,2), of "[]" rest] assms(4) by (simp add: connect_new_def header_complete_Nil)

section \<open>A request as clients write it\<close>

definition connect_request :: "string \<Rightarrow> u16 \<Rightarrow> bytes" where
  "connect_request host port =
     bytes_of (''CONNECT '' @ host @ '':'' @ show_dec (unat port) @ '' HTTP/1.1'') @ header_mark"

lemma header_end_mark:
  assumes "13 \<notin> set line"
  shows "header_end (line @ header_mark @ rest) = Some (length line)"
proof -
  have "take 4 (drop j (line @ header_mark @ rest)) \<noteq> header_mark" if "j < length line" for j
  proof
    assume eq: "take 4 (drop j (line @ header_mark @ rest)) = header_mark"
    have "(take 4 (drop j (line @ header_mark @ rest))) ! 0 = line ! j" using that by (simp add: nth_append)
    then have "line ! j = 13" unfolding eq by (simp add: header_mark_def)
    with that assms show False by (auto simp: in_set_conv_nth)
  qed
  then show ?thesis by (simp add: header_end_Some) (simp add: header_mark_def)
qed

lemma digit_not_colon: "CHR '':'' \<notin> set (show_dec n)"
proof
  assume "CHR '':'' \<in> set (show_dec n)"
  from show_radix_digits [OF _ _ this [unfolded show_dec_def]] obtain d where "d < 10" "CHR '':'' = digit_char d" by auto
  then have "(of_char (CHR '':'') :: nat) = 48 + d" using digit_char_code [of d] by simp
  with \<open>d < 10\<close> show False by simp
qed

lemma parse_connect_request:
  assumes host: "is_token is_whitespace host" "CHR '':'' \<notin> set host" "ascii_text host"
  shows "parse_header (connect_request host port @ rest) = Ok (\<lparr>connect_host = host, connect_port = port\<rparr>, rest)"
proof -
  let ?hp = "host @ CHR '':'' # show_dec (unat port)"
  let ?line = "''CONNECT'' @ CHR '' '' # ?hp @ CHR '' '' # ''HTTP/1.1''"
  have req: "connect_request host port @ rest = bytes_of ?line @ header_mark @ rest"
    by (simp add: connect_request_def)
  have nows: "\<not> is_whitespace c" if "c \<in> set host \<or> c \<in> set (show_dec (unat port))" for c
    using that host(1) show_dec_char [of c "unat port"] by (auto simp: is_token_def list_all_iff)
  then have token: "is_token is_ascii_whitespace ?hp"
    by (auto simp: is_token_def list_all_iff is_whitespace_def is_ascii_whitespace_def)
  have no_cr: "CHR 0x0D \<notin> set ?line" and no_lf: "CHR 0x0A \<notin> set ?line"
    using nows [of "CHR 0x0D"] nows [of "CHR 0x0A"] by (auto simp: is_whitespace_def)
  have "13 \<notin> set (bytes_of ?line)"
  proof
    assume "13 \<in> set (bytes_of ?line)"
    then obtain c where c: "c \<in> set ?line" "(13 :: byte) = word_of_nat (of_char c)"
      unfolding bytes_of_def set_map by (auto simp only: image_iff)
    have "of_char c = unat (13 :: byte)" unfolding c(2) by simp
    then have "(of_char c :: nat) = of_char (CHR 0x0D)" by simp
    then have "c = CHR 0x0D" by (simp only: of_char_eq_iff)
    with c no_cr show False by simp
  qed
  from header_end_mark [OF this, of rest] have fin: "header_end (connect_request host port @ rest) = Some (length ?line)"
    unfolding req by simp
  have head: "take (length ?line) (connect_request host port @ rest) = bytes_of ?line"
    and tail: "drop (length ?line + 4) (connect_request host port @ rest) = rest"
    unfolding req by (simp_all add: header_mark_def)
  have ascii: "is_ascii (bytes_of ?line)"
    using host(3) show_dec_ascii [of "unat port"] by (simp add: is_ascii_bytes_of)
  have first: "first_line ?line = Some ?line" using no_lf by (simp add: first_line_def)
  have toks: "split_ascii_whitespace ?line = [''CONNECT'', ?hp, ''HTTP/1.1'']"
  proof -
    have sp: "is_ascii_whitespace CHR '' ''" by (simp add: is_ascii_whitespace_def)
    have "is_token is_ascii_whitespace ''CONNECT''" "is_token is_ascii_whitespace ''HTTP/1.1''"
      by (simp_all add: is_token_def is_ascii_whitespace_def)
    from split_by_token [OF this(1) sp, of "?hp @ CHR '' '' # ''HTTP/1.1''"] split_by_token [OF token sp, of "''HTTP/1.1''"]
      split_by_single [OF this(2)]
    show ?thesis by (simp only: split_ascii_whitespace_def)
  qed
  have "split_on CHR '':'' ?hp = [host, show_dec (unat port)]"
    using split_on_append [OF host(2)] split_on_single [OF digit_not_colon] by simp
  then show ?thesis
    unfolding parse_header_def fin option.case Let_def head tail text_of_bytes_of first toks
    using ascii by (simp add: parse_u16_show_dec)
qed

section \<open>Properties\<close>

text \<open>For witnesses: a request for a host that is allowed, in three pieces, with two bytes after it.\<close>

definition demo_chunks :: "bytes list" where
  "demo_chunks = [take 7 (connect_request ''a.b'' 30000), drop 7 (connect_request ''a.b'' 30000) @ [8], [9]]"

lemma demo_parse:
  "parse_header (concat demo_chunks) = Ok (\<lparr>connect_host = ''a.b'', connect_port = 30000\<rparr>, [8, 9])"
proof -
  have "concat demo_chunks = connect_request ''a.b'' 30000 @ [8, 9]" by (simp add: demo_chunks_def)
  then show ?thesis
    by (simp only:) (rule parse_connect_request; simp add: is_token_def is_whitespace_def)
qed

text \<open>Whatever the client and the remote send, in whatever order, the CONNECT proxy tries at most one
  connection, and only to a host of the list of allowed hosts.\<close>

theorem connect_only_allowed:
  assumes "connect_run allowed relay connect_new evs = Some (as, r)"
  shows "length (connections as) \<le> 1 \<and> (\<forall>(h, p) \<in> set (connections as). h \<in> set allowed)"
  using connect_run_facts [OF assms connect_inv_new] by auto

text \<open>The tunnel does not depend on how the client's bytes are cut into messages: once a request with an
  allowed host is complete, one connection is made, the success reply is sent once, and the bytes
  written to the remote are exactly those that follow the request, in order and without loss.\<close>

theorem connect_stream_any_chunks:
  assumes "send_ok E relay" and "connect_host h \<in> set allowed" and "parse_header (concat cs) = Ok (h, rest)"
  shows "\<exists>as st'. connect_run allowed relay connect_new (client_chunks E cs) = Some (as, Ok (Some st')) \<and>
    written as = rest \<and> connections as = [(connect_host h, connect_port h)] \<and>
    to_client as = [Send relay SUCCESS_REPLY]"
  using assms by (rule stream_written)

theorem connect_stream_any_chunks_witness:
  "\<exists>as st'. connect_run [''a.b''] 3 connect_new (client_chunks env_up demo_chunks) = Some (as, Ok (Some st')) \<and>
    written as = [8, 9] \<and> connections as = [(''a.b'', 30000)]"
  using connect_stream_any_chunks [of env_up 3, OF _ _ demo_parse] by force

theorem connect_only_allowed_witness:
  "\<exists>as r. connect_run [''a.b''] 3 connect_new (client_chunks env_up demo_chunks) = Some (as, r) \<and>
    length (connections as) \<le> 1"
proof -
  obtain as r where "connect_run [''a.b''] 3 connect_new (client_chunks env_up demo_chunks) = Some (as, r)"
    using stream_written [of env_up 3, OF _ _ demo_parse] by force
  with connect_only_allowed [OF this] show ?thesis by blast
qed

text \<open>A request line \<open>CONNECT host:port HTTP/1.1\<close> followed by an empty line is parsed to that host and port, whatever
  bytes come after it, and those bytes are handed on unchanged.\<close>

theorem connect_request_parsed:
  assumes "is_token is_whitespace host" and "CHR '':'' \<notin> set host" and "ascii_text host"
  shows "parse_header (connect_request host port @ rest) = Ok (\<lparr>connect_host = host, connect_port = port\<rparr>, rest)"
  using assms by (rule parse_connect_request)

theorem connect_request_parsed_witness:
  "parse_header (connect_request ''h'' 8080 @ [1, 2]) = Ok (\<lparr>connect_host = ''h'', connect_port = 8080\<rparr>, [1, 2])"
  by (rule connect_request_parsed; simp add: is_token_def is_whitespace_def)

end
