(* ===== verification/Service.thy ===== *)
theory Service
  imports Network Dns_Proxy Connect_Proxy
begin

text \<open>
  \<open>src/service/service.rs\<close> and \<open>src/service/client.rs\<close>: the table of connected clients, the
  counter their numbers come from, and the one place a session gets its leases from. What the
  proxy shares between sessions is one record, the \<open>world\<close>: the static counter, the service
  behind its mutex, the names of channels given out so far and the random generator.
\<close>

section \<open>Clients\<close>

record client_handle =
  client_id :: u64
  client_addr :: socket_addr

record proxy_service =
  clients :: "(u64, client_handle) hmap"
  network :: network_state

record 'r world =
  id_counter :: u64
  service :: proxy_service
  next_chan :: chan
  rng :: 'r

definition service_new :: proxy_service where
  "service_new = \<lparr>clients = hm_empty, network = network_new\<rparr>"

text \<open>The process at its start: \<open>CLIENT_ID_COUNTER\<close> is 1, and no channel has been made.\<close>

definition world_new :: "'r \<Rightarrow> 'r world" where
  "world_new g = \<lparr>id_counter = 1, service = service_new, next_chan = 0, rng = g\<rparr>"

text \<open>\<open>fetch_add\<close> of an \<open>AtomicU64\<close> wraps.\<close>

definition client_new :: "socket_addr \<Rightarrow> 'r world \<Rightarrow> 'r world \<times> client_handle" where
  "client_new remote w =
     (w\<lparr>id_counter := id_counter w + 1\<rparr>, \<lparr>client_id = id_counter w, client_addr = remote\<rparr>)"

definition service_new_client :: "socket_addr \<Rightarrow> 'r world \<Rightarrow> 'r world \<times> client_handle" where
  "service_new_client remote w =
     (case client_new remote w of (w, h) \<Rightarrow>
        (w\<lparr>service := (service w)\<lparr>clients := hm_insert (client_id h) h (clients (service w))\<rparr>\<rparr>, h))"

definition service_remove_client :: "client_handle \<Rightarrow> 'r world \<Rightarrow> 'r world \<times> unit result" where
  "service_remove_client h w =
     (case hm_get (clients (service w)) (client_id h) of
        Some _ \<Rightarrow>
          (w\<lparr>service := (service w)\<lparr>clients := hm_remove (client_id h) (clients (service w))\<rparr>\<rparr>, Ok ())
      | None \<Rightarrow> (w, Err (Panic ''Integrity error, removed invalid client'')))"

section \<open>Leases\<close>

text \<open>The boxed \<open>dyn LeaseHandler\<close> of a \<open>ProxyLease\<close>: one of the three implementations.\<close>

datatype lease =
    BindLease bind_handler
  | ConnectLease connect_lease
  | DnsLease dns_lease

fun lease_send :: "buf_api \<Rightarrow> env \<Rightarrow> lease \<Rightarrow> bytes \<Rightarrow> network_state \<Rightarrow> effect list \<times> unit result" where
  "lease_send B E (BindLease h) d s = bind_send B E h d s"
| "lease_send B E (ConnectLease h) d s = connect_send E h d s"
| "lease_send B E (DnsLease h) d s = dns_send E h d s"

fun lease_close :: "env \<Rightarrow> lease \<Rightarrow> network_state \<Rightarrow> network_state \<times> unit result" where
  "lease_close E (BindLease h) s = bind_close E h s"
| "lease_close E (ConnectLease h) s = connect_close E h s"
| "lease_close E (DnsLease h) s = dns_close E h s"

fun lease_is_live :: "env \<Rightarrow> lease \<Rightarrow> bool" where
  "lease_is_live E (BindLease h) = bind_is_live E h"
| "lease_is_live E (ConnectLease h) = connect_is_live E h"
| "lease_is_live E (DnsLease h) = dns_is_live E h"

text \<open>The sending half a handler owns, which goes away with it.\<close>

fun lease_sender :: "lease \<Rightarrow> chan" where
  "lease_sender (BindLease h) = bind_egress h"
| "lease_sender (ConnectLease h) = connect_transmit h"
| "lease_sender (DnsLease h) = dns_transmit h"

text \<open>\<open>Drop for ProxyLease\<close>: close, whatever it says, and then the fields of the handler.\<close>

definition lease_drop :: "env \<Rightarrow> lease \<Rightarrow> network_state \<Rightarrow> network_state \<times> effect list" where
  "lease_drop E l s = (fst (lease_close E l s), [DropSender (lease_sender l)])"

interpretation lease: lease_handler "lease_send B" lease_close lease_is_live network_inv for B
proof unfold_locales
  fix E E' :: env and l :: lease and d s
  show "snd (lease_close E l s) = Ok ()"
    by (cases l) (simp_all add: bind.close_ok connect.close_ok dns.close_ok)
  show "network_inv s \<Longrightarrow> network_inv (fst (lease_close E l s))"
    by (cases l) (simp_all add: bind.close_inv connect_close_def dns_close_def)
  show "fst (lease_close E' l (fst (lease_close E l s))) = fst (lease_close E l s)"
    by (cases l) (simp_all add: bind.close_close connect.close_close dns.close_close)
  show "env_ok E \<Longrightarrow> \<not> lease_is_live E l \<Longrightarrow> \<not> is_ok (snd (lease_send B E l d s))"
    by (cases l) (simp_all add: bind.dead_send connect.dead_send dns.dead_send)
  show "\<not> is_ok (snd (lease_send B E l d s)) \<Longrightarrow> fst (lease_send B E l d s) = []"
    by (cases l) (simp_all add: bind.failed_send connect.failed_send dns.failed_send)
  show "length (fst (lease_send B E l d s)) \<le> 1"
    by (cases l) (simp_all only: lease_send.simps bind.one_effect connect.one_effect dns.one_effect)
qed

section \<open>The operations of the service\<close>

definition CONNECT_PROXY :: socket_addr where "CONNECT_PROXY = socket_addr_new (V6 PROXY_ADDRESS) 8080"
definition DNS_PROXY :: socket_addr where "DNS_PROXY = socket_addr_new (V6 PROXY_ADDRESS) 53"

definition set_network :: "network_state \<Rightarrow> 'r world \<Rightarrow> 'r world" where
  "set_network s w = w\<lparr>service := (service w)\<lparr>network := s\<rparr>\<rparr>"

abbreviation net_of :: "'r world \<Rightarrow> network_state" where
  "net_of w \<equiv> network (service w)"

definition service_assign :: "'r rng_api \<Rightarrow> env \<Rightarrow> 'r world \<Rightarrow> ((ipv6 \<times> passcode) \<times> 'r world) option" where
  "service_assign G E w =
     (case network_assign G E (rng w) (net_of w) of
        None \<Rightarrow> None
      | Some (ap, r, s) \<Rightarrow> Some (ap, set_network s w\<lparr>rng := r\<rparr>))"

definition service_bind ::
  "env \<Rightarrow> passcode \<Rightarrow> u16 \<Rightarrow> chan \<Rightarrow> 'r world \<Rightarrow> 'r world \<times> effect list \<times> lease result" where
  "service_bind E pc port relay w =
     (case network_bind E pc port relay (next_chan w) (net_of w) of
        (s, es, Inl e) \<Rightarrow> (set_network s w, es, Err e)
      | (s, es, Inr h) \<Rightarrow> (set_network s w\<lparr>next_chan := next_chan w + 1\<rparr>, es, Ok (BindLease h)))"

definition service_route :: "socket_addr \<Rightarrow> chan \<Rightarrow> 'r world \<Rightarrow> 'r world \<times> effect list \<times> lease result" where
  "service_route addr relay w =
     (if addr = CONNECT_PROXY then
        (case connect_into_lease (connect_proxy_new relay) (next_chan w) of
           Inl e \<Rightarrow> (w, [], Err e)
         | Inr (es, h) \<Rightarrow> (w\<lparr>next_chan := next_chan w + 1\<rparr>, es, Ok (ConnectLease h)))
      else if addr = DNS_PROXY then
        (case dns_into_lease (dns_proxy_new relay) (next_chan w) of
           Inl e \<Rightarrow> (w, [], Err e)
         | Inr (es, h) \<Rightarrow> (w\<lparr>next_chan := next_chan w + 1\<rparr>, es, Ok (DnsLease h)))
      else (w, [], Err (Bail ''Only the proxy's own services can be reached with PROXY'')))"

section \<open>The invariant of what is shared\<close>

definition world_inv :: "'r world \<Rightarrow> bool" where
  "world_inv w =
     (network_inv (net_of w) \<and> hm_wf (clients (service w)) \<and>
      (\<forall>i h. hm_get (clients (service w)) i = Some h \<longrightarrow> client_id h = i))"

named_theorems world_simps

lemma set_network_simps [simp]:
  "net_of (set_network s w) = s"
  "clients (service (set_network s w)) = clients (service w)"
  "id_counter (set_network s w) = id_counter w"
  "next_chan (set_network s w) = next_chan w"
  "rng (set_network s w) = rng w"
  by (simp_all add: set_network_def)

lemma world_inv_new: "world_inv (world_new g)"
  by (simp add: world_inv_def world_new_def service_new_def network_inv_new)

lemma world_inv_network: "world_inv w \<Longrightarrow> network_inv (net_of w)"
  by (simp add: world_inv_def)

lemma world_inv_set_network: "world_inv w \<Longrightarrow> network_inv s \<Longrightarrow> world_inv (set_network s w)"
  by (simp add: world_inv_def)

lemma world_inv_simps [world_simps]:
  "world_inv (w\<lparr>next_chan := c\<rparr>) = world_inv w"
  "world_inv (w\<lparr>rng := r\<rparr>) = world_inv w"
  "world_inv (w\<lparr>id_counter := n\<rparr>) = world_inv w"
  by (simp_all add: world_inv_def)

lemma new_client_inv: "world_inv w \<Longrightarrow> world_inv (fst (service_new_client remote w))"
  by (auto simp: service_new_client_def client_new_def world_inv_def hm.wf_insert hm.get_insert)

lemma remove_client_inv: "world_inv w \<Longrightarrow> world_inv (fst (service_remove_client h w))"
  by (auto simp: service_remove_client_def world_inv_def hm.wf_remove hm.get_remove split: option.split if_splits)

lemma service_assign_inv:
  assumes "world_inv w" and "service_assign G E w = Some (ap, w')"
  shows "world_inv w'"
proof -
  from assms(2) obtain a pc r s where n: "network_assign G E (rng w) (net_of w) = Some ((a, pc), r, s)"
    and w': "w' = set_network s w\<lparr>rng := r\<rparr>"
    by (auto simp: service_assign_def split: option.splits)
  from assms(1) have "network_inv s" by (intro assign_inv [OF _ n]) (rule world_inv_network)
  with assms(1) show ?thesis by (simp add: w' world_simps world_inv_set_network)
qed

lemma service_bind_inv:
  assumes "world_inv w" and "service_bind E pc port relay w = (w', es, res)"
  shows "world_inv w'"
proof -
  obtain s es' r where n: "network_bind E pc port relay (next_chan w) (net_of w) = (s, es', r)" by (rule prod_cases3)
  have "network_inv s" by (rule bind_inv_eq [OF world_inv_network [OF assms(1)] n])
  with assms show ?thesis
    by (auto simp: service_bind_def n world_simps world_inv_set_network split: sum.splits)
qed

lemma service_route_inv:
  "world_inv w \<Longrightarrow> service_route addr relay w = (w', es, res) \<Longrightarrow> world_inv w'"
  by (auto simp: service_route_def world_simps split: if_splits prod.splits)

lemma lease_drop_inv: "world_inv w \<Longrightarrow> world_inv (set_network (fst (lease_drop E l (net_of w))) w)"
  by (simp add: world_inv_set_network lease_drop_def lease.close_inv world_inv_network)

section \<open>The table of clients\<close>

text \<open>
  Every session registers once and, when it is over, unregisters once with the handle it was
  given. The events of the table's life: a session starts, or the one at an index of the
  list of those running ends.
\<close>

datatype service_event = Connected socket_addr | Disconnected nat

fun service_run :: "service_event list \<Rightarrow> 'r world \<Rightarrow> client_handle list \<Rightarrow> ('r world \<times> client_handle list) result" where
  "service_run [] w hs = Ok (w, hs)"
| "service_run (Connected remote # evs) w hs =
     (case service_new_client remote w of (w, h) \<Rightarrow> service_run evs w (hs @ [h]))"
| "service_run (Disconnected i # evs) w hs =
     (if i < length hs
      then (case service_remove_client (hs ! i) w of
              (w, Inl e) \<Rightarrow> Err e
            | (w, Inr _) \<Rightarrow> service_run evs w (take i hs @ drop (Suc i) hs))
      else service_run evs w hs)"

definition connects :: "service_event list \<Rightarrow> nat" where
  "connects evs = length (filter (\<lambda>e. case e of Connected _ \<Rightarrow> True | _ \<Rightarrow> False) evs)"

text \<open>After \<open>n\<close> connections: the place of a client in the order of arrival is its number less one.\<close>

definition clients_inv :: "nat \<Rightarrow> 'r world \<Rightarrow> client_handle list \<Rightarrow> bool" where
  "clients_inv n w hs =
     (id_counter w - 1 = word_of_nat n \<and> distinct (map client_id hs) \<and>
      (\<forall>h \<in> set hs. unat (client_id h - 1) < n) \<and>
      (\<forall>i h. hm_get (clients (service w)) i = Some h \<longleftrightarrow> h \<in> set hs \<and> client_id h = i))"

lemma clients_inv_new: "clients_inv 0 (world_new g) []"
  by (simp add: clients_inv_def world_new_def service_new_def)

lemma clients_inv_connect:
  assumes inv: "clients_inv n w hs" and n: "n < 2 ^ 64"
    and new: "service_new_client remote w = (w', h)"
  shows "clients_inv (Suc n) w' (hs @ [h])"
proof -
  from new have h: "h = \<lparr>client_id = id_counter w, client_addr = remote\<rparr>"
    and ctr: "id_counter w' = id_counter w + 1"
    and tab: "hm_get (clients (service w')) = (hm_get (clients (service w)))(id_counter w \<mapsto> h)"
    by (auto simp: service_new_client_def client_new_def fun_eq_iff hm.get_insert)
  have seat: "unat (id_counter w - 1) = n" using inv n by (simp add: clients_inv_def unat_of_nat)
  then have new_id: "id_counter w \<notin> client_id ` set hs" using inv by (force simp: clients_inv_def)
  moreover have "id_counter w' - 1 = word_of_nat (Suc n)"
    using inv by (simp add: ctr clients_inv_def algebra_simps)
  ultimately show ?thesis
    using inv seat unfolding clients_inv_def by (auto simp: h tab less_SucI)
qed

lemma clients_inv_disconnect:
  assumes inv: "clients_inv n w hs" and i: "i < length hs"
  obtains w' where "service_remove_client (hs ! i) w = (w', Ok ())"
    "clients_inv n w' (take i hs @ drop (Suc i) hs)"
proof -
  let ?h = "hs ! i"
  have split: "hs = take i hs @ ?h # drop (Suc i) hs" using i by (rule id_take_nth_drop)
  have reg: "hm_get (clients (service w)) (client_id ?h) = Some ?h" using inv i by (simp add: clients_inv_def)
  define w' where "w' = w\<lparr>service := (service w)\<lparr>clients := hm_remove (client_id ?h) (clients (service w))\<rparr>\<rparr>"
  have rem: "service_remove_client ?h w = (w', Ok ())" by (simp add: service_remove_client_def reg w'_def)
  have dist: "distinct (map client_id (take i hs @ ?h # drop (Suc i) hs))"
    using inv split by (simp add: clients_inv_def)
  define rest where "rest = take i hs @ drop (Suc i) hs"
  have dist': "distinct (map client_id rest)" using dist by (auto simp: rest_def)
  have mem: "h \<in> set rest \<longleftrightarrow> h \<in> set hs \<and> client_id h \<noteq> client_id ?h" for h
  proof -
    have "h \<in> set hs \<longleftrightarrow> h = ?h \<or> h \<in> set rest"
      by (subst (1) split) (auto simp: rest_def)
    with dist show ?thesis by (auto simp: rest_def image_iff dest: sym)
  qed
  have "clients_inv n w' rest"
    using inv dist' by (auto simp: clients_inv_def w'_def mem hm.get_remove)
  then have "clients_inv n w' (take i hs @ drop (Suc i) hs)" by (simp add: rest_def)
  with rem show thesis by (rule that)
qed

lemma service_run_clients:
  "clients_inv n w hs \<Longrightarrow> n + connects evs \<le> 2 ^ 64 \<Longrightarrow>
     \<exists>w' hs'. service_run evs w hs = Ok (w', hs') \<and> clients_inv (n + connects evs) w' hs'"
proof (induction evs w hs arbitrary: n rule: service_run.induct)
  case (2 remote evs w hs)
  obtain w' h where new: "service_new_client remote w = (w', h)" by fastforce
  from 2 have "clients_inv (Suc n) w' (hs @ [h])"
    by (intro clients_inv_connect [OF _ _ new]) (simp_all add: connects_def)
  with 2(1) [OF new [symmetric], of "Suc n"] 2(3) show ?case by (simp add: new connects_def)
next
  case (3 i evs w hs)
  show ?case
  proof (cases "i < length hs")
    case True
    from clients_inv_disconnect [OF 3(3) this] obtain w' where
      w': "service_remove_client (hs ! i) w = (w', Ok ())" "clients_inv n w' (take i hs @ drop (Suc i) hs)" by metis
    with 3(1) [OF True w'(1) [symmetric] refl] 3(4) True show ?thesis by (simp add: connects_def)
  next
    case False
    with 3(2) [OF False 3(3)] 3(4) show ?thesis by (simp add: connects_def)
  qed
qed (auto simp: connects_def)

section \<open>Properties\<close>

text \<open>As long as fewer than \<open>2 ^ 64 + 1\<close> clients ever connect, no two that are connected share a number, the
  table holds exactly the connected ones, and removing one never finds it missing, so
  \<open>remove_client\<close> does not panic.\<close>

theorem clients_never_lost:
  assumes "connects evs \<le> 2 ^ 64"
  shows "\<exists>w hs. service_run evs (world_new g) [] = Ok (w, hs) \<and> distinct (map client_id hs) \<and>
    (\<forall>i h. hm_get (clients (service w)) i = Some h \<longleftrightarrow> h \<in> set hs \<and> client_id h = i)"
proof -
  from service_run_clients [OF clients_inv_new, of evs g] assms obtain w hs where
    "service_run evs (world_new g) [] = Ok (w, hs)" "clients_inv (connects evs) w hs" by auto
  then show ?thesis by (auto simp: clients_inv_def)
qed

theorem clients_never_lost_witness:
  "\<exists>w hs. service_run [Connected (SockV4 1 2), Connected (SockV4 1 3), Disconnected 0] (world_new (0 :: nat)) [] = Ok (w, hs) \<and>
    distinct (map client_id hs)"
  using clients_never_lost [of "[Connected (SockV4 1 2), Connected (SockV4 1 3), Disconnected 0]" "0 :: nat"]
  by (simp add: connects_def) blast

end
