(* ===== verification/Std_Addr.thy ===== *)
theory Std_Addr
  imports Std_Net
begin

text \<open>
  Printing an IPv6 address and parsing it back: the reader of \<open>IpAddr\<close> inverts the printer,
  with its run of zeros written as \<open>::\<close>. This is what makes the address in a reply of
  \<open>NEWADDR\<close> the one that was assigned.
\<close>

section \<open>One group\<close>

lemma show_radix_length: "2 \<le> radix \<Longrightarrow> 0 < k \<Longrightarrow> n < radix ^ k \<Longrightarrow> length (show_radix radix n) \<le> k"
proof (induction k arbitrary: n)
  case (Suc k)
  show ?case
  proof (cases "n < radix")
    case False
    with Suc.prems have "0 < k" by (cases k) simp_all
    moreover have "n div radix < radix ^ k" using Suc.prems by (simp add: less_mult_imp_div_less mult.commute)
    ultimately have "length (show_radix radix (n div radix)) \<le> k" using Suc by simp
    with False Suc.prems(1) show ?thesis by (simp add: show_radix.simps [of radix n])
  qed (simp add: show_radix.simps [of radix n])
qed simp

text \<open>What follows a number does not begin with a digit.\<close>

definition ends_number :: "nat \<Rightarrow> string \<Rightarrow> bool" where
  "ends_number radix r = (r = [] \<or> \<not> is_digit radix (hd r))"

lemma read_number_show:
  assumes "2 \<le> radix" "radix \<le> 16" "length (show_radix radix n) \<le> digits" "zeros" "n < bound" "ends_number radix r"
  shows "read_number radix digits zeros bound (show_radix radix n @ r) = Some (n, r)"
proof -
  have all: "\<forall>c \<in> set (show_radix radix n). is_digit radix c"
    using show_radix_is_digit [OF assms(1,2)] by (simp add: list_all_iff)
  have "takeWhile (is_digit radix) r = []" "dropWhile (is_digit radix) r = r"
    using assms(6) by (cases r; simp add: ends_number_def)+
  with all have "takeWhile (is_digit radix) (show_radix radix n @ r) = show_radix radix n"
    "dropWhile (is_digit radix) (show_radix radix n @ r) = r" by simp_all
  with assms show ?thesis by (simp add: read_number_def Let_def digits_val_show)
qed

lemma read_group:
  "ends_number 16 r \<Longrightarrow> read_number 16 4 True 65536 (show_hex (unat (g :: u16)) @ r) = Some (unat g, r)"
  unfolding show_hex_def by (rule read_number_show) (simp_all add: show_radix_length)

lemma read_number_none: "ends_number radix s \<Longrightarrow> read_number radix n z b s = None"
  by (cases s) (simp_all add: read_number_def ends_number_def Let_def)

text \<open>Without a dot there is no IPv4 address to read.\<close>

lemma read_number_rest: "read_number radix n z b s = Some (v, r) \<Longrightarrow> set r \<subseteq> set s"
  by (auto simp: read_number_def Let_def split: if_splits dest: set_dropWhileD)

lemma no_ipv4: "CHR ''.'' \<notin> set s \<Longrightarrow> read_ipv4_addr s = None"
proof (cases "read_number 10 3 False 256 s")
  case (Some x)
  assume dot: "CHR ''.'' \<notin> set s"
  obtain v r where x: "x = (v, r)" by fastforce
  have "CHR ''.'' \<notin> set r" using read_number_rest [of 10 3 False 256 s v r] Some x dot by auto
  then have "read_char CHR ''.'' r = None" by (cases r) (auto simp: read_char_def)
  with Some x show ?thesis by (simp add: read_ipv4_addr_def read_separator_def)
qed (simp add: read_ipv4_addr_def read_separator_def)

lemma no_ipv4_separated: "CHR ''.'' \<notin> set s \<Longrightarrow> read_separator c i read_ipv4_addr s = None"
  by (cases s) (auto simp: read_separator_def read_char_def no_ipv4)

section \<open>Several groups\<close>

definition groups_text :: "u16 list \<Rightarrow> string" where
  "groups_text gs = concat (map (\<lambda>g. CHR '':'' # show_hex (unat g)) gs)"

lemma groups_text_Nil: "groups_text [] = []"
  by (simp add: groups_text_def)

lemma fmt_subslice_Cons: "fmt_subslice (g # gs) = show_hex (unat g) @ groups_text gs"
proof (induction gs arbitrary: g)
  case (Cons h gs)
  from Cons [of h] show ?case by (simp add: fmt_subslice_def groups_text_def)
qed (simp add: fmt_subslice_def groups_text_def)

text \<open>Where the reading of groups stops: at the end, or at the two colons.\<close>

definition stops :: "string \<Rightarrow> bool" where
  "stops r = (r = [] \<or> (\<exists>r'. r = ''::'' @ r'))"

lemma colon_no_digit [simp]: "\<not> is_digit radix CHR '':''"
  by (simp add: is_digit_def to_digit_def)

lemma stops_ends [simp]: "stops r \<Longrightarrow> ends_number radix r"
  by (auto simp: stops_def ends_number_def)

lemma groups_end [simp]: "stops r \<Longrightarrow> ends_number radix (groups_text gs @ r)"
  by (cases gs) (auto simp: groups_text_def ends_number_def stops_def)

lemma read_groups_stop: "stops r \<Longrightarrow> CHR ''.'' \<notin> set r \<Longrightarrow> read_groups k i r = ([], False, r)"
proof (cases k)
  case (Suc j)
  assume r: "stops r" and dot: "CHR ''.'' \<notin> set r"
  have "read_separator CHR '':'' i (read_number 16 4 True 65536) r = None"
  proof (cases "i > 0")
    case True
    from r consider "r = []" | r' where "r = CHR '':'' # CHR '':'' # r'" by (auto simp: stops_def)
    then show ?thesis
    proof cases
      case (2 r')
      have "ends_number 16 (CHR '':'' # r')" by (simp add: ends_number_def)
      with 2 True show ?thesis by (simp add: read_separator_def read_char_def read_number_none)
    qed (use True in \<open>simp add: read_separator_def read_char_def\<close>)
  qed (simp add: read_separator_def read_number_none r)
  with no_ipv4_separated [OF dot] show ?thesis by (simp add: Suc)
qed simp

lemma read_groups_more:
  "0 < i \<Longrightarrow> length gs \<le> k \<Longrightarrow> stops r \<Longrightarrow> CHR ''.'' \<notin> set (groups_text gs @ r) \<Longrightarrow>
     read_groups k i (groups_text gs @ r) = (gs, False, r)"
proof (induction gs arbitrary: k i)
  case Nil
  then show ?case by (simp add: groups_text_def read_groups_stop)
next
  case (Cons g gs)
  then obtain j where k: "k = Suc j" by (cases k) auto
  have eq: "groups_text (g # gs) @ r = CHR '':'' # show_hex (unat g) @ groups_text gs @ r" by (simp add: groups_text_def)
  have "read_groups j (Suc i) (groups_text gs @ r) = (gs, False, r)"
    using Cons k by (intro Cons.IH) (auto simp: groups_text_def)
  moreover have "read_separator CHR '':'' i (read_number 16 4 True 65536) (groups_text (g # gs) @ r) = Some (unat g, groups_text gs @ r)"
    unfolding eq using Cons.prems(1,3) by (simp add: read_separator_def read_char_def read_group)
  moreover have "j = 0 \<Longrightarrow> gs = []" using Cons.prems(2) k by simp
  ultimately show ?case using no_ipv4_separated [OF Cons.prems(4)] by (auto simp: k groups_text_Nil)
qed

lemma read_groups_fmt:
  assumes "length gs \<le> k" "stops r" "CHR ''.'' \<notin> set (fmt_subslice gs @ r)"
  shows "read_groups k 0 (fmt_subslice gs @ r) = (gs, False, r)"
proof (cases gs)
  case Nil
  then show ?thesis using assms by (simp add: fmt_subslice_def read_groups_stop)
next
  case (Cons g hs)
  with assms(1) obtain j where k: "k = Suc j" by (cases k) auto
  have eq: "fmt_subslice gs @ r = show_hex (unat g) @ groups_text hs @ r" by (simp add: Cons fmt_subslice_Cons)
  have "read_groups j 1 (groups_text hs @ r) = (hs, False, r)"
    using assms Cons k by (intro read_groups_more) (auto simp: fmt_subslice_Cons)
  moreover have "read_separator CHR '':'' 0 (read_number 16 4 True 65536) (fmt_subslice gs @ r) = Some (unat g, groups_text hs @ r)"
    unfolding eq using assms(2) by (simp add: read_separator_def read_group)
  moreover have "j = 0 \<Longrightarrow> hs = []" using assms(1) k Cons by simp
  ultimately show ?thesis using no_ipv4_separated [OF assms(3)] by (auto simp: k Cons groups_text_Nil)
qed

section \<open>The run of zeros\<close>

definition zero_run :: "nat \<times> nat \<Rightarrow> u16 list \<Rightarrow> bool" where
  "zero_run p gs = (fst p + snd p \<le> length gs \<and> (\<forall>j. fst p \<le> j \<and> j < fst p + snd p \<longrightarrow> gs ! j = 0))"

lemma zero_run_append: "zero_run p xs \<Longrightarrow> zero_run p (xs @ ys)"
  by (auto simp: zero_run_def nth_append)

lemma zero_span_run:
  "zero_run longest ps \<Longrightarrow> zero_run cur ps \<Longrightarrow> (snd cur > 0 \<longrightarrow> fst cur + snd cur = length ps) \<Longrightarrow>
     zero_run (zero_span (length ps) cur longest gs) (ps @ gs)"
proof (induction gs arbitrary: ps cur longest)
  case (Cons g gs)
  let ?ps = "ps @ [g]"
  have longest: "zero_run longest ?ps" using Cons.prems(1) by (rule zero_run_append)
  show ?case
  proof (cases "g = 0")
    case True
    define cur' where "cur' = ((if snd cur = 0 then length ps else fst cur), Suc (snd cur))"
    have "zero_run cur' ?ps" "fst cur' + snd cur' = length ?ps"
      using True Cons.prems(2,3) by (auto simp: zero_run_def cur'_def nth_append less_Suc_eq)
    moreover have "zero_span (length ps) cur longest (g # gs) =
        zero_span (length ?ps) cur' (if snd cur' > snd longest then cur' else longest) gs"
      using True by (simp add: cur'_def Let_def)
    ultimately show ?thesis
      using Cons.IH [of "if snd cur' > snd longest then cur' else longest" ?ps cur'] longest by simp
  next
    case False
    with Cons.IH [OF longest, of "(0, 0)"] show ?thesis by (simp add: zero_run_def)
  qed
qed simp

lemma zero_run_split:
  assumes "zero_run (start, len) gs"
  shows "gs = take start gs @ replicate len 0 @ drop (start + len) gs"
proof (rule nth_equalityI)
  show "length gs = length (take start gs @ replicate len 0 @ drop (start + len) gs)" using assms by (simp add: zero_run_def)
  fix j
  assume "j < length gs"
  then show "gs ! j = (take start gs @ replicate len 0 @ drop (start + len) gs) ! j"
    using assms by (auto simp: zero_run_def nth_append min_def)
qed

section \<open>The whole address\<close>

lemma be16s_bytes: "even (length bs) \<Longrightarrow> concat (map (\<lambda>g. be_bytes 2 (unat g)) (be16s bs)) = bs"
proof (induction bs rule: be16s.induct)
  case (1 a b r)
  have "be_val [a, b] < 256 ^ 2" using be_val_less [of "[a, b]"] by simp
  then have "unat (word_of_nat (be_val [a, b]) :: u16) = be_val [a, b]" by (simp add: unat_of_nat)
  moreover have "be_bytes 2 (be_val [a, b]) = [a, b]" using be_bytes_be_val [of "[a, b]"] by (simp add: numeral_2_eq_2)
  ultimately show ?case using 1 by simp
qed auto

lemma from_segments_segments: "from_segments (segments a) = a"
  by (simp add: from_segments_def segments_def be16s_bytes)

lemma length_segments: "length (segments a) = 8"
proof -
  have "2 * length (segments a) = 16"
    using length_concat_groups [of "segments a"] be16s_bytes [of "octets6 a"] by (simp add: segments_def)
  then show ?thesis by simp
qed

lemma fmt_no_dot: "CHR ''.'' \<notin> set (fmt_subslice gs)"
proof -
  have "CHR ''.'' \<notin> set (show_hex n)" for n
    using show_radix_range [of 16 "CHR ''.''" n] by (auto simp: show_hex_def)
  then have "CHR ''.'' \<notin> set (groups_text gs)" for gs by (auto simp: groups_text_def)
  with \<open>\<And>n. CHR ''.'' \<notin> set (show_hex n)\<close> show ?thesis
    by (cases gs) (auto simp: fmt_subslice_Cons, simp add: fmt_subslice_def)
qed

lemma read_ipv6_show:
  assumes "to_ipv4_mapped a = None"
  shows "read_ipv6_addr (show_ipv6 a) = Some (a, []) \<and> CHR ''.'' \<notin> set (show_ipv6 a)"
proof -
  let ?gs = "segments a"
  obtain start len where span: "zero_span 0 (0, 0) (0, 0) ?gs = (start, len)" by fastforce
  have run: "zero_run (start, len) ?gs"
    using zero_span_run [of "(0, 0)" "[]" "(0, 0)" ?gs] span by (simp add: zero_run_def)
  show ?thesis
  proof (cases "len > 1")
    case True
    let ?head = "take start ?gs" and ?tail = "drop (start + len) ?gs"
    have le: "start + len \<le> 8" using run by (simp add: zero_run_def length_segments)
    have text_eq: "show_ipv6 a = fmt_subslice ?head @ ''::'' @ fmt_subslice ?tail"
      using assms span True by (simp add: show_ipv6_def Let_def)
    have head: "read_groups 8 0 (show_ipv6 a) = (?head, False, ''::'' @ fmt_subslice ?tail)"
      unfolding text_eq using le fmt_no_dot
      by (intro read_groups_fmt) (auto simp: length_segments stops_def)
    have tail: "read_groups (8 - (length ?head + 1)) 0 (fmt_subslice ?tail) = (?tail, False, [])"
      using read_groups_fmt [of ?tail "8 - (length ?head + 1)" "[]"] le True fmt_no_dot [of ?tail]
      by (simp add: length_segments stops_def)
    have "?head @ replicate (8 - length ?head - length ?tail) 0 @ ?tail = ?gs"
      using zero_run_split [OF run] le by (simp add: length_segments)
    then have "read_ipv6_addr (show_ipv6 a) = Some (a, [])"
      using le True tail by (simp add: read_ipv6_addr_def head read_char_def length_segments from_segments_segments del: read_groups_numeral)
    with text_eq fmt_no_dot show ?thesis by simp
  next
    case False
    then have text_eq: "show_ipv6 a = fmt_subslice ?gs" using assms span by (simp add: show_ipv6_def)
    have "read_groups 8 0 (show_ipv6 a) = (?gs, False, [])"
      using read_groups_fmt [of ?gs 8 "[]"] fmt_no_dot [of ?gs] by (simp add: text_eq length_segments stops_def)
    then have "read_ipv6_addr (show_ipv6 a) = Some (a, [])"
      by (simp add: read_ipv6_addr_def length_segments from_segments_segments del: read_groups_numeral)
    with text_eq fmt_no_dot show ?thesis by simp
  qed
qed

text \<open>An address that is not an IPv4-mapped one is read back as it was printed.\<close>

lemma parse_show_ipv6: "to_ipv4_mapped a = None \<Longrightarrow> parse_ip_addr (show_ipv6 a) = Some (V6 a)"
  using read_ipv6_show [of a] by (simp add: parse_ip_addr_def no_ipv4)

end
