(* ===== verification/Commands.thy ===== *)
theory Commands
  imports Service Std_Addr
begin

text \<open>
  \<open>src/service/commands.rs\<close>: the text commands of a client. \<open>handle_command\<close> is one call of
  \<open>CommandProcessor::handle_command\<close>: it reads the bytes of a command and the session's relay
  sender, which it may take, works on the shared world and answers with a
  \<open>command_result\<close> or ends the session with an error.
\<close>

definition MAX_COMMAND_SIZE :: nat where "MAX_COMMAND_SIZE = 4096"

record command_result =
  response :: string
  new_lease :: "lease option"
  relay_udp :: bool

text \<open>The world and the relay it leaves, what it did to channels and tasks, and the result.\<close>

type_synonym 'r command_outcome = "'r world \<times> chan option \<times> effect list \<times> command_result result"

section \<open>The branches\<close>

definition proxy_args :: "string list \<Rightarrow> socket_addr result" where
  "proxy_args tokens =
     (if length tokens \<noteq> 5 then Err (Bail ''Bad args to PROXY command'')
      else and_then
        (if tokens ! 1 = ''IPV4'' then Ok False
         else if tokens ! 1 = ''IPV6'' then Ok True
         else Err (Bail ''Bad protocol in PROXY command''))
        (\<lambda>want_ipv6.
           if tokens ! 2 = ''TCP'' then
             and_then (ok_or (Context ''Bad address in PROXY command'' External) (parse_ip_addr (tokens ! 3)))
               (\<lambda>ip.
                  if is_ipv6 ip \<noteq> want_ipv6 then Err (Bail ''Address family does not match PROXY command'')
                  else and_then (ok_or (Context ''Bad port in PROXY command'' External) (parse_u16 (tokens ! 4)))
                    (\<lambda>port. Ok (socket_addr_new ip port)))
           else if tokens ! 2 = ''UDP'' then Err (Bail ''UDP is carried on a bound link, not PROXY'')
           else Err (Bail ''Bad transport in PROXY command'')))"

definition proxy_command :: "string list \<Rightarrow> chan option \<Rightarrow> 'r world \<Rightarrow> 'r command_outcome" where
  "proxy_command tokens relay_tx w =
     (case proxy_args tokens of
        Inl e \<Rightarrow> (w, relay_tx, [], Err e)
      | Inr addr \<Rightarrow>
          (case relay_tx of
             None \<Rightarrow> (w, relay_tx, [], Err (Bail ''PROXY command but relay is missing''))
           | Some relay \<Rightarrow>
               (case service_route addr relay w of
                  (w, es, Inl e) \<Rightarrow> (w, None, es, Err e)
                | (w, es, Inr l) \<Rightarrow>
                    (w, None, es, Ok \<lparr>response = ''PROXY OK'', new_lease = Some l, relay_udp = False\<rparr>))))"

text \<open>\<open>Diverges\<close>: the service draws addresses for ever, with its mutex locked.\<close>

definition newaddr_command ::
  "'r rng_api \<Rightarrow> env \<Rightarrow> string list \<Rightarrow> chan option \<Rightarrow> 'r world \<Rightarrow> 'r command_outcome" where
  "newaddr_command G E tokens relay_tx w =
     (if length tokens \<noteq> 1 then (w, relay_tx, [], Err (Bail ''Bad args to NEWADDR''))
      else case service_assign G E w of
        None \<Rightarrow> (w, relay_tx, [], Err Diverges)
      | Some ((address, pc), w) \<Rightarrow>
          (w, relay_tx, [],
           Ok \<lparr>response = ''ADDR '' @ show_ipv6 address @ '' '' @ passcode_fmt pc,
               new_lease = None, relay_udp = False\<rparr>))"

definition bind_args :: "string list \<Rightarrow> (passcode \<times> u16) result" where
  "bind_args tokens =
     (if length tokens \<noteq> 4 then Err (Bail ''Bad args to BIND'')
      else and_then (map_err (Context ''Bad passcode in BIND'') (passcode_parse (tokens ! 1)))
        (\<lambda>pc. if tokens ! 2 \<noteq> ''UDP'' then Err (Bail ''Only UDP can be bound'')
              else and_then (ok_or (Context ''Bad port in BIND'' External) (parse_u16 (tokens ! 3)))
                (\<lambda>port. Ok (pc, port))))"

definition bind_command :: "env \<Rightarrow> string list \<Rightarrow> chan option \<Rightarrow> 'r world \<Rightarrow> 'r command_outcome" where
  "bind_command E tokens relay_tx w =
     (case relay_tx of
        None \<Rightarrow> (w, relay_tx, [], Err (Bail ''BIND command with missing relay''))
      | Some relay \<Rightarrow>
          (case bind_args tokens of
             Inl e \<Rightarrow> (w, relay_tx, [], Err e)
           | Inr (pc, port) \<Rightarrow>
               (case service_bind E pc port relay w of
                  (w, es, Inr l) \<Rightarrow>
                    (w, None, es, Ok \<lparr>response = ''BIND OK'', new_lease = Some l, relay_udp = True\<rparr>)
                | (w, es, Inl _) \<Rightarrow>
                    (w, relay_tx, es, Ok \<lparr>response = ''BIND FAILED'', new_lease = None, relay_udp = False\<rparr>))))"

section \<open>The command processor\<close>

definition handle_command ::
  "'r rng_api \<Rightarrow> env \<Rightarrow> bytes \<Rightarrow> chan option \<Rightarrow> 'r world \<Rightarrow> 'r command_outcome" where
  "handle_command G E raw relay_tx w =
     (if \<not> is_ascii raw then (w, relay_tx, [], Err (Bail ''Command contains non-ascii characters''))
      else
        let raw = text_of raw in
        if length raw > 255 then (w, relay_tx, [], Err (Bail ''Command too long''))
        else case strip_prefix ''PING'' raw of
          Some ping_payload \<Rightarrow>
            (w, relay_tx, [], Ok \<lparr>response = ''PONG'' @ ping_payload, new_lease = None, relay_udp = False\<rparr>)
        | None \<Rightarrow>
            (let tokens = take 6 (split_whitespace raw) in
             if length tokens < 1 then (w, relay_tx, [], Err (Bail ''Empty command''))
             else if hd tokens = ''PROXY'' then proxy_command tokens relay_tx w
             else if hd tokens = ''NEWADDR'' then newaddr_command G E tokens relay_tx w
             else if hd tokens = ''BIND'' then bind_command E tokens relay_tx w
             else (w, relay_tx, [], Err (Bail (''Unrecognized command: '' @ tokens ! 0)))))"

section \<open>Every outcome\<close>

lemma proxy_args_Ok:
  "proxy_args tokens = Ok addr \<longleftrightarrow>
     (\<exists>ip port. length tokens = 5 \<and> tokens ! 2 = ''TCP'' \<and>
        tokens ! 1 = (if is_ipv6 ip then ''IPV6'' else ''IPV4'') \<and>
        parse_ip_addr (tokens ! 3) = Some ip \<and> parse_u16 (tokens ! 4) = Some port \<and>
        addr = socket_addr_new ip port)"
  by (auto simp: proxy_args_def and_then_Ok ok_or_Ok split: if_splits)

lemma bind_args_Ok:
  "bind_args tokens = Ok (pc, port) \<longleftrightarrow>
     length tokens = 4 \<and> tokens ! 1 = passcode_fmt pc \<and> passcode_wf pc \<and>
     tokens ! 2 = ''UDP'' \<and> parse_u16 (tokens ! 3) = Some port"
  by (auto simp: bind_args_def and_then_Ok ok_or_Ok map_err_Ok passcode_parse_Ok)

lemma handle_command_dispatch:
  fixes raw :: bytes
  defines "tokens \<equiv> take 6 (split_whitespace (text_of raw))"
  shows "(\<exists>e. handle_command G E raw relay_tx w = (w, relay_tx, [], Err e)) \<or>
    (\<exists>q. strip_prefix ''PING'' (text_of raw) = Some q \<and> handle_command G E raw relay_tx w =
       (w, relay_tx, [], Ok \<lparr>response = ''PONG'' @ q, new_lease = None, relay_udp = False\<rparr>)) \<or>
    handle_command G E raw relay_tx w = proxy_command tokens relay_tx w \<or>
    handle_command G E raw relay_tx w = newaddr_command G E tokens relay_tx w \<or>
    handle_command G E raw relay_tx w = bind_command E tokens relay_tx w"
proof (cases "is_ascii raw \<and> length raw \<le> 255")
  case ok: True
  show ?thesis
  proof (cases "strip_prefix ''PING'' (text_of raw)")
    case None
    with ok have eq: "handle_command G E raw relay_tx w =
      (if length tokens < 1 then (w, relay_tx, [], Err (Bail ''Empty command''))
       else if hd tokens = ''PROXY'' then proxy_command tokens relay_tx w
       else if hd tokens = ''NEWADDR'' then newaddr_command G E tokens relay_tx w
       else if hd tokens = ''BIND'' then bind_command E tokens relay_tx w
       else (w, relay_tx, [], Err (Bail (''Unrecognized command: '' @ tokens ! 0))))"
      by (simp only: handle_command_def Let_def tokens_def length_text_of option.case not_less
          simp_thms if_True if_False not_le [symmetric])
    show ?thesis unfolding eq by (simp split del: if_split) (auto split: if_splits)
  qed (use ok in \<open>simp add: handle_command_def Let_def\<close>)
qed (auto simp: handle_command_def Let_def)

text \<open>What any command can come to.\<close>

lemma handle_command_cases:
  obtains
    (error) e where "snd (snd (snd (handle_command G E raw relay_tx w))) = Err e"
      "fst (handle_command G E raw relay_tx w) = w"
      "fst (snd (snd (handle_command G E raw relay_tx w))) = []"
  | (ping) p where "raw = bytes_of (''PING'' @ p)" "handle_command G E raw relay_tx w =
      (w, relay_tx, [], Ok \<lparr>response = ''PONG'' @ p, new_lease = None, relay_udp = False\<rparr>)"
  | (proxy) relay addr w' es l where "relay_tx = Some relay" "service_route addr relay w = (w', es, Ok l)"
      "handle_command G E raw relay_tx w =
        (w', None, es, Ok \<lparr>response = ''PROXY OK'', new_lease = Some l, relay_udp = False\<rparr>)"
  | (newaddr) a pc w' where "service_assign G E w = Some ((a, pc), w')"
      "handle_command G E raw relay_tx w = (w', relay_tx, [],
        Ok \<lparr>response = ''ADDR '' @ show_ipv6 a @ '' '' @ passcode_fmt pc, new_lease = None, relay_udp = False\<rparr>)"
  | (bind) relay pc port w' es l where "relay_tx = Some relay" "service_bind E pc port relay w = (w', es, Ok l)"
      "handle_command G E raw relay_tx w =
        (w', None, es, Ok \<lparr>response = ''BIND OK'', new_lease = Some l, relay_udp = True\<rparr>)"
  | (refused) relay pc port w' es e where "relay_tx = Some relay" "service_bind E pc port relay w = (w', es, Err e)"
      "handle_command G E raw relay_tx w =
        (w', relay_tx, es, Ok \<lparr>response = ''BIND FAILED'', new_lease = None, relay_udp = False\<rparr>)"
proof -
  let ?tokens = "take 6 (split_whitespace (text_of raw))"
  let ?h = "handle_command G E raw relay_tx w"
  consider (bad) e where "?h = (w, relay_tx, [], Err e)"
    | (p) q where "strip_prefix ''PING'' (text_of raw) = Some q"
        "?h = (w, relay_tx, [], Ok \<lparr>response = ''PONG'' @ q, new_lease = None, relay_udp = False\<rparr>)"
    | (x) "?h = proxy_command ?tokens relay_tx w"
    | (n) "?h = newaddr_command G E ?tokens relay_tx w"
    | (b) "?h = bind_command E ?tokens relay_tx w"
    using handle_command_dispatch [of G E raw relay_tx w] by blast
  then show thesis
  proof cases
    case bad
    then show ?thesis using error by simp
  next
    case p
    from p(1) have "text_of raw = ''PING'' @ q" by (simp add: strip_prefix_Some)
    then have "raw = bytes_of (''PING'' @ q)" by (metis bytes_of_text_of)
    from ping [OF this p(2)] show ?thesis .
  next
    case x
    show ?thesis
    proof (cases "proxy_args ?tokens")
      case (Inr addr)
      obtain w' es r where r: "relay_tx = None \<or> service_route addr (the relay_tx) w = (w', es, r)"
        by (metis prod_cases3)
      show ?thesis
      proof (cases r)
        case (Inl e)
        with r have "relay_tx \<noteq> None \<Longrightarrow> w' = w \<and> es = []"
          by (auto simp: service_route_def split: if_splits)
        with x r Inr Inl error show ?thesis by (cases relay_tx) (simp_all add: proxy_command_def)
      next
        case (Inr l)
        with x r \<open>proxy_args _ = _\<close> error proxy show ?thesis by (cases relay_tx) (simp_all add: proxy_command_def)
      qed
    qed (use x error in \<open>simp add: proxy_command_def\<close>)
  next
    case n
    then show ?thesis
      using error newaddr by (auto simp: newaddr_command_def split: if_splits option.splits)
  next
    case b
    show ?thesis
    proof (cases "bind_args ?tokens")
      case (Inl e)
      with b error show ?thesis by (cases relay_tx) (simp_all add: bind_command_def)
    next
      case (Inr pp)
      obtain pc port where pp: "pp = (pc, port)" by (cases pp)
      obtain w' es r where r: "relay_tx = None \<or> service_bind E pc port (the relay_tx) w = (w', es, r)"
        by (metis prod_cases3)
      with b Inr pp error bind refused show ?thesis
        by (cases relay_tx; cases r) (simp_all add: bind_command_def)
    qed
  qed
qed

section \<open>What the session can rely on\<close>

lemma handle_command_inv:
  assumes "world_inv w"
  shows "world_inv (fst (handle_command G E raw relay_tx w))"
  using assms
  by (cases rule: handle_command_cases [of G E raw relay_tx w])
    (auto intro: service_assign_inv service_bind_inv service_route_inv)

text \<open>
  The relay is given away with a lease and never without one, and the session is told to
  carry datagrams exactly for a bound port.
\<close>

lemma handle_command_relay:
  assumes "handle_command G E raw relay_tx w = (w', relay', es, Ok r)"
  shows "relay' = (if new_lease r = None then relay_tx else None)"
    "new_lease r \<noteq> None \<Longrightarrow> relay_tx \<noteq> None"
    "relay_udp r \<longleftrightarrow> (\<exists>h. new_lease r = Some (BindLease h))"
  using assms
  by (cases rule: handle_command_cases [of G E raw relay_tx w];
      auto simp: service_route_def service_bind_def split: if_splits prod.splits sum.splits)+

lemma handle_command_sender:
  assumes "handle_command G E raw relay_tx w = (w', relay', es, res)"
  shows "relay' = relay_tx \<or> relay' = None"
proof (cases res)
  case (Inr r)
  from handle_command_relay(1) [OF assms [unfolded Inr]] show ?thesis by simp
next
  case (Inl e)
  with assms show ?thesis
    by (auto simp: handle_command_def Let_def proxy_command_def newaddr_command_def bind_command_def
        split: if_splits option.splits sum.splits prod.splits)
qed

lemma service_bind_Err:
  assumes "service_bind E pc port relay w = (w', es, Err e)"
  shows "w' = w" "es = []"
proof -
  obtain s es' r where n: "network_bind E pc port relay (next_chan w) (net_of w) = (s, es', r)" by (rule prod_cases3)
  with assms obtain e' where "r = Err e'" "w' = set_network s w" "es = es'"
    by (auto simp: service_bind_def split: sum.splits)
  moreover from this n have "s = net_of w" "es' = []"
    by (auto simp: network_bind_def Let_def split: if_splits option.splits)
  ultimately show "w' = w" "es = []" by (simp_all add: set_network_def)
qed

text \<open>Without a lease the only trace of a command is a new assignment.\<close>

lemma handle_command_no_lease:
  assumes "handle_command G E raw relay_tx w = (w', relay', es, Ok r)" and "new_lease r = None"
  shows "es = [] \<and> (w' = w \<or> (\<exists>ap. service_assign G E w = Some (ap, w')))"
  using assms service_bind_Err [of E _ _ _ w]
  by (cases rule: handle_command_cases [of G E raw relay_tx w]) auto

text \<open>No command panics; one that does not return has the service draw addresses for ever.\<close>

lemma handle_command_unwinds:
  assumes "handle_command G E raw relay_tx w = (w', relay', es, Err e)" and "unwinds e"
  shows "e = Diverges \<and> service_assign G E w = None"
proof -
  have args: "proxy_args tokens = Err e' \<Longrightarrow> \<not> unwinds e'" "bind_args tokens = Err e' \<Longrightarrow> \<not> unwinds e'" for tokens e'
    by (auto simp: proxy_args_def bind_args_def and_then_def ok_or_def map_err_def split: if_splits sum.splits option.splits)
  have proxy: "proxy_command tokens relay_tx w = (w', relay', es, Err e) \<Longrightarrow> False" for tokens
    using assms(2) args(1)
    by (auto simp: proxy_command_def service_route_def
        split: sum.splits option.splits if_splits)
  have bind: "bind_command E tokens relay_tx w = (w', relay', es, Err e) \<Longrightarrow> False" for tokens
    using assms(2) args(2) by (auto simp: bind_command_def split: sum.splits option.splits prod.splits)
  have newaddr: "newaddr_command G E tokens relay_tx w = (w', relay', es, Err e) \<Longrightarrow> ?thesis" for tokens
    using assms(2) by (auto simp: newaddr_command_def split: option.splits if_splits)
  from assms show ?thesis
    by (auto simp: handle_command_def Let_def split: if_splits option.splits dest: proxy bind newaddr)
qed

text \<open>The reply is one line of ASCII text, so that it can be told from the next.\<close>

lemma handle_command_ascii:
  assumes "handle_command G E raw relay_tx w = (w', relay', es, Ok r)"
  shows "ascii_text (response r)"
proof (cases rule: handle_command_cases [of G E raw relay_tx w])
  case (ping p)
  have "is_ascii raw" using assms by (auto simp: handle_command_def split: if_splits)
  with ping assms show ?thesis by (auto simp: is_ascii_bytes_of)
next
  case (newaddr a pc w'')
  then have "passcode_wf pc"
    using assign_loop_Some by (fastforce simp: service_assign_def network_assign_def split: option.splits)
  with newaddr assms show ?thesis by (auto simp: show_ipv6_ascii passcode_ascii)
qed (use assms in auto)

lemma handle_command_one_line:
  assumes "handle_command G E raw relay_tx w = (w', relay', es, Ok r)" and "10 \<notin> set raw"
  shows "CHR 0x0A \<notin> set (response r)"
proof (cases rule: handle_command_cases [of G E raw relay_tx w])
  case (ping p)
  have "CHR 0x0A \<notin> set p"
  proof
    assume "CHR 0x0A \<in> set p"
    then have "word_of_nat (of_char (CHR 0x0A)) \<in> (\<lambda>c. word_of_nat (of_char c) :: byte) ` set p" by (rule imageI)
    with assms(2) show False by (simp add: ping(1) bytes_of_def)
  qed
  with ping assms(1) show ?thesis by auto
next
  case (newaddr a pc w'')
  then have "passcode_wf pc"
    using assign_loop_Some by (fastforce simp: service_assign_def network_assign_def split: option.splits)
  with newaddr assms(1) show ?thesis
    using token_no_newline [OF show_ipv6_token] token_no_newline [OF passcode_token] by auto
qed (use assms(1) in auto)

section \<open>A client's lines\<close>

text \<open>The commands as a client writes them, and what the processor makes of them.\<close>

definition bind_line :: "string \<Rightarrow> u16 \<Rightarrow> bytes" where
  "bind_line pc port = bytes_of (''BIND '' @ pc @ '' UDP '' @ show_dec (unat port))"

definition proxy_line :: "ip_addr \<Rightarrow> string \<Rightarrow> u16 \<Rightarrow> bytes" where
  "proxy_line ip addr port =
     bytes_of (''PROXY '' @ (if is_ipv6 ip then ''IPV6'' else ''IPV4'') @ '' TCP '' @ addr @ '' '' @ show_dec (unat port))"

lemma space_whitespace [simp]: "is_whitespace CHR '' ''"
  by (simp add: is_whitespace_def)

lemma port_length: "length (show_dec (unat (port :: u16))) \<le> 5"
proof (rule show_dec_length)
  have "unat port < 65536" by (rule unat_word_less)
  then show "unat port < 10 ^ 5" by (rule less_le_trans) simp
qed simp

lemma handle_command_newaddr:
  "handle_command G E (bytes_of ''NEWADDR'') relay_tx w = newaddr_command G E [''NEWADDR''] relay_tx w"
  by (simp add: handle_command_def is_ascii_bytes_of split_whitespace_def is_whitespace_def)

lemma bind_line_tokens:
  assumes "is_token is_whitespace pc"
  shows "split_whitespace (''BIND '' @ pc @ '' UDP '' @ show_dec (unat port)) = [''BIND'', pc, ''UDP'', show_dec (unat port)]"
proof -
  have "is_token is_whitespace ''BIND''" "is_token is_whitespace ''UDP''"
    by (simp_all add: is_token_def is_whitespace_def)
  from split_by_token [OF this(1) space_whitespace, of "pc @ CHR '' '' # ''UDP'' @ CHR '' '' # show_dec (unat port)"]
    split_by_token [OF assms space_whitespace, of "''UDP'' @ CHR '' '' # show_dec (unat port)"]
    split_by_token [OF this(2) space_whitespace, of "show_dec (unat port)"]
  show ?thesis by (simp add: split_whitespace_def split_by_single [OF show_dec_token])
qed

lemma handle_command_bind:
  assumes pc: "passcode_wf pc"
  shows "handle_command G E (bind_line (passcode_fmt pc) port) (Some relay) w =
    (case service_bind E pc port relay w of
       (w, es, Inr l) \<Rightarrow> (w, None, es, Ok \<lparr>response = ''BIND OK'', new_lease = Some l, relay_udp = True\<rparr>)
     | (w, es, Inl _) \<Rightarrow>
         (w, Some relay, es, Ok \<lparr>response = ''BIND FAILED'', new_lease = None, relay_udp = False\<rparr>))"
proof -
  let ?line = "''BIND '' @ passcode_fmt pc @ '' UDP '' @ show_dec (unat port)"
  let ?tokens = "[''BIND'', passcode_fmt pc, ''UDP'', show_dec (unat port)]"
  have "ascii_text ?line" by (simp add: passcode_ascii [OF pc] show_dec_ascii)
  then have "is_ascii (bytes_of ?line)" by (simp only: is_ascii_bytes_of)
  moreover have "\<not> length ?line > 255" using port_length [of port] by (simp add: passcode_length [OF pc])
  moreover have "strip_prefix ''PING'' ?line = None" by simp
  ultimately have "handle_command G E (bytes_of ?line) (Some relay) w = bind_command E ?tokens (Some relay) w"
    by (simp only: handle_command_def Let_def text_of_bytes_of bind_line_tokens [OF passcode_token [OF pc]]) simp
  also have "bind_args ?tokens = Ok (pc, port)" using pc by (simp add: bind_args_Ok parse_u16_show_dec)
  ultimately show ?thesis by (simp add: bind_line_def bind_command_def)
qed

text \<open>The service names itself by addresses of its own only.\<close>

lemma service_route_Ok:
  "is_ok (snd (snd (service_route addr relay w))) \<longleftrightarrow> addr = CONNECT_PROXY \<or> addr = DNS_PROXY"
  by (simp add: service_route_def)

lemma proxy_line_tokens:
  assumes "is_token is_whitespace fam" and "is_token is_whitespace addr"
  shows "split_whitespace (''PROXY '' @ fam @ '' TCP '' @ addr @ '' '' @ show_dec (unat port)) =
    [''PROXY'', fam, ''TCP'', addr, show_dec (unat port)]"
proof -
  have "is_token is_whitespace ''PROXY''" "is_token is_whitespace ''TCP''"
    by (simp_all add: is_token_def is_whitespace_def)
  from split_by_token [OF this(1) space_whitespace, of "fam @ CHR '' '' # ''TCP'' @ CHR '' '' # addr @ CHR '' '' # show_dec (unat port)"]
    split_by_token [OF assms(1) space_whitespace, of "''TCP'' @ CHR '' '' # addr @ CHR '' '' # show_dec (unat port)"]
    split_by_token [OF this(2) space_whitespace, of "addr @ CHR '' '' # show_dec (unat port)"]
    split_by_token [OF assms(2) space_whitespace, of "show_dec (unat port)"]
  show ?thesis by (simp add: split_whitespace_def split_by_single [OF show_dec_token])
qed

lemma handle_command_proxy:
  assumes ip: "parse_ip_addr addr = Some ip" and addr: "is_token is_whitespace addr" "ascii_text addr" "length addr \<le> 200"
  shows "handle_command G E (proxy_line ip addr port) (Some relay) w =
    (case service_route (socket_addr_new ip port) relay w of
       (w, es, Inl e) \<Rightarrow> (w, None, es, Err e)
     | (w, es, Inr l) \<Rightarrow> (w, None, es, Ok \<lparr>response = ''PROXY OK'', new_lease = Some l, relay_udp = False\<rparr>))"
proof -
  let ?fam = "if is_ipv6 ip then ''IPV6'' else ''IPV4''"
  let ?line = "''PROXY '' @ ?fam @ '' TCP '' @ addr @ '' '' @ show_dec (unat port)"
  let ?tokens = "[''PROXY'', ?fam, ''TCP'', addr, show_dec (unat port)]"
  have fam: "is_token is_whitespace ?fam" by (simp add: is_token_def is_whitespace_def)
  have "ascii_text ?line" using addr(2) by (simp add: show_dec_ascii)
  then have "is_ascii (bytes_of ?line)" by (simp only: is_ascii_bytes_of)
  moreover have "\<not> length ?line > 255" using port_length [of port] addr(3) by simp
  moreover have "strip_prefix ''PING'' ?line = None" by simp
  ultimately have "handle_command G E (bytes_of ?line) (Some relay) w = proxy_command ?tokens (Some relay) w"
    by (simp only: handle_command_def Let_def text_of_bytes_of proxy_line_tokens [OF fam addr(1)]) simp
  moreover have "proxy_args ?tokens = Ok (socket_addr_new ip port)"
    using ip by (auto simp: proxy_args_Ok parse_u16_show_dec)
  ultimately show ?thesis by (simp add: proxy_line_def proxy_command_def)
qed

lemma handle_command_own_service:
  assumes "parse_ip_addr addr = Some ip" and "is_token is_whitespace addr" and "ascii_text addr" and "length addr \<le> 200"
  shows "handle_command G E (proxy_line ip addr port) (Some relay) w =
    (if ip = V6 PROXY_ADDRESS \<and> port = 8080 then
       (w\<lparr>next_chan := next_chan w + 1\<rparr>, None, [SpawnConnect (next_chan w) relay],
        Ok \<lparr>response = ''PROXY OK'', new_lease = Some (ConnectLease \<lparr>connect_transmit = next_chan w\<rparr>), relay_udp = False\<rparr>)
     else if ip = V6 PROXY_ADDRESS \<and> port = 53 then
       (w\<lparr>next_chan := next_chan w + 1\<rparr>, None, [SpawnDns (next_chan w) relay],
        Ok \<lparr>response = ''PROXY OK'', new_lease = Some (DnsLease \<lparr>dns_transmit = next_chan w\<rparr>), relay_udp = False\<rparr>)
     else (w, None, [], Err (Bail ''Only the proxy's own services can be reached with PROXY'')))"
  unfolding handle_command_proxy [OF assms]
  by (cases ip) (auto simp: service_route_def CONNECT_PROXY_def DNS_PROXY_def)

lemma parse_own_address: "parse_ip_addr ''fd00::1'' = Some (V6 PROXY_ADDRESS)"
  by (simp add: parse_ip_addr_def read_ipv4_addr_def read_ipv6_addr_def read_number_def read_char_def
      read_separator_def to_digit_def is_digit_def digits_val_def PROXY_ADDRESS_def PREFIX_def Let_def replicate_numeral)

lemma own_address_token: "is_token is_whitespace ''fd00::1''"
  by (simp add: is_token_def is_whitespace_def)

section \<open>Properties\<close>

text \<open>For witnesses: a proxy just started, with the counting generator, and after the first \<open>NEWADDR\<close>.\<close>

definition demo_world :: "nat world" where "demo_world = world_new 0"
definition demo_world1 :: "nat world" where
  "demo_world1 = set_network demo_assigned demo_world\<lparr>rng := 17\<rparr>"

lemma demo_world_inv: "world_inv demo_world"
  by (simp add: demo_world_def world_inv_new)

lemma demo_service_assign:
  "service_assign counter_rng env_up demo_world = Some ((demo_address, demo_passcode), demo_world1)"
proof -
  have "rng demo_world = 0" "net_of demo_world = network_new"
    by (simp_all add: demo_world_def world_new_def service_new_def)
  then show ?thesis by (simp add: service_assign_def demo_assign demo_world1_def)
qed

lemma demo_newaddr:
  "handle_command counter_rng env_up (bytes_of ''NEWADDR'') (Some 7) demo_world = (demo_world1, Some 7, [],
     Ok \<lparr>response = ''ADDR '' @ show_ipv6 demo_address @ '' '' @ passcode_fmt demo_passcode,
         new_lease = None, relay_udp = False\<rparr>)"
  by (simp add: handle_command_newaddr newaddr_command_def demo_service_assign)

lemma demo_passcode_wf: "passcode_wf demo_passcode"
  using assign_loop_Some [OF demo_assign [unfolded network_assign_def]] by blast

text \<open>C28. What \<open>NEWADDR\<close> answers is all a client needs: the second word of the reply is an address of the
  private network that parses as such, the third is a passcode, and \<open>BIND\<close> with that passcode
  and any port but 0 succeeds on that address.\<close>

theorem newaddr_then_bind:
  assumes inv: "world_inv w"
    and new: "handle_command G E (bytes_of ''NEWADDR'') relay_tx w = (w', relay', es, Ok r)"
  shows "\<exists>a addr pc. split_whitespace (response r) = [''ADDR'', addr, pc] \<and>
    parse_ip_addr addr = Some (V6 a) \<and> is_network_address a \<and>
    (\<forall>E' port relay. port \<noteq> 0 \<longrightarrow>
      (\<exists>w'' es' egress. handle_command G E' (bind_line pc port) (Some relay) w' =
        (w'', None, es', Ok \<lparr>response = ''BIND OK'',
           new_lease = Some (BindLease \<lparr>bind_key = (a, port), bind_egress = egress\<rparr>), relay_udp = True\<rparr>)))"
proof -
  from new obtain a p where sa: "service_assign G E w = Some ((a, p), w')"
    and r: "response r = ''ADDR '' @ show_ipv6 a @ '' '' @ passcode_fmt p"
    by (auto simp: handle_command_newaddr newaddr_command_def split: if_splits option.splits)
  then obtain r2 t where na: "network_assign G E (rng w) (net_of w) = Some ((a, p), r2, t)"
    and w': "w' = set_network t w\<lparr>rng := r2\<rparr>" by (auto simp: service_assign_def split: option.splits)
  from assign_loop_Some [OF na [unfolded network_assign_def]] have wf: "passcode_wf p" and net: "is_network_address a" by auto
  have toks: "split_whitespace (response r) = [''ADDR'', show_ipv6 a, passcode_fmt p]"
  proof -
    have addr: "is_token is_whitespace ''ADDR''" by (simp add: is_token_def is_whitespace_def)
    from split_by_token [OF addr space_whitespace, of "show_ipv6 a @ CHR '' '' # passcode_fmt p"]
      split_by_token [OF show_ipv6_token space_whitespace, of a "passcode_fmt p"] split_by_single [OF passcode_token [OF wf]]
    show ?thesis by (simp add: r split_whitespace_def)
  qed
  have "\<exists>w'' es' egress. handle_command G E' (bind_line (passcode_fmt p) port) (Some relay) w' =
        (w'', None, es', Ok \<lparr>response = ''BIND OK'',
           new_lease = Some (BindLease \<lparr>bind_key = (a, port), bind_egress = egress\<rparr>), relay_udp = True\<rparr>)"
    if "port \<noteq> 0" for E' port relay
    using bind_after_assign [OF world_inv_network [OF inv] na that, of E' relay "next_chan w'"] w'
    by (auto simp: handle_command_bind [OF wf] service_bind_def split: prod.splits sum.splits)
  moreover have "parse_ip_addr (show_ipv6 a) = Some (V6 a)"
    by (rule parse_show_ipv6 [OF network_not_mapped [OF net]])
  ultimately show ?thesis using toks net by blast
qed

theorem newaddr_then_bind_witness:
  "\<exists>a pc w'' es egress. handle_command counter_rng env_up (bind_line pc 80) (Some 7) demo_world1 =
    (w'', None, es, Ok \<lparr>response = ''BIND OK'',
       new_lease = Some (BindLease \<lparr>bind_key = (a, 80), bind_egress = egress\<rparr>), relay_udp = True\<rparr>)"
proof -
  from newaddr_then_bind [OF demo_world_inv demo_newaddr] obtain a addr pc where
    "\<forall>E' port relay. port \<noteq> 0 \<longrightarrow> (\<exists>w'' es' egress. handle_command counter_rng E' (bind_line pc port) (Some relay) demo_world1 =
        (w'', None, es', Ok \<lparr>response = ''BIND OK'',
           new_lease = Some (BindLease \<lparr>bind_key = (a, port), bind_egress = egress\<rparr>), relay_udp = True\<rparr>))" by blast
  moreover have "(80 :: u16) \<noteq> 0" by simp
  ultimately show ?thesis by metis
qed

text \<open>C36. A command that is answered takes the session's relay exactly when it makes a lease, and a lease
  carries datagrams exactly when it is a bound port. A command with a lease has done to the world what binding the port or routing to the
  service does, and nothing else. Without a lease it leaves no trace but an assignment, and that only if its answer is the address and the
  passcode assigned; so a \<open>PING\<close> changes nothing, nor does a \<open>BIND\<close> that is refused, which can be tried again.\<close>

theorem command_relay_and_lease:
  assumes "handle_command G E raw relay_tx w = (w', relay', es, Ok r)"
  shows "(case new_lease r of
       None \<Rightarrow> relay' = relay_tx \<and> es = [] \<and>
         (w' = w \<or> (\<exists>a pc. service_assign G E w = Some ((a, pc), w') \<and> response r = ''ADDR '' @ show_ipv6 a @ '' '' @ passcode_fmt pc))
     | Some l \<Rightarrow> relay' = None \<and> (\<exists>relay. relay_tx = Some relay \<and>
         ((\<exists>pc port. service_bind E pc port relay w = (w', es, Ok l)) \<or> (\<exists>addr. service_route addr relay w = (w', es, Ok l))))) \<and>
    (relay_udp r \<longleftrightarrow> (\<exists>h. new_lease r = Some (BindLease h))) \<and>
    (response r = ''BIND FAILED'' \<longrightarrow> w' = w \<and> new_lease r = None) \<and>
    ((\<exists>p. response r = ''PONG'' @ p) \<longrightarrow> w' = w \<and> new_lease r = None)"
  using assms service_bind_Err [of E _ _ _ w] handle_command_relay(3) [OF assms]
  by (cases rule: handle_command_cases [of G E raw relay_tx w]) auto

theorem command_relay_and_lease_witness:
  "\<exists>w' relay' es r. handle_command counter_rng env_up (bind_line ''BCDEFGHIJKLMNOPQ'' 80) (Some 7) demo_world = (w', relay', es, Ok r) \<and>
    response r = ''BIND FAILED'' \<and> relay' = Some 7 \<and> w' = demo_world"
proof -
  have pc: "passcode_fmt demo_passcode = ''BCDEFGHIJKLMNOPQ''" by (simp add: demo_passcode_def passcode_fmt_def)
  have none: "hm_get (by_passcode (net_of demo_world)) demo_passcode = None"
    by (simp add: demo_world_def world_new_def service_new_def network_new_def)
  have "snd (snd (network_bind env_up demo_passcode 80 7 (next_chan demo_world) (net_of demo_world))) =
      Err (Bail ''Unknown or expired passcode'')"
    by (simp add: network_bind_def none)
  then obtain w' es e where "service_bind env_up demo_passcode 80 7 demo_world = (w', es, Err e)"
    by (cases "network_bind env_up demo_passcode 80 7 (next_chan demo_world) (net_of demo_world)")
      (auto simp: service_bind_def)
  with handle_command_bind [OF demo_passcode_wf, of counter_rng env_up 80 7 demo_world]
  have h: "handle_command counter_rng env_up (bind_line ''BCDEFGHIJKLMNOPQ'' 80) (Some 7) demo_world =
      (w', Some 7, es, Ok \<lparr>response = ''BIND FAILED'', new_lease = None, relay_udp = False\<rparr>)"
    by (simp add: pc)
  from command_relay_and_lease [OF h] h show ?thesis by simp
qed

text \<open>C39. Every reply is ASCII text, and has no newline if the command had none, so that on a stream of lines
  each command gets exactly one line.\<close>

theorem reply_is_one_line:
  assumes "handle_command G E raw relay_tx w = (w', relay', es, Ok r)"
  shows "is_ascii (bytes_of (response r)) \<and> (10 \<in> set (bytes_of (response r)) \<longrightarrow> 10 \<in> set raw)"
proof -
  have "10 \<in> set raw" if n: "10 \<in> set (bytes_of (response r))"
  proof (rule ccontr)
    assume "10 \<notin> set raw"
    then have nl: "CHR 0x0A \<notin> set (response r)" by (rule handle_command_one_line [OF assms])
    from n obtain c where c: "c \<in> set (response r)" "(10 :: byte) = word_of_nat (of_char c)"
      unfolding bytes_of_def set_map by (auto simp only: image_iff)
    have "of_char c = unat (10 :: byte)" unfolding c(2) by simp
    then have "(of_char c :: nat) = of_char (CHR 0x0A)" by simp
    then have "c = CHR 0x0A" by (simp only: of_char_eq_iff)
    with c nl show False by simp
  qed
  then show ?thesis using handle_command_ascii [OF assms] by (simp add: is_ascii_bytes_of)
qed

theorem reply_is_one_line_witness:
  "is_ascii (bytes_of (''ADDR '' @ show_ipv6 demo_address @ '' '' @ passcode_fmt demo_passcode))"
  using reply_is_one_line [OF demo_newaddr] by simp



text \<open>\<open>PROXY\<close> over TCP with an address that parses reaches the proxy's own services and nothing else: the
  CONNECT proxy at port 8080 and the resolver at port 53 of the proxy's address, each with a task and a
  channel of its own; any other address and port is an error.\<close>

theorem proxy_reaches_own_services:
  assumes "parse_ip_addr addr = Some ip" and "is_token is_whitespace addr" and "ascii_text addr" and "length addr \<le> 200"
  shows "handle_command G E (proxy_line ip addr port) (Some relay) w =
    (if ip = V6 PROXY_ADDRESS \<and> port = 8080 then
       (w\<lparr>next_chan := next_chan w + 1\<rparr>, None, [SpawnConnect (next_chan w) relay],
        Ok \<lparr>response = ''PROXY OK'', new_lease = Some (ConnectLease \<lparr>connect_transmit = next_chan w\<rparr>), relay_udp = False\<rparr>)
     else if ip = V6 PROXY_ADDRESS \<and> port = 53 then
       (w\<lparr>next_chan := next_chan w + 1\<rparr>, None, [SpawnDns (next_chan w) relay],
        Ok \<lparr>response = ''PROXY OK'', new_lease = Some (DnsLease \<lparr>dns_transmit = next_chan w\<rparr>), relay_udp = False\<rparr>)
     else (w, None, [], Err (Bail ''Only the proxy's own services can be reached with PROXY'')))"
  using assms by (rule handle_command_own_service)

theorem proxy_reaches_own_services_witness:
  "fst (snd (snd (handle_command counter_rng env_up (proxy_line (V6 PROXY_ADDRESS) ''fd00::1'' 53) (Some 7) demo_world))) =
    [SpawnDns (next_chan demo_world) 7]"
  using proxy_reaches_own_services [OF parse_own_address own_address_token, of counter_rng env_up 53 7 demo_world] by simp

text \<open>\<open>PING\<close> is answered with \<open>PONG\<close> and the same payload, at any time and without any effect, for every payload
  that fits a command.\<close>

theorem ping_is_echoed:
  assumes "ascii_text payload" and "length payload \<le> 251"
  shows "handle_command G E (bytes_of (''PING'' @ payload)) relay_tx w =
    (w, relay_tx, [], Ok \<lparr>response = ''PONG'' @ payload, new_lease = None, relay_udp = False\<rparr>)"
proof -
  have "is_ascii (bytes_of (''PING'' @ payload))" using assms(1) by (simp add: is_ascii_bytes_of)
  moreover have "strip_prefix ''PING'' (''PING'' @ payload) = Some payload" by (simp add: strip_prefix_Some)
  moreover have "\<not> length (''PING'' @ payload) > 255" using assms(2) by simp
  ultimately show ?thesis by (simp only: handle_command_def Let_def text_of_bytes_of) simp
qed

theorem ping_is_echoed_witness:
  "handle_command counter_rng env_up (bytes_of ''PING 1'') None demo_world =
    (demo_world, None, [], Ok \<lparr>response = ''PONG 1'', new_lease = None, relay_udp = False\<rparr>)"
  using ping_is_echoed [of "'' 1''" counter_rng env_up None demo_world] by simp

end
