(* ===== verification/Session.thy ===== *)
theory Session
  imports Commands
begin

text \<open>
  What the two kinds of session, \<open>src/websocket/client.rs\<close> and \<open>src/webtransport/client.rs\<close>,
  have in common: a session waits for one of several things, does something to its own state
  and to the shared world, hands messages to its transport, and either goes on, or is over
  with \<open>Ok\<close> or an error. When it is over its client is removed from the table and its lease
  is dropped.

  The transports are not under the sources. What a read returned is part of the event of a
  turn; whether the calls that write succeeded is a function \<open>W\<close> from the number of the call
  within the turn.
\<close>

datatype 'm action = Out 'm | Did effect

fun outs :: "'m action list \<Rightarrow> 'm list" where
  "outs [] = []"
| "outs (Out m # as) = m # outs as"
| "outs (Did e # as) = outs as"

fun effects :: "'m action list \<Rightarrow> effect list" where
  "effects [] = []"
| "effects (Out m # as) = effects as"
| "effects (Did e # as) = e # effects as"

lemma outs_append [simp]: "outs (as @ bs) = outs as @ outs bs"
  by (induction as rule: outs.induct) auto

lemma outs_Did [simp]: "outs (map Did es) = []"
  by (induction es) auto

lemma effects_append [simp]: "effects (as @ bs) = effects as @ effects bs"
  by (induction as rule: effects.induct) auto

lemma effects_Did [simp]: "effects (map Did es) = es"
  by (induction es) auto

type_synonym writes_ok = "nat \<Rightarrow> bool"

definition wrote :: "writes_ok \<Rightarrow> nat \<Rightarrow> unit result" where
  "wrote W k = (if W k then Ok () else Err External)"

lemma wrote_simps [simp]: "W k \<Longrightarrow> wrote W k = Ok ()" "\<not> W k \<Longrightarrow> wrote W k = Err External"
  by (simp_all add: wrote_def)

text \<open>What an empty message from the relay may stand for.\<close>

definition lease_ended :: "env \<Rightarrow> lease option \<Rightarrow> bool" where
  "lease_ended E l = (case l of None \<Rightarrow> False | Some l \<Rightarrow> \<not> lease_is_live E l)"

text \<open>Dropping an optional lease, in the world.\<close>

definition drop_lease :: "env \<Rightarrow> lease option \<Rightarrow> 'r world \<Rightarrow> 'r world \<times> effect list" where
  "drop_lease E l w =
     (case l of
        None \<Rightarrow> (w, [])
      | Some l \<Rightarrow> (case lease_drop E l (net_of w) of (s, es) \<Rightarrow> (set_network s w, es)))"

text \<open>
  The end of the task that runs a session: \<open>remove_client\<close> if the session returned, which a
  panic keeps from happening, and then the runner is dropped, and its lease with it.
\<close>

definition session_end ::
  "env \<Rightarrow> client_handle \<Rightarrow> lease option \<Rightarrow> task_end result \<Rightarrow> 'r world \<Rightarrow> 'r world \<times> effect list" where
  "session_end E client l res w =
     drop_lease E l
       (case res of
          Inl e \<Rightarrow> if unwinds e then w else fst (service_remove_client client w)
        | Inr _ \<Rightarrow> fst (service_remove_client client w))"

section \<open>What a turn can do to the world\<close>

text \<open>
  However it is driven, a session changes the shared world in four ways only. The second
  component is the lease the session has at that point; \<open>relay\<close> is the session's channel.
\<close>

inductive session_step :: "'r rng_api \<Rightarrow> chan \<Rightarrow> 'r world \<times> lease option \<Rightarrow> 'r world \<times> lease option \<Rightarrow> bool"
  for G relay where
  assign: "service_assign G E w = Some (ap, w') \<Longrightarrow> session_step G relay (w, None) (w', None)"
| bind: "service_bind E pc port relay w = (w', es, Ok l) \<Longrightarrow> session_step G relay (w, None) (w', Some l)"
| route: "service_route addr relay w = (w', es, Ok l) \<Longrightarrow> session_step G relay (w, None) (w', Some l)"
| lost: "session_step G relay (w, Some l) (fst (drop_lease E (Some l) w), None)"

inductive_cases session_stepE: "session_step G relay x y"

abbreviation session_steps ::
  "'r rng_api \<Rightarrow> chan \<Rightarrow> 'r world \<times> lease option \<Rightarrow> 'r world \<times> lease option \<Rightarrow> bool" where
  "session_steps G relay \<equiv> (session_step G relay)\<^sup>*\<^sup>*"

lemma drop_lease_inv: "world_inv w \<Longrightarrow> world_inv (fst (drop_lease E l w))"
  using lease_drop_inv [of w E] by (auto simp: drop_lease_def split: option.split prod.split) (metis fst_conv)

lemma session_end_inv: "world_inv w \<Longrightarrow> world_inv (fst (session_end E client l res w))"
  by (auto simp: session_end_def intro!: drop_lease_inv remove_client_inv split: sum.split)

lemma session_step_inv: "session_step G relay x y \<Longrightarrow> world_inv (fst x) \<Longrightarrow> world_inv (fst y)"
  by (erule session_stepE) (auto intro: service_assign_inv service_bind_inv service_route_inv drop_lease_inv)

lemma session_steps_inv: "session_steps G relay x y \<Longrightarrow> world_inv (fst x) \<Longrightarrow> world_inv (fst y)"
  by (induction rule: rtranclp_induct) (auto intro: session_step_inv)

text \<open>A command, as such steps.\<close>

lemma handle_command_steps:
  assumes "handle_command G E raw relay_tx w = (w', relay', es, Ok r)" and "relay_tx = None \<or> relay_tx = Some relay"
  shows "session_steps G relay (w, None) (w', new_lease r)"
proof (cases rule: handle_command_cases [of G E raw relay_tx w])
  case (refused c pc port w'' es' e)
  from service_bind_Err [OF refused(2)] have "w'' = w" by simp
  with refused assms show ?thesis by auto
next
  case (newaddr a pc w'')
  with assms have "session_step G relay (w, None) (w', new_lease r)" by (auto intro: session_step.assign)
  then show ?thesis ..
next
  case (proxy c addr w'' es' l)
  with assms have "session_step G relay (w, None) (w', new_lease r)" by (auto intro: session_step.route)
  then show ?thesis ..
next
  case (bind c pc port w'' es' l)
  with assms have "session_step G relay (w, None) (w', new_lease r)" by (auto intro: session_step.bind)
  then show ?thesis ..
qed (use assms in auto)

lemma handle_command_Err:
  assumes "handle_command G E raw relay_tx w = (w', relay', es, Err e)"
  shows "w' = w"
  using assms by (cases rule: handle_command_cases [of G E raw relay_tx w]) auto

text \<open>No handler of a lease panics on what a client sends.\<close>

lemma lease_send_unwinds: "lease_send B E l d s = (es, Err e) \<Longrightarrow> \<not> unwinds e"
proof (cases l)
  case (BindLease h)
  have "frame_encode B f = Err e' \<Longrightarrow> \<not> unwinds e'" for f e' by (auto simp: frame_encode_def Let_def split: if_splits)
  moreover assume "lease_send B E l d s = (es, Err e)"
  ultimately show ?thesis using BindLease
    by (auto simp: bind_send_def Let_def network_deliver_def egress_send_def split: result_splits ip_addr.splits)
qed (auto simp: connect_send_def dns_send_def chan_send_def split: if_splits)

end
