(* ===== verification/Web_Socket.thy ===== *)
theory Web_Socket
  imports Session
begin

text \<open>
  \<open>src/websocket/client.rs\<close>: a session over a WebSocket. \<open>ws_turn\<close> is one turn of the loop of
  \<open>run_client\<close>, with what \<open>select!\<close> found ready as its event. The messages are those of
  \<open>tungstenite\<close>.
\<close>

section \<open>Messages\<close>

datatype close_code = Normal | OtherCode u16

record close_frame =
  close_code :: close_code
  close_reason :: string

datatype ws_message =
    WsText bytes
  | WsBinary bytes
  | WsPing bytes
  | WsPong bytes
  | WsClose "close_frame option"
  | WsFrame

text \<open>What the writer is asked for: to send a message, and to close.\<close>

datatype ws_out = WsSend ws_message | WsCloseWriter

datatype ws_event =
    WsRead "ws_message result option"
  | WsRelay "bytes option"

definition done_frame :: close_frame where
  "done_frame = \<lparr>close_code = Normal, close_reason = ''Done''\<rparr>"

section \<open>State\<close>

record ws_session =
  ws_relay :: "chan option"
  ws_lease :: "lease option"

text \<open>
  The beginning of \<open>run\<close>: the address of the peer, which the operating system no longer knows if the connection is
  already gone, and the entry in the table of clients.
\<close>

definition ws_begin :: "socket_addr result \<Rightarrow> 'r world \<Rightarrow> 'r world \<times> client_handle result" where
  "ws_begin peer w =
     (case peer of
        Inl e \<Rightarrow> (w, Err (Panic ''called `Result::unwrap()` on an `Err` value''))
      | Inr remote \<Rightarrow> (case service_new_client remote w of (w, h) \<Rightarrow> (w, Ok h)))"

lemma ws_begin_Ok:
  "ws_begin peer w = (w', Ok h) \<longleftrightarrow> (\<exists>remote. peer = Ok remote \<and> service_new_client remote w = (w', h))"
  by (cases peer) (simp_all add: ws_begin_def split: prod.split)

lemma ws_begin_Err: "ws_begin peer w = (w', Err e) \<Longrightarrow> w' = w \<and> (\<exists>x. peer = Err x)"
  by (cases peer) (simp_all add: ws_begin_def split: prod.splits)

text \<open>
  The handshake of \<open>run_inner\<close>: TLS on a listener that has a certificate, then the upgrade to a
  WebSocket; \<open>tls\<close> and \<open>upgrade\<close> are what the two accepts return.
\<close>

definition ws_handshake :: "bool \<Rightarrow> unit result \<Rightarrow> unit result \<Rightarrow> unit result" where
  "ws_handshake secure tls upgrade = (if secure then and_then tls (\<lambda>_. upgrade) else upgrade)"

text \<open>After the handshake: the sender of the channel whose receiver the loop holds.\<close>

definition ws_new :: "chan \<Rightarrow> ws_session" where
  "ws_new relay = \<lparr>ws_relay = Some relay, ws_lease = None\<rparr>"

type_synonym 'r ws_outcome = "'r world \<times> ws_session \<times> ws_out action list \<times> task_end result"

section \<open>Handlers\<close>

definition ws_handle_datagram ::
  "buf_api \<Rightarrow> env \<Rightarrow> ws_session \<Rightarrow> bytes \<Rightarrow> 'r world \<Rightarrow> 'r ws_outcome" where
  "ws_handle_datagram B E st d w =
     (case ws_lease st of
        Some l \<Rightarrow>
          (case lease_send B E l d (net_of w) of
             (es, Inl e) \<Rightarrow> (w, st, map Did es, Err e)
           | (es, Inr _) \<Rightarrow> (w, st, map Did es, Ok Waiting))
      | None \<Rightarrow> (w, st, [], Err (Bail ''Datagram without target'')))"

text \<open>
  The command of a text message. If the reply cannot be sent, the result is dropped with the
  lease it may hold.
\<close>

definition ws_handle_text ::
  "'r rng_api \<Rightarrow> env \<Rightarrow> writes_ok \<Rightarrow> ws_session \<Rightarrow> bytes \<Rightarrow> 'r world \<Rightarrow> 'r ws_outcome" where
  "ws_handle_text G E W st cmd w =
     (if ws_lease st \<noteq> None then (w, st, [], Err (Bail ''Command sent at improper time''))
      else case handle_command G E cmd (ws_relay st) w of
        (w, relay, es, Inl e) \<Rightarrow> (w, st\<lparr>ws_relay := relay\<rparr>, map Did es, Err e)
      | (w, relay, es, Inr r) \<Rightarrow>
          (case wrote W 0 of
             Inl e \<Rightarrow> (case drop_lease E (new_lease r) w of
                 (w, es') \<Rightarrow> (w, st\<lparr>ws_relay := relay\<rparr>, map Did (es @ es'), Err e))
           | Inr _ \<Rightarrow> (w, st\<lparr>ws_relay := relay, ws_lease := new_lease r\<rparr>,
               map Did es @ [Out (WsSend (WsText (bytes_of (response r))))], Ok Waiting)))"

text \<open>Sending one message, and what the loop does then.\<close>

definition ws_reply :: "writes_ok \<Rightarrow> ws_message \<Rightarrow> task_end \<Rightarrow> ws_session \<Rightarrow> 'r world \<Rightarrow> 'r ws_outcome" where
  "ws_reply W m next st w =
     (case wrote W 0 of
        Inl e \<Rightarrow> (w, st, [], Err e)
      | Inr _ \<Rightarrow> (w, st, [Out (WsSend m)], Ok next))"

fun ws_handle_message ::
  "'r rng_api \<Rightarrow> buf_api \<Rightarrow> env \<Rightarrow> writes_ok \<Rightarrow> ws_message \<Rightarrow> ws_session \<Rightarrow> 'r world \<Rightarrow> 'r ws_outcome" where
  "ws_handle_message G B E W (WsText cmd) st w = ws_handle_text G E W st cmd w"
| "ws_handle_message G B E W (WsBinary d) st w = ws_handle_datagram B E st d w"
| "ws_handle_message G B E W (WsPing d) st w = ws_reply W (WsPong d) Waiting st w"
| "ws_handle_message G B E W (WsPong d) st w = (w, st, [], Ok Waiting)"
| "ws_handle_message G B E W (WsClose (Some f)) st w = ws_reply W (WsClose (Some f)) Returned st w"
| "ws_handle_message G B E W (WsClose None) st w = ws_reply W (WsClose (Some done_frame)) Returned st w"
| "ws_handle_message G B E W WsFrame st w = (w, st, [], Err (Panic ''Unexpected frame''))"

text \<open>The two ends that say \<open>Done\<close>: a close frame, and the writer closed.\<close>

definition ws_done :: "writes_ok \<Rightarrow> ws_session \<Rightarrow> 'r world \<Rightarrow> 'r ws_outcome" where
  "ws_done W st w =
     (case wrote W 0 of
        Inl e \<Rightarrow> (w, st, [], Err e)
      | Inr _ \<Rightarrow>
          (case wrote W 1 of
             Inl e \<Rightarrow> (w, st, [Out (WsSend (WsClose (Some done_frame)))], Err e)
           | Inr _ \<Rightarrow> (w, st, [Out (WsSend (WsClose (Some done_frame))), Out WsCloseWriter], Ok Returned)))"

section \<open>The loop\<close>

fun ws_turn ::
  "'r rng_api \<Rightarrow> buf_api \<Rightarrow> env \<Rightarrow> writes_ok \<Rightarrow> ws_event \<Rightarrow> ws_session \<Rightarrow> 'r world \<Rightarrow> 'r ws_outcome" where
  "ws_turn G B E W (WsRead (Some (Inr m))) st w = ws_handle_message G B E W m st w"
| "ws_turn G B E W (WsRead (Some (Inl e))) st w = (w, st, [], Err e)"
| "ws_turn G B E W (WsRead None) st w = (w, st, [], Err (Bail ''Already closed?''))"
| "ws_turn G B E W (WsRelay (Some d)) st w =
     (if length d = 0 \<and> lease_ended E (ws_lease st) then ws_done W st w
      else ws_reply W (WsBinary d) Waiting st w)"
| "ws_turn G B E W (WsRelay None) st w = ws_done W st w"

text \<open>What \<open>tungstenite\<close> documents of its reader: no raw frame comes out of it. An error it returns is a value.\<close>

fun ws_event_ok :: "ws_event \<Rightarrow> bool" where
  "ws_event_ok (WsRead (Some (Inr WsFrame))) = False"
| "ws_event_ok (WsRead (Some (Inl e))) = (\<not> unwinds e)"
| "ws_event_ok _ = True"

text \<open>
  A session on its own: turns until it ends or the list does. Each turn comes with what its
  calls return.
\<close>

fun ws_run ::
  "'r rng_api \<Rightarrow> buf_api \<Rightarrow> (env \<times> writes_ok \<times> ws_event) list \<Rightarrow> ws_session \<Rightarrow> 'r world \<Rightarrow> 'r ws_outcome" where
  "ws_run G B [] st w = (w, st, [], Ok Waiting)"
| "ws_run G B ((E, W, ev) # evs) st w =
     (case ws_turn G B E W ev st w of
        (w, st, as, Inr Waiting) \<Rightarrow>
          (case ws_run G B evs st w of (w, st, as', res) \<Rightarrow> (w, st, as @ as', res))
      | (w, st, as, res) \<Rightarrow> (w, st, as, res))"

section \<open>What a session keeps\<close>

text \<open>While it goes on, it has its relay sender or a lease it was given for it, and not both.\<close>

definition ws_inv :: "ws_session \<Rightarrow> bool" where
  "ws_inv st = (ws_lease st = None \<longleftrightarrow> ws_relay st \<noteq> None)"

lemma ws_inv_new: "ws_inv (ws_new relay)"
  by (simp add: ws_inv_def ws_new_def)

lemma ws_reply_facts:
  assumes "ws_reply W m next st w = (w', st', as, res)"
  shows "w' = w" "st' = st" "res = Err e \<Longrightarrow> \<not> unwinds e"
  using assms by (auto simp: ws_reply_def wrote_def split: if_splits)

lemma ws_done_facts:
  assumes "ws_done W st w = (w', st', as, res)"
  shows "w' = w" "st' = st" "res = Err e \<Longrightarrow> \<not> unwinds e" "res \<noteq> Ok Waiting"
  using assms by (auto simp: ws_done_def wrote_def split: if_splits)

lemma ws_datagram_facts:
  assumes "ws_handle_datagram B E st d w = (w', st', as, res)"
  shows "w' = w" "st' = st" "res = Err e \<Longrightarrow> \<not> unwinds e"
  using assms by (auto simp: ws_handle_datagram_def split: option.splits sum.splits prod.splits dest: lease_send_unwinds)

text \<open>A text message, in each of its outcomes.\<close>

lemma ws_text_cases:
  obtains
    (early) l where "ws_lease st = Some l"
      "ws_handle_text G E W st cmd w = (w, st, [], Err (Bail ''Command sent at improper time''))"
  | (error) w' relay es e where "ws_lease st = None"
      "handle_command G E cmd (ws_relay st) w = (w', relay, es, Err e)"
      "ws_handle_text G E W st cmd w = (w', st\<lparr>ws_relay := relay\<rparr>, map Did es, Err e)"
  | (unsent) w' relay es r w'' es' where "ws_lease st = None"
      "handle_command G E cmd (ws_relay st) w = (w', relay, es, Ok r)"
      "drop_lease E (new_lease r) w' = (w'', es')"
      "ws_handle_text G E W st cmd w = (w'', st\<lparr>ws_relay := relay\<rparr>, map Did (es @ es'), Err External)"
  | (answered) w' relay es r where "ws_lease st = None"
      "handle_command G E cmd (ws_relay st) w = (w', relay, es, Ok r)"
      "ws_handle_text G E W st cmd w = (w', st\<lparr>ws_relay := relay, ws_lease := new_lease r\<rparr>,
         map Did es @ [Out (WsSend (WsText (bytes_of (response r))))], Ok Waiting)"
proof (cases "ws_lease st")
  case None
  obtain w' relay es res where h: "handle_command G E cmd (ws_relay st) w = (w', relay, es, res)" by (rule prod_cases4)
  show thesis
  proof (cases res)
    case (Inl e)
    from error [OF None h [unfolded Inl]] None h Inl show ?thesis by (simp add: ws_handle_text_def)
  next
    case (Inr r)
    obtain w'' es' where d: "drop_lease E (new_lease r) w' = (w'', es')" by fastforce
    from unsent [OF None h [unfolded Inr] d] answered [OF None h [unfolded Inr]] None h Inr d show ?thesis
      by (cases "W 0") (simp_all add: ws_handle_text_def)
  qed
next
  case (Some l)
  with early [OF Some] show thesis by (simp add: ws_handle_text_def)
qed

lemma ws_text_steps:
  assumes "ws_handle_text G E W st cmd w = (w', st', as, res)" and "ws_relay st = None \<or> ws_relay st = Some relay"
  shows "session_steps G relay (w, ws_lease st) (w', ws_lease st')"
proof (cases rule: ws_text_cases [of st G E W cmd w])
  case (error w1 relay' es e)
  with assms(1) handle_command_Err [OF error(2)] show ?thesis by auto
next
  case (answered w1 relay' es r)
  with assms(1) handle_command_steps [OF answered(2) assms(2)] show ?thesis by auto
next
  case (unsent w1 relay' es r w2 es')
  have "session_steps G relay (w1, new_lease r) (w2, None)"
  proof (cases "new_lease r")
    case (Some l)
    with unsent(3) session_step.lost [of G relay w1 l E] show ?thesis by auto
  qed (use unsent(3) in \<open>simp add: drop_lease_def\<close>)
  with handle_command_steps [OF unsent(2) assms(2)] unsent(1,4) assms(1) show ?thesis by auto
qed (use assms in auto)

lemma ws_text_inv:
  assumes "ws_handle_text G E W st cmd w = (w', st', as, Ok c)" and "ws_inv st"
  shows "ws_inv st'"
proof (cases rule: ws_text_cases [of st G E W cmd w])
  case (answered w1 relay' es r)
  with handle_command_relay(1,2) [OF answered(2)] assms show ?thesis by (auto simp: ws_inv_def split: if_splits)
qed (use assms in auto)

lemma ws_text_unwinds:
  assumes "ws_handle_text G E W st cmd w = (w', st', as, Err e)" and "unwinds e"
  shows "e = Diverges \<and> service_assign G E w = None"
proof (cases rule: ws_text_cases [of st G E W cmd w])
  case (error w1 relay' es e')
  with handle_command_unwinds [OF error(2)] assms show ?thesis by auto
qed (use assms in auto)

text \<open>A turn: the four ways of a session, its own invariant, and no panic.\<close>

lemma ws_turn_facts:
  assumes t: "ws_turn G B E W ev st w = (w', st', as, res)"
  shows "ws_relay st = None \<or> ws_relay st = Some relay \<Longrightarrow> session_steps G relay (w, ws_lease st) (w', ws_lease st')"
    and "ws_inv st \<Longrightarrow> res = Ok c \<Longrightarrow> ws_inv st'"
    and "res = Err e \<Longrightarrow> unwinds e \<Longrightarrow> ev = WsRead (Some (Ok WsFrame)) \<or> ev = WsRead (Some (Err e)) \<or>
      e = Diverges \<and> service_assign G E w = None"
proof -
  have "(ws_relay st = None \<or> ws_relay st = Some relay \<longrightarrow> session_steps G relay (w, ws_lease st) (w', ws_lease st')) \<and>
    (ws_inv st \<longrightarrow> res = Ok c \<longrightarrow> ws_inv st') \<and>
    (res = Err e \<longrightarrow> unwinds e \<longrightarrow> ev = WsRead (Some (Ok WsFrame)) \<or> ev = WsRead (Some (Err e)) \<or>
      e = Diverges \<and> service_assign G E w = None)"
  proof (cases "(G, B, E, W, ev, st, w)" rule: ws_turn.cases)
    case (1 G' B' E' W' m st0 w0)
    then have m: "ws_handle_message G B E W m st w = (w', st', as, res)" using t by simp
    show ?thesis
    proof (cases "(G, B, E, W, m, st, w)" rule: ws_handle_message.cases)
      case (1 G'' B'' E'' W'' cmd)
      with m have x: "ws_handle_text G E W st cmd w = (w', st', as, res)" by simp
      show ?thesis
        using ws_text_steps [OF x, of relay] ws_text_inv [OF x [THEN trans]] ws_text_unwinds [of G E W st cmd w w' st' as e] x
        by (cases res) auto
    next
      case (2 G'' B'' E'' W'' d)
      with m have "ws_handle_datagram B E st d w = (w', st', as, res)" by simp
      from ws_datagram_facts [OF this] show ?thesis by auto
    qed (use m 1 in \<open>auto dest: ws_reply_facts\<close>)
  next
    case (4 G' B' E' W' d st0 w0)
    then show ?thesis using t by (auto split: if_splits dest: ws_done_facts ws_reply_facts)
  next
    case (5 G' B' E' W' st0 w0)
    then show ?thesis using t by (auto dest: ws_done_facts)
  qed (use t in auto)
  then show "ws_relay st = None \<or> ws_relay st = Some relay \<Longrightarrow> session_steps G relay (w, ws_lease st) (w', ws_lease st')"
    and "ws_inv st \<Longrightarrow> res = Ok c \<Longrightarrow> ws_inv st'"
    and "res = Err e \<Longrightarrow> unwinds e \<Longrightarrow> ev = WsRead (Some (Ok WsFrame)) \<or> ev = WsRead (Some (Err e)) \<or>
      e = Diverges \<and> service_assign G E w = None"
    by blast+
qed

section \<open>Properties\<close>

text \<open>What the network or a service relays to a client over a WebSocket reaches it unchanged, one binary
  message each, in order and without loss, for as long as the client can be written to.\<close>

theorem ws_relays_in_order:
  assumes "\<forall>(E, W, d) \<in> set ds. W 0 \<and> d \<noteq> []"
  shows "ws_run G B (map (\<lambda>(E, W, d). (E, W, WsRelay (Some d))) ds) st w =
    (w, st, map (\<lambda>(E, W, d). Out (WsSend (WsBinary d))) ds, Ok Waiting)"
  using assms
proof (induction ds)
  case (Cons x ds)
  obtain E W d where "x = (E, W, d)" by (cases x)
  with Cons show ?case by (simp add: ws_reply_def)
qed simp

theorem ws_relays_in_order_witness:
  "outs (fst (snd (snd (ws_run counter_rng be_buf [(env_up, \<lambda>_. True, WsRelay (Some [1])), (env_up, \<lambda>_. True, WsRelay (Some [2]))]
      (ws_new 7) demo_world)))) = [WsSend (WsBinary [1]), WsSend (WsBinary [2])]"
  using ws_relays_in_order [of "[(env_up, \<lambda>_. True, [1]), (env_up, \<lambda>_. True, [2])]" counter_rng be_buf "ws_new 7" demo_world]
  by simp



end
