(* ===== verification/Web_Transport.thy ===== *)
theory Web_Transport
  imports Session
begin

text \<open>
  \<open>src/webtransport/client.rs\<close>: a session over WebTransport. \<open>wt_turn\<close> is one turn of the
  loop of \<open>handle_session\<close>. Commands come over one bidirectional stream, a line each; what
  is relayed goes over the stream or, for a bound port, in datagrams.
\<close>

section \<open>State\<close>

text \<open>What the session writes: bytes on its stream, or a datagram.\<close>

datatype wt_out = WriteStream bytes | SendDatagram bytes

text \<open>
  \<open>wt_send\<close> and \<open>wt_recv\<close> say whether the runner's \<open>send\<close> and the loop's \<open>recv\<close> are \<open>Some\<close>.
\<close>

record wt_session =
  wt_lease :: "lease option"
  wt_send :: bool
  wt_recv :: bool
  wt_relay :: "chan option"
  wt_udp :: bool
  wt_cmdbuf :: bytes

definition wt_new :: "chan \<Rightarrow> wt_session" where
  "wt_new relay = \<lparr>wt_lease = None, wt_send = False, wt_recv = False, wt_relay = Some relay,
     wt_udp = False, wt_cmdbuf = []\<rparr>"

type_synonym ('r, 'a) wt_outcome = "'r world \<times> wt_session \<times> wt_out action list \<times> 'a result"

section \<open>The command stream\<close>

definition wt_relay_stream ::
  "buf_api \<Rightarrow> env \<Rightarrow> wt_session \<Rightarrow> bytes \<Rightarrow> 'r world \<Rightarrow> ('r, unit) wt_outcome" where
  "wt_relay_stream B E st d w =
     (if d = [] then (w, st, [], Ok ())
      else if wt_udp st then (w, st, [], Err (Bail ''Got data on a datagram-only session''))
      else case wt_lease st of
        None \<Rightarrow> (w, st, [], Err (Panic ''called `Option::unwrap()` on a `None` value''))
      | Some l \<Rightarrow> (case lease_send B E l d (net_of w) of (es, r) \<Rightarrow> (w, st, map Did es, r)))"

text \<open>The two \<open>write_all\<close> of a reply, the second being the newline.\<close>

definition wt_reply :: "writes_ok \<Rightarrow> nat \<Rightarrow> wt_session \<Rightarrow> string \<Rightarrow> wt_out action list \<times> unit result" where
  "wt_reply W k st reply =
     (if \<not> wt_send st then ([], Err (Panic ''called `Option::unwrap()` on a `None` value''))
      else case wrote W (2 * k) of
        Inl e \<Rightarrow> ([], Err e)
      | Inr _ \<Rightarrow>
          (case wrote W (2 * k + 1) of
             Inl e \<Rightarrow> ([Out (WriteStream (bytes_of reply))], Err e)
           | Inr _ \<Rightarrow> ([Out (WriteStream (bytes_of reply)), Out (WriteStream [10])], Ok ())))"

text \<open>
  The \<open>while\<close> of \<open>handle_data\<close>, and the line after it. \<open>k\<close> counts the commands of the turn:
  \<open>T k\<close> is what the calls of the \<open>k\<close>th return.
\<close>

function wt_commands ::
  "'r rng_api \<Rightarrow> buf_api \<Rightarrow> (nat \<Rightarrow> env) \<Rightarrow> writes_ok \<Rightarrow> nat \<Rightarrow> wt_session \<Rightarrow> 'r world \<Rightarrow> ('r, unit) wt_outcome" where
  "wt_commands G B T W k st w =
     (if wt_lease st \<noteq> None
      then wt_relay_stream B (T k) (st\<lparr>wt_cmdbuf := []\<rparr>) (wt_cmdbuf st) w
      else case position (\<lambda>b. b = 10) (wt_cmdbuf st) of
        None \<Rightarrow>
          if length (wt_cmdbuf st) \<ge> MAX_COMMAND_SIZE
          then (w, st, [], Err (Bail ''Command grew too large in buffer''))
          else (w, st, [], Ok ())
      | Some nlpos \<Rightarrow>
          (case handle_command G (T k) (take nlpos (wt_cmdbuf st)) (wt_relay st) w of
             (w, relay, es, Inl e) \<Rightarrow>
               (w, st\<lparr>wt_cmdbuf := drop (nlpos + 1) (wt_cmdbuf st), wt_relay := relay\<rparr>, map Did es, Err e)
           | (w, relay, es, Inr r) \<Rightarrow>
               (let st = st\<lparr>wt_cmdbuf := drop (nlpos + 1) (wt_cmdbuf st), wt_relay := relay\<rparr>;
                    st = (if new_lease r \<noteq> None
                          then st\<lparr>wt_lease := new_lease r, wt_udp := relay_udp r\<rparr> else st)
                in case wt_reply W k st (response r) of
                     (as, Inl e) \<Rightarrow> (w, st, map Did es @ as, Err e)
                   | (as, Inr _) \<Rightarrow>
                       (case wt_commands G B T W (Suc k) st w of
                          (w, st, as', res) \<Rightarrow> (w, st, map Did es @ as @ as', res)))))"
  by pat_completeness auto
termination
  by (relation "measure (\<lambda>(G, B, T, W, k, st, w). length (wt_cmdbuf st))")
    (auto simp: position_Some split: if_splits)

declare wt_commands.simps [simp del]

definition wt_handle_data ::
  "'r rng_api \<Rightarrow> buf_api \<Rightarrow> (nat \<Rightarrow> env) \<Rightarrow> writes_ok \<Rightarrow> wt_session \<Rightarrow> bytes \<Rightarrow> 'r world \<Rightarrow> ('r, unit) wt_outcome" where
  "wt_handle_data G B T W st d w =
     (if wt_lease st \<noteq> None then wt_relay_stream B (T 0) st d w
      else wt_commands G B T W 0 (st\<lparr>wt_cmdbuf := wt_cmdbuf st @ d\<rparr>) w)"

section \<open>Datagrams and the relay\<close>

definition wt_handle_datagram ::
  "buf_api \<Rightarrow> env \<Rightarrow> wt_session \<Rightarrow> bytes \<Rightarrow> 'r world \<Rightarrow> ('r, unit) wt_outcome" where
  "wt_handle_datagram B E st d w =
     (case wt_lease st of
        None \<Rightarrow> (w, st, [], Ok ())
      | Some l \<Rightarrow>
          if \<not> wt_udp st then (w, st, [], Err (Bail ''Got datagram on relay expected to be reliable''))
          else (case lease_send B E l d (net_of w) of (es, r) \<Rightarrow> (w, st, map Did es, r)))"

definition wt_handle_relay ::
  "env \<Rightarrow> writes_ok \<Rightarrow> wt_session \<Rightarrow> bytes option \<Rightarrow> (wt_out action list \<times> unit result)" where
  "wt_handle_relay E W st r =
     (case r of
        None \<Rightarrow> ([], Err (Bail ''Relay closed''))
      | Some d \<Rightarrow>
          if length d = 0 then
            (if lease_ended E (wt_lease st) then ([], Err (Bail ''Lease ended'')) else ([], Ok ()))
          else if wt_udp st then
            (case wrote W 0 of Inl e \<Rightarrow> ([], Err e) | Inr _ \<Rightarrow> ([Out (SendDatagram d)], Ok ()))
          else if \<not> wt_send st then ([], Err (Panic ''called `Option::unwrap()` on a `None` value''))
          else (case wrote W 0 of Inl e \<Rightarrow> ([], Err e) | Inr _ \<Rightarrow> ([Out (WriteStream d)], Ok ())))"

section \<open>The loop\<close>

text \<open>
  What \<open>select!\<close> finds ready: a stream accepted, of either kind, the bytes \<open>fill_buf\<close> has, a
  datagram, a message from the relay. The branch that reads the stream is disabled
  while there is none.
\<close>

datatype wt_event =
    AcceptBi "unit result"
  | AcceptUni "unit result"
  | FillBuf "bytes result"
  | ReadDatagram "bytes result"
  | WtRelay "bytes option"

fun wt_enabled :: "wt_session \<Rightarrow> wt_event \<Rightarrow> bool" where
  "wt_enabled st (FillBuf r) = wt_recv st"
| "wt_enabled st _ = True"

fun wt_turn ::
  "'r rng_api \<Rightarrow> buf_api \<Rightarrow> (nat \<Rightarrow> env) \<Rightarrow> writes_ok \<Rightarrow> wt_event \<Rightarrow> wt_session \<Rightarrow> 'r world \<Rightarrow> ('r, unit) wt_outcome" where
  "wt_turn G B T W (AcceptBi r) st w =
     (if wt_send st \<or> wt_recv st then (w, st, [], Err (Bail ''Not expecting multiple streams''))
      else case r of
        Inl e \<Rightarrow> (w, st, [], Err e)
      | Inr _ \<Rightarrow> (w, st\<lparr>wt_send := True, wt_recv := True\<rparr>, [], Ok ()))"
| "wt_turn G B T W (AcceptUni r) st w =
     (case r of
        Inl e \<Rightarrow> (w, st, [], Err e)
      | Inr _ \<Rightarrow> (w, st, [], Err (Bail ''Not expecting unidirectional stream'')))"
| "wt_turn G B T W (FillBuf r) st w =
     (case r of
        Inl e \<Rightarrow> (w, st, [], Err e)
      | Inr d \<Rightarrow>
          if length d = 0 then (w, st\<lparr>wt_recv := False\<rparr>, [], Ok ())
          else wt_handle_data G B T W st d w)"
| "wt_turn G B T W (ReadDatagram r) st w =
     (case r of
        Inl e \<Rightarrow> (w, st, [], Err e)
      | Inr d \<Rightarrow> wt_handle_datagram B (T 0) st d w)"
| "wt_turn G B T W (WtRelay r) st w =
     (case wt_handle_relay (T 0) W st r of (as, res) \<Rightarrow> (w, st, as, res))"

fun wt_run ::
  "'r rng_api \<Rightarrow> buf_api \<Rightarrow> ((nat \<Rightarrow> env) \<times> writes_ok \<times> wt_event) list \<Rightarrow> wt_session \<Rightarrow> 'r world \<Rightarrow> ('r, unit) wt_outcome" where
  "wt_run G B [] st w = (w, st, [], Ok ())"
| "wt_run G B ((T, W, ev) # evs) st w =
     (if wt_enabled st ev then
        (case wt_turn G B T W ev st w of
           (w, st, as, Inl e) \<Rightarrow> (w, st, as, Err e)
         | (w, st, as, Inr _) \<Rightarrow>
             (case wt_run G B evs st w of (w, st, as', res) \<Rightarrow> (w, st, as @ as', res)))
      else wt_run G B evs st w)"

section \<open>What a session keeps\<close>

text \<open>
  \<open>wt_core\<close> holds at every await of a turn, \<open>wt_inv\<close> between turns: a session has its relay
  sender or a lease; only a session with a stream has a lease or a partial command; it sends
  datagrams exactly on a bound port; and what it buffers is less than a command.
\<close>

definition wt_core :: "wt_session \<Rightarrow> bool" where
  "wt_core st =
     ((wt_lease st = None \<longleftrightarrow> wt_relay st \<noteq> None) \<and>
      (wt_udp st \<longleftrightarrow> (\<exists>h. wt_lease st = Some (BindLease h))))"

definition wt_buffered :: "wt_session \<Rightarrow> bool" where
  "wt_buffered st =
     (if wt_lease st = None then 10 \<notin> set (wt_cmdbuf st) \<and> length (wt_cmdbuf st) < MAX_COMMAND_SIZE
      else wt_cmdbuf st = [])"

definition wt_inv :: "wt_session \<Rightarrow> bool" where
  "wt_inv st =
     (wt_core st \<and> wt_buffered st \<and> (wt_recv st \<longrightarrow> wt_send st) \<and> (wt_lease st \<noteq> None \<longrightarrow> wt_send st))"

lemma wt_inv_new: "wt_inv (wt_new relay)"
  by (simp add: wt_inv_def wt_core_def wt_buffered_def wt_new_def MAX_COMMAND_SIZE_def)

lemma wt_relay_stream_facts:
  assumes "wt_relay_stream B E st d w = (w', st', as, res)"
  shows "w' = w" "st' = st" "outs as = []" "wt_lease st \<noteq> None \<Longrightarrow> res = Err e \<Longrightarrow> \<not> unwinds e"
  using assms by (auto simp: wt_relay_stream_def split: if_splits option.splits prod.splits dest: lease_send_unwinds)

lemma wt_reply_Err: "wt_reply W k st reply = (as, Err e) \<Longrightarrow> wt_send st \<Longrightarrow> e = External"
  by (auto simp: wt_reply_def wrote_def split: if_splits)

lemma wt_reply_Ok:
  "wt_reply W k st reply = (as, Ok ()) \<Longrightarrow> as = [Out (WriteStream (bytes_of reply)), Out (WriteStream [10])]"
  by (auto simp: wt_reply_def wrote_def split: if_splits)

lemma wt_reply_effects: "wt_reply W k st reply = (as, res) \<Longrightarrow> effects as = []"
  by (auto simp: wt_reply_def wrote_def split: if_splits)

text \<open>The session after a command that was answered.\<close>

definition wt_after :: "wt_session \<Rightarrow> nat \<Rightarrow> chan option \<Rightarrow> command_result \<Rightarrow> wt_session" where
  "wt_after st nlpos relay r =
     (let st = st\<lparr>wt_cmdbuf := drop (nlpos + 1) (wt_cmdbuf st), wt_relay := relay\<rparr>
      in if new_lease r \<noteq> None then st\<lparr>wt_lease := new_lease r, wt_udp := relay_udp r\<rparr> else st)"

lemma wt_after_simps [simp]:
  "wt_lease (wt_after st n relay r) = (if new_lease r = None then wt_lease st else new_lease r)"
  "wt_udp (wt_after st n relay r) = (if new_lease r = None then wt_udp st else relay_udp r)"
  "wt_relay (wt_after st n relay r) = relay"
  "wt_cmdbuf (wt_after st n relay r) = drop (n + 1) (wt_cmdbuf st)"
  "wt_send (wt_after st n relay r) = wt_send st"
  "wt_recv (wt_after st n relay r) = wt_recv st"
  by (simp_all add: wt_after_def Let_def)

text \<open>One round of the loop, in each of its ways.\<close>

lemma wt_commands_leased:
  "wt_lease st \<noteq> None \<Longrightarrow>
     wt_commands G B T W k st w = wt_relay_stream B (T k) (st\<lparr>wt_cmdbuf := []\<rparr>) (wt_cmdbuf st) w"
  by (simp add: wt_commands.simps)

lemma wt_commands_partial:
  "wt_lease st = None \<Longrightarrow> position (\<lambda>b. b = 10) (wt_cmdbuf st) = None \<Longrightarrow>
     wt_commands G B T W k st w =
       (w, st, [], if length (wt_cmdbuf st) \<ge> MAX_COMMAND_SIZE
                   then Err (Bail ''Command grew too large in buffer'') else Ok ())"
  by (simp add: wt_commands.simps)

lemma wt_commands_error:
  "wt_lease st = None \<Longrightarrow> position (\<lambda>b. b = 10) (wt_cmdbuf st) = Some n \<Longrightarrow>
   handle_command G (T k) (take n (wt_cmdbuf st)) (wt_relay st) w = (w', relay, es, Err e) \<Longrightarrow>
     wt_commands G B T W k st w =
       (w', st\<lparr>wt_cmdbuf := drop (n + 1) (wt_cmdbuf st), wt_relay := relay\<rparr>, map Did es, Err e)"
  by (simp add: wt_commands.simps)

lemma wt_commands_answer:
  "wt_lease st = None \<Longrightarrow> position (\<lambda>b. b = 10) (wt_cmdbuf st) = Some n \<Longrightarrow>
   handle_command G (T k) (take n (wt_cmdbuf st)) (wt_relay st) w = (w', relay, es, Ok r) \<Longrightarrow>
     wt_commands G B T W k st w =
       (case wt_reply W k (wt_after st n relay r) (response r) of
          (as, Inl e) \<Rightarrow> (w', wt_after st n relay r, map Did es @ as, Err e)
        | (as, Inr _) \<Rightarrow>
            (case wt_commands G B T W (Suc k) (wt_after st n relay r) w' of
               (w, st, as', res) \<Rightarrow> (w, st, map Did es @ as @ as', res)))"
  by (subst wt_commands.simps) (simp add: wt_after_def Let_def)

lemma wt_commands_cases:
  obtains
    (leased) l where "wt_lease st = Some l"
      "wt_commands G B T W k st w = wt_relay_stream B (T k) (st\<lparr>wt_cmdbuf := []\<rparr>) (wt_cmdbuf st) w"
  | (partial) "wt_lease st = None" "10 \<notin> set (wt_cmdbuf st)"
      "wt_commands G B T W k st w =
       (w, st, [], if length (wt_cmdbuf st) \<ge> MAX_COMMAND_SIZE
                   then Err (Bail ''Command grew too large in buffer'') else Ok ())"
  | (error) n w' relay es e where "wt_lease st = None" "position (\<lambda>b. b = 10) (wt_cmdbuf st) = Some n"
      "handle_command G (T k) (take n (wt_cmdbuf st)) (wt_relay st) w = (w', relay, es, Err e)"
      "wt_commands G B T W k st w =
       (w', st\<lparr>wt_cmdbuf := drop (n + 1) (wt_cmdbuf st), wt_relay := relay\<rparr>, map Did es, Err e)"
  | (unsent) n w' relay es r as e where "wt_lease st = None" "position (\<lambda>b. b = 10) (wt_cmdbuf st) = Some n"
      "handle_command G (T k) (take n (wt_cmdbuf st)) (wt_relay st) w = (w', relay, es, Ok r)"
      "wt_reply W k (wt_after st n relay r) (response r) = (as, Err e)"
      "wt_commands G B T W k st w = (w', wt_after st n relay r, map Did es @ as, Err e)"
  | (answered) n w' relay es r as where "wt_lease st = None" "position (\<lambda>b. b = 10) (wt_cmdbuf st) = Some n"
      "handle_command G (T k) (take n (wt_cmdbuf st)) (wt_relay st) w = (w', relay, es, Ok r)"
      "wt_reply W k (wt_after st n relay r) (response r) = (as, Ok ())"
      "wt_commands G B T W k st w =
        (case wt_commands G B T W (Suc k) (wt_after st n relay r) w' of
           (w, st, as', res) \<Rightarrow> (w, st, map Did es @ as @ as', res))"
proof (cases "wt_lease st")
  case None
  show thesis
  proof (cases "position (\<lambda>b. b = 10) (wt_cmdbuf st)")
    case no: None
    have "10 \<notin> set (wt_cmdbuf st)" using no by (auto simp: position_None)
    from partial [OF None this wt_commands_partial [OF None no]] show ?thesis .
  next
    case (Some n)
    obtain w' relay es res where h: "handle_command G (T k) (take n (wt_cmdbuf st)) (wt_relay st) w = (w', relay, es, res)"
      by (rule prod_cases4)
    show ?thesis
    proof (cases res)
      case (Inl e)
      from error [OF None Some h [unfolded Inl] wt_commands_error [where T = T and k = k, OF None Some h [unfolded Inl]]] show ?thesis .
    next
      case (Inr r)
      note eq = wt_commands_answer [where T = T and k = k, OF None Some h [unfolded Inr], of B W]
      obtain as res' where rep: "wt_reply W k (wt_after st n relay r) (response r) = (as, res')" by fastforce
      show ?thesis
      proof (cases res')
        case (Inl e)
        with unsent [OF None Some h [unfolded Inr] rep [unfolded Inl]] eq rep show ?thesis by simp
      next
        case ok: (Inr u)
        with answered [OF None Some h [unfolded Inr], of as] eq rep show ?thesis by simp
      qed
    qed
  qed
next
  case (Some l)
  from leased [OF Some] wt_commands_leased Some show thesis by blast
qed

text \<open>The rule for facts about the loop: one goal for each way a round ends.\<close>

lemma wt_commands_induct [case_names leased partial error unsent answered]:
  assumes leased: "\<And>k st w l. wt_lease st = Some l \<Longrightarrow>
      P k st w (wt_relay_stream B (T k) (st\<lparr>wt_cmdbuf := []\<rparr>) (wt_cmdbuf st) w)"
    and partial: "\<And>k st w. wt_lease st = None \<Longrightarrow> 10 \<notin> set (wt_cmdbuf st) \<Longrightarrow>
      P k st w (w, st, [], if length (wt_cmdbuf st) \<ge> MAX_COMMAND_SIZE
                   then Err (Bail ''Command grew too large in buffer'') else Ok ())"
    and error: "\<And>k st w n w' relay es e. wt_lease st = None \<Longrightarrow> position (\<lambda>b. b = 10) (wt_cmdbuf st) = Some n \<Longrightarrow>
      handle_command G (T k) (take n (wt_cmdbuf st)) (wt_relay st) w = (w', relay, es, Err e) \<Longrightarrow>
      P k st w (w', st\<lparr>wt_cmdbuf := drop (n + 1) (wt_cmdbuf st), wt_relay := relay\<rparr>, map Did es, Err e)"
    and unsent: "\<And>k st w n w' relay es r as e. wt_lease st = None \<Longrightarrow>
      position (\<lambda>b. b = 10) (wt_cmdbuf st) = Some n \<Longrightarrow>
      handle_command G (T k) (take n (wt_cmdbuf st)) (wt_relay st) w = (w', relay, es, Ok r) \<Longrightarrow>
      wt_reply W k (wt_after st n relay r) (response r) = (as, Err e) \<Longrightarrow>
      P k st w (w', wt_after st n relay r, map Did es @ as, Err e)"
    and answered: "\<And>k st w n w' relay es r as w2 st2 as2 res. wt_lease st = None \<Longrightarrow>
      position (\<lambda>b. b = 10) (wt_cmdbuf st) = Some n \<Longrightarrow>
      handle_command G (T k) (take n (wt_cmdbuf st)) (wt_relay st) w = (w', relay, es, Ok r) \<Longrightarrow>
      wt_reply W k (wt_after st n relay r) (response r) = (as, Ok ()) \<Longrightarrow>
      wt_commands G B T W (Suc k) (wt_after st n relay r) w' = (w2, st2, as2, res) \<Longrightarrow>
      P (Suc k) (wt_after st n relay r) w' (w2, st2, as2, res) \<Longrightarrow>
      P k st w (w2, st2, map Did es @ as @ as2, res)"
  shows "P k st w (wt_commands G B T W k st w)"
proof (induction "length (wt_cmdbuf st)" arbitrary: k st w rule: less_induct)
  case less
  show ?case
  proof (cases rule: wt_commands_cases [of st G B T W k w])
    case (leased l)
    from assms(1) [OF leased(1)] show ?thesis unfolding leased(2) .
  next
    case partial
    from assms(2) [OF partial(1,2)] show ?thesis unfolding partial(3) .
  next
    case (error n w' relay es e)
    from assms(3) [OF error(1-3)] show ?thesis unfolding error(4) .
  next
    case (unsent n w' relay es r as e)
    from assms(4) [OF unsent(1-4)] show ?thesis unfolding unsent(5) .
  next
    case (answered n w' relay es r as)
    obtain w2 st2 as2 res where rest: "wt_commands G B T W (Suc k) (wt_after st n relay r) w' = (w2, st2, as2, res)"
      by (rule prod_cases4)
    have "length (wt_cmdbuf (wt_after st n relay r)) < length (wt_cmdbuf st)"
      using position_less [OF answered(2)] by simp
    from less [OF this, of "Suc k" w'] have "P (Suc k) (wt_after st n relay r) w' (w2, st2, as2, res)"
      by (simp only: rest)
    from assms(5) [OF answered(1-4) rest this] show ?thesis by (simp add: answered(5) rest)
  qed
qed

lemma wt_after_core:
  assumes "handle_command G E raw (wt_relay st) w = (w', relay, es, Ok r)" and "wt_core st" "wt_lease st = None"
  shows "wt_core (wt_after st n relay r)"
  using handle_command_relay [OF assms(1)] assms(2,3) by (auto simp: wt_core_def)

lemma wt_commands_facts:
  "wt_commands G B T W k st w = (w', st', as, res) \<Longrightarrow> wt_core st \<Longrightarrow> wt_send st \<Longrightarrow>
     wt_relay st = None \<or> wt_relay st = Some relay \<Longrightarrow>
     session_steps G relay (w, wt_lease st) (w', wt_lease st') \<and> wt_send st' \<and> wt_recv st' = wt_recv st \<and>
     (res = Ok () \<longrightarrow> wt_core st' \<and> wt_buffered st') \<and> (res = Err e \<longrightarrow> unwinds e \<longrightarrow> e = Diverges)"
proof -
  define P where "P = (\<lambda>(k :: nat) st (w :: 'a world) (w' :: 'a world, st', as :: wt_out action list, res).
     wt_core st \<longrightarrow> wt_send st \<longrightarrow> wt_relay st = None \<or> wt_relay st = Some relay \<longrightarrow>
     session_steps G relay (w, wt_lease st) (w', wt_lease st') \<and> wt_send st' \<and> wt_recv st' = wt_recv st \<and>
     (res = Ok () \<longrightarrow> wt_core st' \<and> wt_buffered st') \<and> (res = Err e \<longrightarrow> unwinds e \<longrightarrow> e = Diverges))"
  have "P k st w (wt_commands G B T W k st w)"
  proof (induction rule: wt_commands_induct)
    case (leased k st w l)
    obtain w' st' as res where x: "wt_relay_stream B (T k) (st\<lparr>wt_cmdbuf := []\<rparr>) (wt_cmdbuf st) w = (w', st', as, res)"
      by (rule prod_cases4)
    from wt_relay_stream_facts [OF x] leased show ?case
      unfolding x by (auto simp: P_def wt_core_def wt_buffered_def)
  next
    case (error k st w n w' relay' es e')
    from handle_command_Err [OF error(3)] handle_command_unwinds [OF error(3)] error(1) show ?case
      by (auto simp: P_def)
  next
    case (unsent k st w n w' relay' es r as e')
    have "wt_lease (wt_after st n relay' r) = new_lease r" using unsent(1) by simp
    with handle_command_steps [OF unsent(3), of relay] wt_reply_Err [OF unsent(4)] unsent(1) show ?case
      unfolding P_def prod.case by simp
  next
    case (answered k st w n w' relay' es r as w2 st2 as2 res)
    let ?st = "wt_after st n relay' r"
    have lease: "wt_lease ?st = new_lease r" using answered(1) by simp
    show ?case
      unfolding P_def prod.case
    proof (intro impI)
      assume st: "wt_core st" "wt_send st" "wt_relay st = None \<or> wt_relay st = Some relay"
      have "wt_relay ?st = None \<or> wt_relay ?st = Some relay"
        using handle_command_relay(1) [OF answered(3)] st(3) by auto
      with answered(6) wt_after_core [OF answered(3) st(1) answered(1)] st(2)
      have IH: "session_steps G relay (w', new_lease r) (w2, wt_lease st2) \<and> wt_send st2 \<and> wt_recv st2 = wt_recv st \<and>
          (res = Ok () \<longrightarrow> wt_core st2 \<and> wt_buffered st2) \<and> (res = Err e \<longrightarrow> unwinds e \<longrightarrow> e = Diverges)"
        unfolding P_def prod.case lease by (simp, elim conjE disjE) simp_all
      then have "session_steps G relay (w, None) (w2, wt_lease st2)"
        using handle_command_steps [OF answered(3) st(3)] by (meson rtranclp_trans)
      with IH show "session_steps G relay (w, wt_lease st) (w2, wt_lease st2) \<and> wt_send st2 \<and> wt_recv st2 = wt_recv st \<and>
          (res = Ok () \<longrightarrow> wt_core st2 \<and> wt_buffered st2) \<and> (res = Err e \<longrightarrow> unwinds e \<longrightarrow> e = Diverges)"
        unfolding answered(1) by blast
    qed
  qed (auto simp: P_def wt_buffered_def)
  moreover assume "wt_commands G B T W k st w = (w', st', as, res)" "wt_core st" "wt_send st"
     "wt_relay st = None \<or> wt_relay st = Some relay"
  ultimately show ?thesis unfolding P_def by simp
qed

text \<open>
  What the environment keeps to: a stream read comes from a stream there is, and the relay
  has something to say only once a lease has its sender, or its sender is gone.
\<close>

fun wt_event_ok :: "wt_session \<Rightarrow> wt_event \<Rightarrow> bool" where
  "wt_event_ok st (FillBuf (Inl e)) = (wt_recv st \<and> \<not> unwinds e)"
| "wt_event_ok st (FillBuf (Inr d)) = wt_recv st"
| "wt_event_ok st (AcceptBi (Inl e)) = (\<not> unwinds e)"
| "wt_event_ok st (AcceptUni (Inl e)) = (\<not> unwinds e)"
| "wt_event_ok st (ReadDatagram (Inl e)) = (\<not> unwinds e)"
| "wt_event_ok st (WtRelay r) = (wt_lease st \<noteq> None)"
| "wt_event_ok st _ = True"

lemma wt_data_facts:
  assumes d: "wt_handle_data G B T W st d w = (w', st', as, res)" and inv: "wt_inv st" and "wt_send st"
    and rel: "wt_relay st = None \<or> wt_relay st = Some relay"
  shows "session_steps G relay (w, wt_lease st) (w', wt_lease st') \<and> wt_send st' \<and>
    (res = Ok () \<longrightarrow> wt_inv st') \<and> (res = Err e \<longrightarrow> unwinds e \<longrightarrow> e = Diverges)"
proof (cases "wt_lease st")
  case None
  let ?st = "st\<lparr>wt_cmdbuf := wt_cmdbuf st @ d\<rparr>"
  have "wt_core ?st" using inv by (simp add: wt_inv_def wt_core_def)
  moreover have "wt_commands G B T W 0 ?st w = (w', st', as, res)" using d None by (simp add: wt_handle_data_def)
  ultimately show ?thesis
    using wt_commands_facts [of G B T W 0 ?st w w' st' as res relay e] assms(2-4)
    by (auto simp: wt_inv_def None)
next
  case (Some l)
  with d have "wt_relay_stream B (T 0) st d w = (w', st', as, res)" by (simp add: wt_handle_data_def)
  from wt_relay_stream_facts [OF this] assms(2,3) Some show ?thesis by auto
qed

lemma wt_handle_relay_unwinds:
  "wt_handle_relay E W st r = (as, Err e) \<Longrightarrow> wt_send st \<Longrightarrow> \<not> unwinds e"
  by (auto simp: wt_handle_relay_def wrote_def split: option.splits if_splits)

lemma wt_turn_facts:
  assumes t: "wt_turn G B T W ev st w = (w', st', as, res)" and inv: "wt_inv st"
    and rel: "wt_relay st = None \<or> wt_relay st = Some relay" and en: "wt_enabled st ev"
  shows "session_steps G relay (w, wt_lease st) (w', wt_lease st') \<and> (res = Ok () \<longrightarrow> wt_inv st') \<and>
    (wt_event_ok st ev \<longrightarrow> res = Err e \<longrightarrow> unwinds e \<longrightarrow> e = Diverges)"
proof (cases ev)
  case (AcceptBi r)
  with t inv show ?thesis by (cases r) (auto simp: wt_inv_def wt_core_def wt_buffered_def split: if_splits)
next
  case (AcceptUni r)
  with t show ?thesis by (cases r) auto
next
  case (ReadDatagram r)
  with t inv show ?thesis
    by (cases r) (auto simp: wt_handle_datagram_def split: option.splits prod.splits if_splits dest: lease_send_unwinds)
next
  case (WtRelay r)
  with t inv show ?thesis
    using wt_handle_relay_unwinds [of "T 0" W st r] by (auto simp: wt_inv_def split: prod.splits)
next
  case (FillBuf r)
  with en inv have send: "wt_recv st" "wt_send st" by (auto simp: wt_inv_def)
  show ?thesis
  proof (cases r)
    case (Inl e')
    with t FillBuf show ?thesis by auto
  next
    case (Inr d)
    show ?thesis
    proof (cases "d = []")
      case True
      with t FillBuf Inr inv show ?thesis by (auto simp: wt_inv_def wt_core_def wt_buffered_def)
    next
      case False
      with t FillBuf Inr have "wt_handle_data G B T W st d w = (w', st', as, res)" by simp
      from wt_data_facts [OF this inv send(2) rel] show ?thesis by blast
    qed
  qed
qed

section \<open>How the bytes arrive does not matter\<close>

text \<open>Starting the count of commands elsewhere.\<close>

lemma wt_commands_shift:
  "wt_commands G B T W (n + k) st w = wt_commands G B (\<lambda>i. T (n + i)) (\<lambda>i. W (2 * n + i)) k st w"
proof (induction "length (wt_cmdbuf st)" arbitrary: k st w rule: less_induct)
  case less
  have reply: "wt_reply W (n + k) st' t = wt_reply (\<lambda>i. W (2 * n + i)) k st' t" for st' t
    by (simp add: wt_reply_def wrote_def algebra_simps)
  show ?case
  proof (cases rule: wt_commands_cases [of st G B T W "n + k" w])
    case (answered m w' relay es r as)
    have "length (wt_cmdbuf (wt_after st m relay r)) < length (wt_cmdbuf st)"
      using position_less [OF answered(2)] by simp
    from less [OF this, of "Suc k"] answered show ?thesis
      by (simp add: wt_commands_answer [OF answered(1,2), of G "\<lambda>i. T (n + i)" k] reply)
  next
    case (unsent m w' relay es r as e)
    then show ?thesis
      by (simp add: wt_commands_answer [OF unsent(1,2), of G "\<lambda>i. T (n + i)" k] reply)
  next
    case (error m w' relay es e)
    then show ?thesis
      by (simp add: wt_commands_error [OF error(1,2), of G "\<lambda>i. T (n + i)" k])
  next
    case partial
    then have "position (\<lambda>b. b = 10) (wt_cmdbuf st) = None" by (auto simp: position_None)
    with partial show ?thesis by (simp add: wt_commands_partial)
  next
    case (leased l)
    then show ?thesis by (simp add: wt_commands_leased)
  qed
qed

definition newlines :: "bytes \<Rightarrow> nat" where "newlines bs = length (filter (\<lambda>b. b = 10) bs)"

lemma newlines_append [simp]: "newlines (xs @ ys) = newlines xs + newlines ys"
  by (simp add: newlines_def)

lemma newlines_drop:
  assumes "position (\<lambda>b. b = 10) xs = Some n"
  shows "newlines xs = Suc (newlines (drop (n + 1) xs))"
proof -
  from assms have n: "n < length xs" "xs ! n = 10" "\<forall>j < n. xs ! j \<noteq> 10" by (auto simp: position_Some)
  have "xs = take n xs @ xs ! n # drop (n + 1) xs" using id_take_nth_drop [OF n(1)] by simp
  then have "newlines xs = newlines (take n xs) + newlines (xs ! n # drop (n + 1) xs)" by (metis newlines_append)
  moreover have "\<forall>b \<in> set (take n xs). b \<noteq> 10" using n by (auto simp: in_set_conv_nth)
  ultimately show ?thesis using n(2) by (simp add: newlines_def)
qed

lemma wt_after_append:
  "n + 1 \<le> length (wt_cmdbuf st) \<Longrightarrow>
   wt_after (st\<lparr>wt_cmdbuf := wt_cmdbuf st @ b\<rparr>) n relay r =
     (wt_after st n relay r)\<lparr>wt_cmdbuf := wt_cmdbuf (wt_after st n relay r) @ b\<rparr>"
  by (simp add: wt_after_def Let_def)

lemma wt_reply_cmdbuf [simp]: "wt_reply W k (st\<lparr>wt_cmdbuf := c\<rparr>) t = wt_reply W k st t"
  by (simp add: wt_reply_def)

lemma wt_commands_append:
  assumes "wt_commands G B T W k st w = (w1, st1, as1, Ok ())" and "wt_lease st1 = None"
  shows "wt_commands G B T W k (st\<lparr>wt_cmdbuf := wt_cmdbuf st @ b\<rparr>) w =
    (case wt_commands G B T W (k + newlines (wt_cmdbuf st)) (st1\<lparr>wt_cmdbuf := wt_cmdbuf st1 @ b\<rparr>) w1 of
       (w2, st2, as2, res) \<Rightarrow> (w2, st2, as1 @ as2, res))"
  using assms
proof (induction "length (wt_cmdbuf st)" arbitrary: k st w as1 rule: less_induct)
  case less
  show ?case
  proof (cases rule: wt_commands_cases [of st G B T W k w])
    case (leased l)
    from less.prems(1) leased(2) have "st1 = st\<lparr>wt_cmdbuf := []\<rparr>" by (metis wt_relay_stream_facts(2))
    with leased(1) less.prems(2) show ?thesis by simp
  next
    case partial
    with less.prems have "w1 = w" "st1 = st" "as1 = []" by (auto split: if_splits)
    moreover have "newlines (wt_cmdbuf st) = 0" using partial(2) by (auto simp: newlines_def filter_empty_conv)
    ultimately show ?thesis by (simp add: case_prod_beta)
  next
    case (answered n w' relay es r as)
    let ?st = "wt_after st n relay r"
    from less.prems(1) answered(5) obtain as2 where rest: "wt_commands G B T W (Suc k) ?st w' = (w1, st1, as2, Ok ())"
      and as1: "as1 = map Did es @ as @ as2" by (auto split: prod.splits)
    have n: "n < length (wt_cmdbuf st)" using answered(2) by (rule position_less)
    then have "length (wt_cmdbuf ?st) < length (wt_cmdbuf st)" by simp
    from less.hyps [OF this rest less.prems(2)]
    have IH: "wt_commands G B T W (Suc k) (?st\<lparr>wt_cmdbuf := wt_cmdbuf ?st @ b\<rparr>) w' =
      (case wt_commands G B T W (Suc k + newlines (wt_cmdbuf ?st)) (st1\<lparr>wt_cmdbuf := wt_cmdbuf st1 @ b\<rparr>) w1 of
         (w2, st2, as3, res) \<Rightarrow> (w2, st2, as2 @ as3, res))" .
    have pos: "position (\<lambda>b. b = 10) (wt_cmdbuf (st\<lparr>wt_cmdbuf := wt_cmdbuf st @ b\<rparr>)) = Some n"
      by (simp add: position_append answered(2))
    have "handle_command G (T k) (take n (wt_cmdbuf (st\<lparr>wt_cmdbuf := wt_cmdbuf st @ b\<rparr>)))
        (wt_relay (st\<lparr>wt_cmdbuf := wt_cmdbuf st @ b\<rparr>)) w = (w', relay, es, Ok r)"
      using answered(3) n by simp
    note eq = wt_commands_answer [where T = T and k = k, OF _ pos this, of B W]
    have "newlines (wt_cmdbuf st) = Suc (newlines (wt_cmdbuf ?st))" using newlines_drop [OF answered(2)] by simp
    moreover have "n + 1 \<le> length (wt_cmdbuf st)" using n by simp
    ultimately show ?thesis
      using IH by (simp add: eq answered(1,4) wt_after_append as1 case_prod_beta del: wt_after_simps)
  qed (use less.prems in auto)
qed

text \<open>
  \<open>handle_data\<close> on the bytes of two reads at once, and on one after the other: the same
  world, session, replies and effects, as long as the first does not make a lease.
\<close>

lemma wt_data_append:
  assumes a: "wt_handle_data G B T W st d w = (w1, st1, as1, Ok ())" and l: "wt_lease st1 = None"
  shows "wt_handle_data G B T W st (d @ d') w =
    (let n = newlines (wt_cmdbuf st @ d) in
     case wt_handle_data G B (\<lambda>i. T (n + i)) (\<lambda>i. W (2 * n + i)) st1 d' w1 of
       (w2, st2, as2, res) \<Rightarrow> (w2, st2, as1 @ as2, res))"
proof -
  have lease: "wt_lease st = None"
  proof (rule ccontr)
    assume "wt_lease st \<noteq> None"
    with a l wt_relay_stream_facts(2) [of B "T 0" st d w] show False by (auto simp: wt_handle_data_def)
  qed
  with a have "wt_commands G B T W 0 (st\<lparr>wt_cmdbuf := wt_cmdbuf st @ d\<rparr>) w = (w1, st1, as1, Ok ())"
    by (simp add: wt_handle_data_def)
  from wt_commands_append [OF this l, of d'] show ?thesis
    using wt_commands_shift [of G B T W "newlines (wt_cmdbuf st @ d)" 0] by (simp add: wt_handle_data_def lease l Let_def)
qed

section \<open>Properties\<close>

text \<open>C21. It does not matter how the command stream is cut into reads: the bytes of two reads at once do what the
  one read and then the other would do, to the world, to the session, in replies and in effects, as long
  as the first is not what makes the lease. (Commands are numbered on across the two reads.)\<close>

theorem wt_chunks_do_not_matter:
  assumes "wt_handle_data G B T W st d w = (w1, st1, as1, Ok ())" and "wt_lease st1 = None"
  shows "wt_handle_data G B T W st (d @ d') w =
    (let n = newlines (wt_cmdbuf st @ d) in
     case wt_handle_data G B (\<lambda>i. T (n + i)) (\<lambda>i. W (2 * n + i)) st1 d' w1 of
       (w2, st2, as2, res) \<Rightarrow> (w2, st2, as1 @ as2, res))"
  using assms by (rule wt_data_append)

definition demo_wt :: wt_session where "demo_wt = (wt_new 7)\<lparr>wt_send := True, wt_recv := True\<rparr>"

lemma demo_partial:
  "wt_handle_data counter_rng be_buf (\<lambda>_. env_up) (\<lambda>_. True) demo_wt (bytes_of ''PI'') demo_world =
    (demo_world, demo_wt\<lparr>wt_cmdbuf := bytes_of ''PI''\<rparr>, [], Ok ())"
  by (simp add: wt_handle_data_def wt_commands_partial demo_wt_def wt_new_def position_None bytes_of_def MAX_COMMAND_SIZE_def)

theorem wt_chunks_do_not_matter_witness:
  "wt_handle_data counter_rng be_buf (\<lambda>_. env_up) (\<lambda>_. True) demo_wt (bytes_of ''PING'' @ [10]) demo_world =
   wt_handle_data counter_rng be_buf (\<lambda>_. env_up) (\<lambda>_. True) (demo_wt\<lparr>wt_cmdbuf := bytes_of ''PI''\<rparr>) (bytes_of ''NG'' @ [10]) demo_world"
  using wt_chunks_do_not_matter [OF demo_partial, of "bytes_of ''NG'' @ [10]"]
  by (simp add: demo_wt_def wt_new_def case_prod_beta bytes_of_def)

text \<open>Each line that is complete is one command, carried out with the bytes before its newline and answered
  with one line on the stream, before the rest of what was read is looked at.\<close>

theorem wt_one_reply_per_line:
  assumes "wt_lease st = None" and "wt_send st" and "10 \<notin> set (wt_cmdbuf st)" and "10 \<notin> set line"
    and "\<forall>k. W k" and "handle_command G (T 0) (wt_cmdbuf st @ line) (wt_relay st) w = (w1, relay, es, Ok r)"
    and "new_lease r = None"
  shows "wt_handle_data G B T W st (line @ 10 # rest) w =
    (case wt_handle_data G B (\<lambda>i. T (1 + i)) W (st\<lparr>wt_cmdbuf := []\<rparr>) rest w1 of
       (w2, st2, as, res) \<Rightarrow>
         (w2, st2, [Out (WriteStream (bytes_of (response r))), Out (WriteStream [10])] @ as, res))"
proof -
  let ?st = "st\<lparr>wt_cmdbuf := wt_cmdbuf st @ line @ 10 # rest\<rparr>"
  let ?n = "length (wt_cmdbuf st @ line)"
  have pos: "position (\<lambda>b. b = 10) (wt_cmdbuf ?st) = Some ?n"
    using assms(3,4) by (auto simp: position_Some nth_append in_set_conv_nth)
  have take: "take ?n (wt_cmdbuf ?st) = wt_cmdbuf st @ line" by simp
  have relay: "relay = wt_relay st" and es: "es = []"
    using handle_command_relay(1) [OF assms(6)] handle_command_no_lease [OF assms(6,7)] assms(7) by simp_all
  have after: "wt_after ?st ?n relay r = st\<lparr>wt_cmdbuf := rest\<rparr>"
    using assms(7) by (simp add: wt_after_def relay)
  have W: "(\<lambda>i. W (2 * Suc 0 + i)) = W" using assms(5) by auto
  have rep: "wt_reply W 0 st (response r) = ([Out (WriteStream (bytes_of (response r))), Out (WriteStream [10])], Ok ())"
    using assms(2,5) by (simp add: wt_reply_def)
  have "wt_handle_data G B T W st (line @ 10 # rest) w = wt_commands G B T W 0 ?st w"
    using assms(1) by (simp add: wt_handle_data_def)
  also have "\<dots> = (case wt_commands G B T W (Suc 0) (st\<lparr>wt_cmdbuf := rest\<rparr>) w1 of
       (w2, st2, as, res) \<Rightarrow>
         (w2, st2, [Out (WriteStream (bytes_of (response r))), Out (WriteStream [10])] @ as, res))"
    using wt_commands_answer [where T = T and k = 0 and B = B and W = W, OF _ pos, of G w w1 relay es r] assms(1,6) take after rep
    by (simp add: es)
  also have "wt_commands G B T W (Suc 0) (st\<lparr>wt_cmdbuf := rest\<rparr>) w1 =
      wt_commands G B (\<lambda>i. T (1 + i)) W 0 (st\<lparr>wt_cmdbuf := rest\<rparr>) w1"
    using wt_commands_shift [of G B T W "Suc 0" 0 "st\<lparr>wt_cmdbuf := rest\<rparr>" w1] W by simp
  finally show ?thesis using assms(1) by (simp add: wt_handle_data_def)
qed

theorem wt_one_reply_per_line_witness:
  "outs (fst (snd (snd (wt_handle_data counter_rng be_buf (\<lambda>_. env_up) (\<lambda>_. True) demo_wt
      (bytes_of ''PING 1'' @ 10 # bytes_of ''PI'') demo_world)))) =
    [WriteStream (bytes_of ''PONG 1''), WriteStream [10]]"
proof -
  have ping: "handle_command counter_rng env_up (bytes_of ''PING 1'') (Some 7) demo_world =
      (demo_world, Some 7, [], Ok \<lparr>response = ''PONG 1'', new_lease = None, relay_udp = False\<rparr>)"
    by (simp add: handle_command_def is_ascii_bytes_of)
  have same: "demo_wt\<lparr>wt_cmdbuf := []\<rparr> = demo_wt" by (simp add: demo_wt_def wt_new_def)
  from wt_one_reply_per_line [of demo_wt "bytes_of ''PING 1''" "\<lambda>_. True" counter_rng "\<lambda>_. env_up" demo_world demo_world "Some 7" "[]"
      "\<lparr>response = ''PONG 1'', new_lease = None, relay_udp = False\<rparr>" be_buf "bytes_of ''PI''"]
  show ?thesis
    unfolding same demo_partial by (simp add: demo_wt_def wt_new_def ping bytes_of_def [of "''PING 1''"])
      (simp add: ping [unfolded bytes_of_def, simplified])
qed

text \<open>What passes through a session with a reliable lease: to the lease, or to the stream.\<close>

fun piped :: "chan \<Rightarrow> wt_event \<Rightarrow> wt_out action list" where
  "piped tx (FillBuf (Inr d)) = [Did (Send tx d)]"
| "piped tx (WtRelay (Some d)) = [Out (WriteStream d)]"
| "piped tx _ = []"

text \<open>Once a session has a lease on the CONNECT proxy, the stream is a pipe: while the calls succeed, every
  read is sent on to the lease as it is, every message of the relay is written to the stream as it is, in
  the order in which they come, and nothing else happens.\<close>

theorem wt_stream_is_a_pipe:
  assumes st: "wt_lease st = Some (ConnectLease h)" "\<not> wt_udp st" "wt_send st" "wt_recv st"
    and evs: "\<forall>(T, W, ev) \<in> set evs. \<exists>d. d \<noteq> [] \<and>
      (ev = FillBuf (Ok d) \<and> send_ok (T 0) (connect_transmit h) \<or> ev = WtRelay (Some d) \<and> W 0)"
  shows "wt_run G B evs st w =
    (w, st, concat (map (\<lambda>(T, W, ev). piped (connect_transmit h) ev) evs), Ok ())"
  using evs
proof (induction evs)
  case (Cons x evs)
  obtain T W ev where x: "x = (T, W, ev)" by (cases x)
  from Cons.prems x obtain d where "d \<noteq> []"
    "ev = FillBuf (Ok d) \<and> send_ok (T 0) (connect_transmit h) \<or> ev = WtRelay (Some d) \<and> W 0" by auto
  with st have "wt_turn G B T W ev st w = (w, st, piped (connect_transmit h) ev, Ok ())" "wt_enabled st ev"
    by (auto simp: wt_handle_data_def wt_relay_stream_def wt_handle_relay_def connect_send_def chan_send_def)
  with Cons x show ?case by simp
qed simp

definition demo_tunnel :: wt_session where
  "demo_tunnel = demo_wt\<lparr>wt_lease := Some (ConnectLease \<lparr>connect_transmit = 5\<rparr>), wt_relay := None\<rparr>"

theorem wt_stream_is_a_pipe_witness:
  "wt_run counter_rng be_buf [(\<lambda>_. env_up, \<lambda>_. True, FillBuf (Ok [1, 2])), (\<lambda>_. env_up, \<lambda>_. True, WtRelay (Some [3]))]
     demo_tunnel demo_world =
   (demo_world, demo_tunnel, [Did (Send 5 [1, 2]), Out (WriteStream [3])], Ok ())"
  using wt_stream_is_a_pipe [of demo_tunnel "\<lparr>connect_transmit = 5\<rparr>"
      "[(\<lambda>_. env_up, \<lambda>_. True, FillBuf (Ok [1, 2])), (\<lambda>_. env_up, \<lambda>_. True, WtRelay (Some [3]))]" counter_rng be_buf demo_world]
  by (simp add: demo_tunnel_def demo_wt_def wt_new_def)

end
