(* ===== verification/Proxy_System.thy ===== *)
theory Proxy_System
  imports Web_Socket Web_Transport
begin

text \<open>
  All the sessions of a proxy around the world they share. A step of the system is a
  connection that is accepted (for WebTransport, one whose handshake has succeeded: until then
  the service does not know of it), a WebSocket handshake that completes or fails, or one turn of one
  session, which may be its last; steps of different sessions come in any order. Turns are
  atomic: within a turn a session awaits only its transport or the mutex of the service, and a read of
  several commands does what the reads of one command each do
  (\<open>wt_data_append\<close>), between which other sessions may take their turns.

  The invariant says that nothing is leaked: the table of clients holds exactly the sessions
  that are running, and the routes of the network are exactly the ports bound by their leases,
  each leading to the channel of the session that bound it.
\<close>

section \<open>Sessions and the system\<close>

datatype session_kind =
    Handshake
  | OnWebSocket chan ws_session
  | OnWebTransport chan wt_session

record session_slot =
  slot_client :: client_handle
  slot_kind :: session_kind

record 'r system =
  sys_world :: "'r world"
  sys_slots :: "session_slot list"
  sys_opened :: nat

definition sys_new :: "'r \<Rightarrow> 'r system" where
  "sys_new g = \<lparr>sys_world = world_new g, sys_slots = [], sys_opened = 0\<rparr>"

definition replace_slot :: "nat \<Rightarrow> session_slot list \<Rightarrow> session_kind \<Rightarrow> session_slot list" where
  "replace_slot i ss k = ss[i := (ss ! i)\<lparr>slot_kind := k\<rparr>]"

definition remove_slot :: "nat \<Rightarrow> session_slot list \<Rightarrow> session_slot list" where
  "remove_slot i ss = take i ss @ drop (Suc i) ss"

text \<open>
  \<open>sys_opened\<close> counts the connections, for the bound under which client numbers do not wrap.
  A turn that does not return, with the mutex of the service held, has no next state. (The others go on here, which they
  do not if they need the mutex: there are more runs than the program has, and what is shown of all of them holds of its own.)
  A WebSocket connection that is gone before its task asks for the peer's address makes that task panic, and leaves no trace.
\<close>

inductive sys_step :: "'r rng_api \<Rightarrow> buf_api \<Rightarrow> 'r system \<Rightarrow> 'r system \<Rightarrow> bool" for G B where
  gone_ws: "ws_begin peer (sys_world s) = (w, Err e) \<Longrightarrow> sys_step G B s (s\<lparr>sys_world := w\<rparr>)"
| accept_ws: "sys_opened s < 2 ^ 64 \<Longrightarrow> ws_begin peer (sys_world s) = (w, Ok h) \<Longrightarrow>
     sys_step G B s (s\<lparr>sys_world := w, sys_slots := sys_slots s @ [\<lparr>slot_client = h, slot_kind = Handshake\<rparr>],
                       sys_opened := Suc (sys_opened s)\<rparr>)"
| handshake_ws: "i < length (sys_slots s) \<Longrightarrow> slot_kind (sys_slots s ! i) = Handshake \<Longrightarrow>
     ws_handshake secure tls upgrade = Ok () \<Longrightarrow> c = next_chan (sys_world s) \<Longrightarrow>
     sys_step G B s (s\<lparr>sys_world := (sys_world s)\<lparr>next_chan := c + 1\<rparr>,
                       sys_slots := replace_slot i (sys_slots s) (OnWebSocket c (ws_new c))\<rparr>)"
| handshake_fails: "i < length (sys_slots s) \<Longrightarrow> slot_kind (sys_slots s ! i) = Handshake \<Longrightarrow>
     ws_handshake secure tls upgrade = Err e \<Longrightarrow> \<not> unwinds e \<Longrightarrow>
     session_end E (slot_client (sys_slots s ! i)) None (Err e) (sys_world s) = (w, es) \<Longrightarrow>
     sys_step G B s (s\<lparr>sys_world := w, sys_slots := remove_slot i (sys_slots s)\<rparr>)"
| accept_wt: "sys_opened s < 2 ^ 64 \<Longrightarrow> service_new_client remote (sys_world s) = (w, h) \<Longrightarrow> c = next_chan w \<Longrightarrow>
     sys_step G B s (s\<lparr>sys_world := w\<lparr>next_chan := c + 1\<rparr>,
                       sys_slots := sys_slots s @ [\<lparr>slot_client = h, slot_kind = OnWebTransport c (wt_new c)\<rparr>],
                       sys_opened := Suc (sys_opened s)\<rparr>)"
| ws_goes_on: "i < length (sys_slots s) \<Longrightarrow> slot_kind (sys_slots s ! i) = OnWebSocket c st \<Longrightarrow> ws_event_ok ev \<Longrightarrow>
     ws_turn G B E W ev st (sys_world s) = (w, st', as, Ok Waiting) \<Longrightarrow>
     sys_step G B s (s\<lparr>sys_world := w, sys_slots := replace_slot i (sys_slots s) (OnWebSocket c st')\<rparr>)"
| ws_ends: "i < length (sys_slots s) \<Longrightarrow> slot_kind (sys_slots s ! i) = OnWebSocket c st \<Longrightarrow> ws_event_ok ev \<Longrightarrow>
     ws_turn G B E W ev st (sys_world s) = (w, st', as, res) \<Longrightarrow> res \<noteq> Ok Waiting \<Longrightarrow> res \<noteq> Err Diverges \<Longrightarrow>
     session_end E' (slot_client (sys_slots s ! i)) (ws_lease st') res w = (w', es) \<Longrightarrow>
     sys_step G B s (s\<lparr>sys_world := w', sys_slots := remove_slot i (sys_slots s)\<rparr>)"
| wt_goes_on: "i < length (sys_slots s) \<Longrightarrow> slot_kind (sys_slots s ! i) = OnWebTransport c st \<Longrightarrow>
     wt_enabled st ev \<Longrightarrow> wt_event_ok st ev \<Longrightarrow>
     wt_turn G B T W ev st (sys_world s) = (w, st', as, Ok ()) \<Longrightarrow>
     sys_step G B s (s\<lparr>sys_world := w, sys_slots := replace_slot i (sys_slots s) (OnWebTransport c st')\<rparr>)"
| wt_ends: "i < length (sys_slots s) \<Longrightarrow> slot_kind (sys_slots s ! i) = OnWebTransport c st \<Longrightarrow>
     wt_enabled st ev \<Longrightarrow> wt_event_ok st ev \<Longrightarrow>
     wt_turn G B T W ev st (sys_world s) = (w, st', as, Err e) \<Longrightarrow> e \<noteq> Diverges \<Longrightarrow>
     session_end E' (slot_client (sys_slots s ! i)) (wt_lease st') (Err e) w = (w', es) \<Longrightarrow>
     sys_step G B s (s\<lparr>sys_world := w', sys_slots := remove_slot i (sys_slots s)\<rparr>)"

section \<open>Who owns which route\<close>

text \<open>The route of a lease, with the channel it leads to.\<close>

definition owned :: "chan \<Rightarrow> lease option \<Rightarrow> (route_key \<times> chan) option" where
  "owned relay l = (case l of Some (BindLease h) \<Rightarrow> Some (bind_key h, relay) | _ \<Rightarrow> None)"

fun slot_owned :: "session_kind \<Rightarrow> (route_key \<times> chan) option" where
  "slot_owned Handshake = None"
| "slot_owned (OnWebSocket c st) = owned c (ws_lease st)"
| "slot_owned (OnWebTransport c st) = owned c (wt_lease st)"

definition route_map :: "'r world \<Rightarrow> route_key \<rightharpoonup> chan" where
  "route_map w = hm_get (routes (net_of w))"

definition others_routes :: "(route_key \<times> chan) option \<Rightarrow> 'r world \<Rightarrow> route_key \<rightharpoonup> chan" where
  "others_routes own w = route_map w |` (- fst ` set_option own)"

definition holds :: "'r world \<Rightarrow> (route_key \<times> chan) option \<Rightarrow> bool" where
  "holds w own = (\<forall>k c. own = Some (k, c) \<longrightarrow> route_map w k = Some c)"

text \<open>A session that steps touches its own route only.\<close>

lemma restrict_UNIV [simp]: "m |` UNIV = m"
  by (simp add: restrict_map_def)

lemma route_map_set_network [simp]: "route_map (set_network s w) = hm_get (routes s)"
  by (simp add: route_map_def)

lemma route_map_simps [simp]:
  "route_map (w\<lparr>next_chan := n\<rparr>) = route_map w" "route_map (w\<lparr>rng := r\<rparr>) = route_map w"
  "route_map (w\<lparr>id_counter := j\<rparr>) = route_map w"
  by (simp_all add: route_map_def)

lemma service_assign_routes:
  assumes "service_assign G E w = Some (ap, w')"
  shows "route_map w' = route_map w"
proof -
  from assms obtain a pc r s where n: "network_assign G E (rng w) (net_of w) = Some ((a, pc), r, s)"
    and w': "w' = set_network s w\<lparr>rng := r\<rparr>"
    by (auto simp: service_assign_def split: option.splits)
  from assign_loop_Some [OF n [unfolded network_assign_def]] show ?thesis by (simp add: w') (simp add: route_map_def)
qed

lemma service_bind_routes:
  assumes "world_inv w" and "service_bind E pc port relay w = (w', es, Ok l)"
  obtains k where "route_map w k = None" "route_map w' = (route_map w)(k \<mapsto> relay)" "owned relay (Some l) = Some (k, relay)"
proof -
  from assms(2) obtain s h where n: "network_bind E pc port relay (next_chan w) (net_of w) = (s, es, Ok h)"
    and w': "w' = set_network s w\<lparr>next_chan := next_chan w + 1\<rparr>" and l: "l = BindLease h"
    by (auto simp: service_bind_def split: prod.splits sum.splits)
  from bind_Ok_state [OF world_inv_network [OF assms(1)] n] obtain a x where
    "hm_get (routes (net_of w)) (a, port) = None" "s = bound (clock1 E) (a, port) relay x (net_of w)"
    "h = \<lparr>bind_key = (a, port), bind_egress = next_chan w\<rparr>" by metis
  then show thesis
    using that [of "(a, port)"] by (simp add: w' l owned_def fun_eq_iff) (simp add: route_map_def)
qed

lemma drop_lease_routes:
  assumes "world_inv w"
  shows "route_map (fst (drop_lease E l w)) = others_routes (owned relay l) w"
proof (cases l)
  case (Some l')
  show ?thesis
  proof (cases l')
    case (BindLease h)
    obtain a p where k: "bind_key h = (a, p)" by fastforce
    have "hm_get (routes (network_unbind E (a, p) (net_of w))) = route_map w |` (- {(a, p)})"
      using world_inv_network [OF assms]
      by (cases rule: unbind_cases [of "net_of w" a p E]) (auto simp: route_map_def restrict_map_def fun_eq_iff)
    with Some BindLease k show ?thesis
      by (simp add: drop_lease_def lease_drop_def bind_close_def others_routes_def owned_def)
  next
    case (ConnectLease h)
    with Some show ?thesis
      by (simp add: drop_lease_def lease_drop_def connect_close_def others_routes_def owned_def) (simp add: route_map_def)
  next
    case (DnsLease h)
    with Some show ?thesis
      by (simp add: drop_lease_def lease_drop_def dns_close_def others_routes_def owned_def) (simp add: route_map_def)
  qed
qed (simp add: drop_lease_def others_routes_def owned_def)

lemma others_None [simp]: "others_routes None w = route_map w"
  by (simp add: others_routes_def)

lemma holds_None [simp]: "holds w None"
  by (simp add: holds_def)

lemma owned_None [simp]: "owned relay None = None"
  by (simp add: owned_def)

lemma session_step_routes:
  assumes step: "session_step G relay (w, l) (w', l')" and inv: "world_inv w" and own: "holds w (owned relay l)"
  shows "others_routes (owned relay l') w' = others_routes (owned relay l) w \<and> holds w' (owned relay l')"
  using step
proof cases
  case (assign E ap)
  with service_assign_routes [OF assign(3)] show ?thesis by simp
next
  case (bind E pc port es l0)
  from service_bind_routes [OF inv bind(3)] obtain k where
    "route_map w k = None" "route_map w' = (route_map w)(k \<mapsto> relay)" "owned relay (Some l0) = Some (k, relay)" by metis
  with bind show ?thesis by (auto simp: others_routes_def holds_def restrict_map_def intro!: ext)
next
  case (route addr es l0)
  then have "route_map w' = route_map w" "owned relay l' = None"
    by (auto simp: service_route_def owned_def split: if_splits)
  with route show ?thesis by simp
next
  case (lost l0 E)
  with drop_lease_routes [OF inv, of E l relay] show ?thesis by simp
qed

lemma session_steps_routes:
  assumes "session_steps G relay (w, l) (w', l')" and "world_inv w" and "holds w (owned relay l)"
  shows "others_routes (owned relay l') w' = others_routes (owned relay l) w \<and> holds w' (owned relay l') \<and> world_inv w'"
  using assms(1)
proof (induction "(w', l')" arbitrary: w' l' rule: rtranclp_induct)
  case (step y)
  obtain w1 l1 where y: "y = (w1, l1)" by (cases y)
  from step(3) [OF y] step(2) session_step_routes [of G relay w1 l1 w' l'] session_step_inv [OF step(2)] show ?case
    by (simp add: y)
qed (use assms in auto)

text \<open>No step of a session touches the table of clients or the counter.\<close>

lemma drop_lease_clients:
  "clients (service (fst (drop_lease E l w))) = clients (service w) \<and> id_counter (fst (drop_lease E l w)) = id_counter w"
  by (simp add: drop_lease_def case_prod_beta split: option.split)

lemma session_step_clients:
  "session_step G relay x y \<Longrightarrow> clients (service (fst y)) = clients (service (fst x)) \<and> id_counter (fst y) = id_counter (fst x)"
proof (induction rule: session_step.induct)
  case (assign E w ap w')
  then show ?case by (auto simp: service_assign_def split: option.splits)
next
  case (bind E pc port w w' es l)
  then show ?case by (auto simp: service_bind_def split: prod.splits sum.splits)
next
  case (route addr w w' es l)
  then show ?case by (auto simp: service_route_def split: if_splits)
next
  case (lost w l E)
  then show ?case by (simp add: drop_lease_clients)
qed

lemma session_steps_clients:
  "session_steps G relay x y \<Longrightarrow> clients (service (fst y)) = clients (service (fst x)) \<and> id_counter (fst y) = id_counter (fst x)"
  by (induction rule: rtranclp_induct) (auto dest: session_step_clients)

section \<open>The invariant of the system\<close>

fun kind_inv :: "session_kind \<Rightarrow> bool" where
  "kind_inv Handshake = True"
| "kind_inv (OnWebSocket c st) = (ws_inv st \<and> (ws_relay st = None \<or> ws_relay st = Some c))"
| "kind_inv (OnWebTransport c st) = (wt_inv st \<and> (wt_relay st = None \<or> wt_relay st = Some c))"

definition bindings :: "session_slot list \<Rightarrow> (route_key \<times> chan) list" where
  "bindings ss = List.map_filter (\<lambda>x. slot_owned (slot_kind x)) ss"

definition routes_owned :: "'r world \<Rightarrow> session_slot list \<Rightarrow> bool" where
  "routes_owned w ss = (distinct (map fst (bindings ss)) \<and> route_map w = map_of (bindings ss))"

definition sys_inv :: "'r system \<Rightarrow> bool" where
  "sys_inv s =
     (world_inv (sys_world s) \<and>
      clients_inv (sys_opened s) (sys_world s) (map slot_client (sys_slots s)) \<and>
      (\<forall>x \<in> set (sys_slots s). kind_inv (slot_kind x)) \<and>
      routes_owned (sys_world s) (sys_slots s))"

lemma bindings_append [simp]: "bindings (xs @ ys) = bindings xs @ bindings ys"
  by (simp add: bindings_def map_filter_def)

lemma bindings_Cons [simp]:
  "bindings (x # xs) = (case slot_owned (slot_kind x) of None \<Rightarrow> bindings xs | Some b \<Rightarrow> b # bindings xs)"
  by (cases "slot_owned (slot_kind x)") (simp_all add: bindings_def map_filter_simps)

lemma bindings_Nil [simp]: "bindings [] = []"
  by (simp add: bindings_def map_filter_simps)

text \<open>One session's route is replaced, or goes; the others stay.\<close>

lemma map_of_without:
  "distinct (map fst (xs @ b # ys)) \<Longrightarrow> map_of (xs @ b # ys) |` (- {fst b}) = map_of (xs @ ys)"
proof
  fix k
  assume d: "distinct (map fst (xs @ b # ys))"
  show "(map_of (xs @ b # ys) |` (- {fst b})) k = map_of (xs @ ys) k"
  proof (cases "k = fst b")
    case True
    with d have "k \<notin> fst ` set (xs @ ys)" by auto
    then have "map_of (xs @ ys) k = None" unfolding map_of_eq_None_iff .
    with True show ?thesis by (simp add: restrict_map_def map_add_def)
  next
    case False
    then show ?thesis by (cases b) (simp add: restrict_map_def map_add_def split: option.split)
  qed
qed

lemma routes_owned_others:
  assumes "routes_owned w (xs @ x # ys)"
  shows "others_routes (slot_owned (slot_kind x)) w = map_of (bindings (xs @ ys))"
    and "holds w (slot_owned (slot_kind x))"
proof -
  show "others_routes (slot_owned (slot_kind x)) w = map_of (bindings (xs @ ys))"
  proof (cases "slot_owned (slot_kind x)")
    case (Some b)
    with assms map_of_without [of "bindings xs" b "bindings ys"] show ?thesis
      by (simp add: routes_owned_def others_routes_def)
  qed (use assms in \<open>simp add: routes_owned_def\<close>)
  show "holds w (slot_owned (slot_kind x))"
    unfolding holds_def
  proof (intro allI impI)
    fix k c
    assume "slot_owned (slot_kind x) = Some (k, c)"
    then have "(k, c) \<in> set (bindings (xs @ x # ys))" by simp
    with assms show "route_map w k = Some c"
      unfolding routes_owned_def by (simp del: bindings_append bindings_Cons add: map_of_eq_Some_iff)
  qed
qed

lemma routes_owned_update:
  assumes rest: "others_routes (slot_owned k) w = map_of (bindings (xs @ ys))" and own: "holds w (slot_owned k)"
    and dist: "distinct (map fst (bindings (xs @ ys)))"
  shows "routes_owned w (xs @ x\<lparr>slot_kind := k\<rparr> # ys)"
proof (cases "slot_owned k")
  case None
  with rest dist show ?thesis by (simp add: routes_owned_def)
next
  case (Some b)
  obtain key c where b: "b = (key, c)" by (cases b)
  have none: "map_of (bindings (xs @ ys)) key = None"
    by (simp add: rest [symmetric] others_routes_def Some b restrict_map_def del: bindings_append)
  then have key: "key \<notin> fst ` set (bindings xs)" "key \<notin> fst ` set (bindings ys)"
    by (simp_all add: map_of_eq_None_iff image_Un)
  have "route_map w = map_of (bindings xs @ (key, c) # bindings ys)"
  proof
    fix k'
    show "route_map w k' = map_of (bindings xs @ (key, c) # bindings ys) k'"
    proof (cases "k' = key")
      case True
      from key(1) have "map_of (bindings xs) key = None" by (simp add: map_of_eq_None_iff)
      with own True show ?thesis by (simp add: holds_def Some b map_add_def)
    next
      case False
      then have "route_map w k' = map_of (bindings (xs @ ys)) k'"
        by (simp add: rest [symmetric] others_routes_def Some b restrict_map_def del: bindings_append)
      with False show ?thesis by (simp add: map_add_def split: option.split)
    qed
  qed
  with Some dist key show ?thesis by (auto simp: routes_owned_def b)
qed

lemma routes_owned_remove:
  assumes "route_map w = map_of (bindings (xs @ ys))" and "distinct (map fst (bindings (xs @ ys)))"
  shows "routes_owned w (xs @ ys)"
  using assms by (simp add: routes_owned_def)

lemma sys_inv_new: "sys_inv (sys_new g)"
  by (simp add: sys_inv_def sys_new_def world_inv_new clients_inv_new routes_owned_def)
    (simp add: route_map_def world_new_def service_new_def network_new_def fun_eq_iff)

text \<open>What a session may have done to the world between two states of the system.\<close>

definition session_moved ::
  "'r world \<Rightarrow> (route_key \<times> chan) option \<Rightarrow> 'r world \<Rightarrow> (route_key \<times> chan) option \<Rightarrow> bool" where
  "session_moved w own w' own' =
     (world_inv w' \<and> clients (service w') = clients (service w) \<and> id_counter w' = id_counter w \<and>
      others_routes own' w' = others_routes own w \<and> holds w' own')"

lemma session_steps_moved:
  assumes "session_steps G c (w, l) (w', l')" and "world_inv w" and "holds w (owned c l)"
  shows "session_moved w (owned c l) w' (owned c l')"
  using session_steps_routes [OF assms] session_steps_clients [OF assms(1)] by (simp add: session_moved_def)

lemma clients_inv_same:
  "clients (service w') = clients (service w) \<Longrightarrow> id_counter w' = id_counter w \<Longrightarrow>
     clients_inv n w' hs = clients_inv n w hs"
  by (simp add: clients_inv_def)

lemma slots_split: "i < length ss \<Longrightarrow> ss = take i ss @ (ss ! i) # drop (Suc i) ss"
  by (rule id_take_nth_drop)

lemma sys_slot:
  assumes "sys_inv s" and "i < length (sys_slots s)"
  shows "kind_inv (slot_kind (sys_slots s ! i))"
    and "others_routes (slot_owned (slot_kind (sys_slots s ! i))) (sys_world s) =
      map_of (bindings (remove_slot i (sys_slots s)))"
    and "holds (sys_world s) (slot_owned (slot_kind (sys_slots s ! i)))"
    and "distinct (map fst (bindings (remove_slot i (sys_slots s))))"
proof -
  let ?xs = "take i (sys_slots s)" and ?x = "sys_slots s ! i" and ?ys = "drop (Suc i) (sys_slots s)"
  show "kind_inv (slot_kind ?x)" using assms by (simp add: sys_inv_def)
  have r: "routes_owned (sys_world s) (?xs @ ?x # ?ys)"
    using assms slots_split [OF assms(2)] by (simp add: sys_inv_def)
  from routes_owned_others [OF this]
  show "others_routes (slot_owned (slot_kind ?x)) (sys_world s) = map_of (bindings (remove_slot i (sys_slots s)))"
    and "holds (sys_world s) (slot_owned (slot_kind ?x))" unfolding remove_slot_def by blast+
  show "distinct (map fst (bindings (remove_slot i (sys_slots s))))"
    using r by (cases "slot_owned (slot_kind ?x)") (auto simp: routes_owned_def remove_slot_def)
qed

lemma sys_inv_turn:
  assumes inv: "sys_inv s" and i: "i < length (sys_slots s)"
    and moved: "session_moved (sys_world s) (slot_owned (slot_kind (sys_slots s ! i))) w (slot_owned k)"
    and k: "kind_inv k"
  shows "sys_inv (s\<lparr>sys_world := w, sys_slots := replace_slot i (sys_slots s) k\<rparr>)"
proof -
  let ?xs = "take i (sys_slots s)" and ?x = "sys_slots s ! i" and ?ys = "drop (Suc i) (sys_slots s)"
  have new: "replace_slot i (sys_slots s) k = ?xs @ ?x\<lparr>slot_kind := k\<rparr> # ?ys"
    using i by (simp add: replace_slot_def upd_conv_take_nth_drop)
  have "routes_owned w (?xs @ ?x\<lparr>slot_kind := k\<rparr> # ?ys)"
    using moved sys_slot(2,4) [OF inv i] unfolding remove_slot_def session_moved_def
    by (intro routes_owned_update) simp_all
  moreover have "map slot_client (replace_slot i (sys_slots s) k) = map slot_client (sys_slots s)"
    using i by (intro nth_equalityI) (simp_all add: replace_slot_def nth_list_update)
  then have "clients_inv (sys_opened s) w (map slot_client (replace_slot i (sys_slots s) k))"
    using inv moved clients_inv_same [of w "sys_world s"] by (simp add: sys_inv_def session_moved_def)
  moreover have "\<forall>x \<in> set (replace_slot i (sys_slots s) k). kind_inv (slot_kind x)"
    using inv k i unfolding new sys_inv_def by (auto dest: in_set_takeD in_set_dropD)
  ultimately show ?thesis using moved by (simp add: sys_inv_def session_moved_def new)
qed

lemma sys_inv_end:
  assumes inv: "sys_inv s" and i: "i < length (sys_slots s)"
    and moved: "session_moved (sys_world s) (slot_owned (slot_kind (sys_slots s ! i))) w (owned c l)"
    and fin: "session_end E (slot_client (sys_slots s ! i)) l res w = (w', es)"
    and res: "\<forall>e. res = Err e \<longrightarrow> \<not> unwinds e"
  shows "sys_inv (s\<lparr>sys_world := w', sys_slots := remove_slot i (sys_slots s)\<rparr>)"
proof -
  let ?hs = "map slot_client (sys_slots s)"
  have "clients_inv (sys_opened s) w ?hs"
    using inv moved clients_inv_same [of w "sys_world s"] by (simp add: sys_inv_def session_moved_def)
  then obtain w1 where w1: "service_remove_client (slot_client (sys_slots s ! i)) w = (w1, Ok ())"
    and c1: "clients_inv (sys_opened s) w1 (map slot_client (remove_slot i (sys_slots s)))"
    using clients_inv_disconnect [of "sys_opened s" w ?hs i] i
    unfolding remove_slot_def map_append take_map [symmetric] drop_map [symmetric] by (metis length_map nth_map)
  have inv1: "world_inv w1" using remove_client_inv [of w] moved w1 by (metis fst_conv session_moved_def)
  have net: "route_map w1 = route_map w"
    using w1 by (auto simp: service_remove_client_def route_map_def split: option.splits)
  have w': "w' = fst (drop_lease E l w1)" using fin res w1 by (auto simp: session_end_def split: sum.splits)
  have "route_map w' = map_of (bindings (remove_slot i (sys_slots s)))"
    using drop_lease_routes [OF inv1, of E l c] moved sys_slot(2) [OF inv i] net
    by (simp add: w' session_moved_def others_routes_def)
  moreover have "world_inv w'" unfolding w' using inv1 by (rule drop_lease_inv)
  moreover have "clients_inv (sys_opened s) w' (map slot_client (remove_slot i (sys_slots s)))"
    using c1 drop_lease_clients [of E l w1] clients_inv_same [of w' w1] by (simp add: w')
  moreover have "\<forall>x \<in> set (remove_slot i (sys_slots s)). kind_inv (slot_kind x)"
    using inv unfolding sys_inv_def remove_slot_def by (auto dest: in_set_takeD in_set_dropD)
  ultimately show ?thesis using sys_slot(4) [OF inv i] by (simp add: sys_inv_def routes_owned_def)
qed

text \<open>Making a channel moves nothing that the invariant speaks of.\<close>

lemma fresh_chan_moved:
  assumes "sys_inv s"
  shows "session_moved (sys_world s) None ((sys_world s)\<lparr>next_chan := n\<rparr>) None"
  using assms by (simp add: session_moved_def sys_inv_def world_simps)

lemma sys_inv_connect:
  assumes inv: "sys_inv s" and n: "sys_opened s < 2 ^ 64"
    and new: "service_new_client remote (sys_world s) = (w, h)"
  shows "sys_inv (s\<lparr>sys_world := w, sys_slots := sys_slots s @ [\<lparr>slot_client = h, slot_kind = Handshake\<rparr>],
    sys_opened := Suc (sys_opened s)\<rparr>)"
proof -
  have "world_inv w" using new_client_inv [of "sys_world s" remote] inv new by (simp add: sys_inv_def)
  moreover have "clients_inv (Suc (sys_opened s)) w (map slot_client (sys_slots s) @ [h])"
    using inv by (intro clients_inv_connect [OF _ n new]) (simp add: sys_inv_def)
  moreover have "route_map w = route_map (sys_world s)"
    using new by (auto simp: service_new_client_def client_new_def route_map_def)
  ultimately show ?thesis using inv by (auto simp: sys_inv_def routes_owned_def)
qed

lemma ws_turn_moved:
  assumes inv: "sys_inv s" and i: "i < length (sys_slots s)"
    and k: "slot_kind (sys_slots s ! i) = OnWebSocket c st"
    and turn: "ws_turn G B E W ev st (sys_world s) = (w, st', as, res)"
  shows "session_moved (sys_world s) (slot_owned (slot_kind (sys_slots s ! i))) w (owned c (ws_lease st'))"
proof -
  have "ws_relay st = None \<or> ws_relay st = Some c" using sys_slot(1) [OF inv i] by (simp add: k)
  from ws_turn_facts(1) [OF turn this] sys_slot(3) [OF inv i] inv show ?thesis
    by (simp add: k sys_inv_def session_steps_moved)
qed

lemma wt_turn_moved:
  assumes inv: "sys_inv s" and i: "i < length (sys_slots s)"
    and k: "slot_kind (sys_slots s ! i) = OnWebTransport c st" and en: "wt_enabled st ev"
    and turn: "wt_turn G B T W ev st (sys_world s) = (w, st', as, res)"
  shows "session_moved (sys_world s) (slot_owned (slot_kind (sys_slots s ! i))) w (owned c (wt_lease st'))"
proof -
  have st: "wt_inv st" "wt_relay st = None \<or> wt_relay st = Some c" using sys_slot(1) [OF inv i] by (simp_all add: k)
  have "session_steps G c (sys_world s, wt_lease st) (w, wt_lease st')" using wt_turn_facts [OF turn st en] by blast
  with sys_slot(3) [OF inv i] inv show ?thesis by (simp add: k sys_inv_def session_steps_moved)
qed

text \<open>A turn does not make a session another relay sender.\<close>

lemma ws_turn_relay:
  assumes turn: "ws_turn G B E W ev st w = (w', st', as, res)" and rel: "ws_relay st = None \<or> ws_relay st = Some c"
  shows "ws_relay st' = None \<or> ws_relay st' = Some c"
proof (cases "(G, B, E, W, ev, st, w)" rule: ws_turn.cases)
  case (1 G' B' E' W' m st0 w0)
  then have m: "ws_handle_message G B E W m st w = (w', st', as, res)" using turn by simp
  show ?thesis
  proof (cases "(G, B, E, W, m, st, w)" rule: ws_handle_message.cases)
    case (1 G'' B'' E'' W'' cmd)
    from 1 m have "ws_handle_text G E W st cmd w = (w', st', as, res)" by simp
    then show ?thesis
      using rel handle_command_sender [of G E cmd "ws_relay st" w]
      by (cases rule: ws_text_cases [of st G E W cmd w]) auto
  qed (use m 1 rel in \<open>auto dest: ws_reply_facts ws_datagram_facts\<close>)
qed (use turn rel in \<open>auto split: if_splits dest: ws_done_facts ws_reply_facts\<close>)

lemma wt_commands_relay:
  "wt_commands G B T W k st w = (w', st', as, res) \<Longrightarrow> wt_relay st' = wt_relay st \<or> wt_relay st' = None"
proof -
  define P where "P = (\<lambda>(k :: nat) (st :: wt_session) (w :: 'a world)
      (w' :: 'a world, st' :: wt_session, as :: wt_out action list, res :: unit result). wt_relay st' = wt_relay st \<or> wt_relay st' = None)"
  have "P k st w (wt_commands G B T W k st w)"
  proof (induction rule: wt_commands_induct)
    case (leased k st w l)
    then show ?case
      using wt_relay_stream_facts(2) [of B "T k" "st\<lparr>wt_cmdbuf := []\<rparr>" "wt_cmdbuf st" w]
      by (cases "wt_relay_stream B (T k) (st\<lparr>wt_cmdbuf := []\<rparr>) (wt_cmdbuf st) w") (auto simp: P_def)
  next
    case (error k st w n w' relay' es e')
    with handle_command_sender [OF error(3)] show ?case by (simp add: P_def)
  next
    case (unsent k st w n w' relay' es r as e')
    with handle_command_sender [OF unsent(3)] show ?case by (simp add: P_def)
  next
    case (answered k st w n w' relay' es r as w2 st2 as2 res)
    with handle_command_sender [OF answered(3)] show ?case by (auto simp: P_def)
  qed (simp add: P_def)
  moreover assume "wt_commands G B T W k st w = (w', st', as, res)"
  ultimately show ?thesis by (simp add: P_def)
qed

lemma wt_turn_relay:
  assumes turn: "wt_turn G B T W ev st w = (w', st', as, res)" and rel: "wt_relay st = None \<or> wt_relay st = Some c"
  shows "wt_relay st' = None \<or> wt_relay st' = Some c"
proof -
  have data: "wt_relay st' = wt_relay st \<or> wt_relay st' = None"
    if "wt_handle_data G B T W st d w = (w', st', as, res)" for d
    using that wt_commands_relay [of G B T W 0 "st\<lparr>wt_cmdbuf := wt_cmdbuf st @ d\<rparr>" w w' st' as res]
      wt_relay_stream_facts(2) [of B "T 0" st d w w' st' as res]
    by (auto simp: wt_handle_data_def split: if_splits)
  then show ?thesis
    using turn rel
    by (cases "(G, B, T, W, ev, st, w)" rule: wt_turn.cases)
      (auto simp: wt_handle_datagram_def split: if_splits sum.splits option.splits prod.splits)
qed

theorem sys_step_inv:
  assumes inv: "sys_inv s" and step: "sys_step G B s t"
  shows "sys_inv t"
  using step
proof cases
  case (gone_ws peer w e)
  with ws_begin_Err [OF gone_ws(2)] inv show ?thesis by simp
next
  case (accept_ws peer w h)
  then obtain remote where "service_new_client remote (sys_world s) = (w, h)" by (auto simp: ws_begin_Ok)
  with sys_inv_connect [OF inv accept_ws(2)] accept_ws(1) show ?thesis by simp
next
  case (handshake_ws i secure tls upgrade c)
  have "session_moved (sys_world s) (slot_owned (slot_kind (sys_slots s ! i))) ((sys_world s)\<lparr>next_chan := c + 1\<rparr>)
      (slot_owned (OnWebSocket c (ws_new c)))"
    using fresh_chan_moved [OF inv] by (simp add: handshake_ws(3) ws_new_def)
  from sys_inv_turn [OF inv handshake_ws(2) this] show ?thesis
    by (simp add: handshake_ws(1) ws_inv_new) (simp add: ws_new_def)
next
  case (handshake_fails i secure tls upgrade e E w es)
  have "session_moved (sys_world s) (slot_owned (slot_kind (sys_slots s ! i))) (sys_world s) (owned c None)" for c
    using inv by (simp add: handshake_fails(3) session_moved_def sys_inv_def)
  from sys_inv_end [OF inv handshake_fails(2) this handshake_fails(6)] handshake_fails(5) show ?thesis
    by (simp add: handshake_fails(1))
next
  case (accept_wt remote w h c)
  let ?s = "s\<lparr>sys_world := w, sys_slots := sys_slots s @ [\<lparr>slot_client = h, slot_kind = Handshake\<rparr>],
    sys_opened := Suc (sys_opened s)\<rparr>"
  note new = sys_inv_connect [OF inv accept_wt(2,3)]
  have "session_moved (sys_world ?s) (slot_owned (slot_kind (sys_slots ?s ! length (sys_slots s))))
      (w\<lparr>next_chan := c + 1\<rparr>) (slot_owned (OnWebTransport c (wt_new c)))"
    using fresh_chan_moved [OF new] by (simp add: wt_new_def)
  from sys_inv_turn [OF new _ this] show ?thesis
    by (simp add: accept_wt(1) wt_inv_new replace_slot_def sys_inv_def) (simp add: wt_new_def)
next
  case (ws_goes_on i c st ev E W w st' as)
  note slot = sys_slot(1) [OF inv ws_goes_on(2), unfolded ws_goes_on(3)]
  have "kind_inv (OnWebSocket c st')"
    using slot ws_turn_facts(2) [OF ws_goes_on(5)] ws_turn_relay [OF ws_goes_on(5)] by simp
  with sys_inv_turn [OF inv ws_goes_on(2), of w "OnWebSocket c st'"] ws_turn_moved [OF inv ws_goes_on(2,3,5)]
  show ?thesis by (simp add: ws_goes_on(1))
next
  case (ws_ends i c st ev E W w st' as res E' w' es)
  have "\<not> unwinds e" if "res = Err e" for e
    using ws_turn_facts(3) [OF ws_ends(5) that] ws_ends(4,7) that by auto
  with sys_inv_end [OF inv ws_ends(2) ws_turn_moved [OF inv ws_ends(2,3,5)] ws_ends(8)] show ?thesis
    by (simp add: ws_ends(1))
next
  case (wt_goes_on i c st ev T W w st' as)
  note slot = sys_slot(1) [OF inv wt_goes_on(2), unfolded wt_goes_on(3)]
  have "kind_inv (OnWebTransport c st')"
    using slot wt_turn_facts [OF wt_goes_on(6) _ _ wt_goes_on(4), of c] wt_turn_relay [OF wt_goes_on(6), of c] by simp
  with sys_inv_turn [OF inv wt_goes_on(2), of w "OnWebTransport c st'"] wt_turn_moved [OF inv wt_goes_on(2,3,4,6)]
  show ?thesis by (simp add: wt_goes_on(1))
next
  case (wt_ends i c st ev T W w st' as e E' w' es)
  note slot = sys_slot(1) [OF inv wt_ends(2), unfolded wt_ends(3)]
  have "\<not> unwinds e"
    using slot wt_turn_facts [OF wt_ends(6) _ _ wt_ends(4), of c e] wt_ends(5,7) by auto
  with sys_inv_end [OF inv wt_ends(2) wt_turn_moved [OF inv wt_ends(2,3,4,6)] wt_ends(8)] show ?thesis
    by (simp add: wt_ends(1))
qed

interpretation sys: invariant_system "sys_new g" "sys_step G B" sys_inv for g G B
  by unfold_locales (auto intro: sys_inv_new sys_step_inv)

end
