(* ===== verification/System_Spec.thy ===== *)
theory System_Spec
  imports Proxy_System
begin

text \<open>
  What the proxy promises, without sessions' buffers, relays and tables: a registry of the private
  network, and for each client that is connected what it holds. Every step of the system of
  \<open>Proxy_System\<close> is a sequence of steps of this one.
\<close>

section \<open>The specification\<close>

datatype held = Idle | Port route_key | Service_link

record spec_state =
  spec_registry :: registry
  spec_clients :: "u64 \<rightharpoonup> held"

definition spec_new :: spec_state where
  "spec_new = \<lparr>spec_registry = Map.empty, spec_clients = Map.empty\<rparr>"

text \<open>
  A client joins; while it holds nothing it is assigned addresses, claims one port of an
  address whose passcode it shows, or opens a link to a service of the proxy. What it holds it
  keeps until it gives it up, which frees the port, and it leaves holding nothing.
\<close>

inductive spec_step :: "spec_state \<Rightarrow> spec_state \<Rightarrow> bool" where
  join: "spec_clients S i = None \<Longrightarrow> spec_step S (S\<lparr>spec_clients := (spec_clients S)(i \<mapsto> Idle)\<rparr>)"
| assign: "spec_clients S i = Some Idle \<Longrightarrow> registry_step (spec_registry S) (LAssign a pc t1 t2) R \<Longrightarrow>
     spec_step S (S\<lparr>spec_registry := R\<rparr>)"
| claim: "spec_clients S i = Some Idle \<Longrightarrow> registry_step (spec_registry S) (LBind k pc c now) R \<Longrightarrow>
     spec_step S (S\<lparr>spec_registry := R, spec_clients := (spec_clients S)(i \<mapsto> Port k)\<rparr>)"
| link: "spec_clients S i = Some Idle \<Longrightarrow>
     spec_step S (S\<lparr>spec_clients := (spec_clients S)(i \<mapsto> Service_link)\<rparr>)"
| release: "spec_clients S i = Some (Port k) \<Longrightarrow> registry_step (spec_registry S) (LUnbind k now) R \<Longrightarrow>
     spec_step S (S\<lparr>spec_registry := R, spec_clients := (spec_clients S)(i \<mapsto> Idle)\<rparr>)"
| unlink: "spec_clients S i = Some Service_link \<Longrightarrow>
     spec_step S (S\<lparr>spec_clients := (spec_clients S)(i \<mapsto> Idle)\<rparr>)"
| leave: "spec_clients S i = Some Idle \<Longrightarrow> spec_step S (S\<lparr>spec_clients := (spec_clients S)(i := None)\<rparr>)"

text \<open>The steps, from a state given by its components.\<close>

lemmas spec_intros = spec_step.intros [where S = "\<lparr>spec_registry = R0, spec_clients = M\<rparr>" for R0 M, simplified]

section \<open>What the system shows of itself\<close>

fun held_of :: "lease option \<Rightarrow> held" where
  "held_of None = Idle"
| "held_of (Some (BindLease h)) = Port (bind_key h)"
| "held_of (Some _) = Service_link"

fun slot_held :: "session_kind \<Rightarrow> held" where
  "slot_held Handshake = Idle"
| "slot_held (OnWebSocket c st) = held_of (ws_lease st)"
| "slot_held (OnWebTransport c st) = held_of (wt_lease st)"

definition slots_held :: "session_slot list \<Rightarrow> u64 \<rightharpoonup> held" where
  "slots_held ss = map_of (map (\<lambda>x. (client_id (slot_client x), slot_held (slot_kind x))) ss)"

definition spec_of :: "'r system \<Rightarrow> spec_state" where
  "spec_of s = \<lparr>spec_registry = registry_of (net_of (sys_world s)), spec_clients = slots_held (sys_slots s)\<rparr>"

lemma spec_of_new: "spec_of (sys_new g) = spec_new"
  by (simp add: spec_of_def sys_new_def slots_held_def spec_new_def world_new_def service_new_def network_new_def
      registry_of_def fun_eq_iff)

section \<open>One session\<close>

lemma spec_release:
  assumes "network_inv (net_of w)" and "M i = Some (held_of (Some l))"
  shows "spec_step \<lparr>spec_registry = registry_of (net_of w), spec_clients = M\<rparr>
    \<lparr>spec_registry = registry_of (net_of (fst (drop_lease E (Some l) w))), spec_clients = M(i \<mapsto> Idle)\<rparr>"
proof (cases l)
  case (BindLease h)
  have "registry_step (registry_of (net_of w)) (LUnbind (bind_key h) (clock1 E))
      (registry_of (network_unbind E (bind_key h) (net_of w)))"
    by (rule net_op_refines [OF assms(1) net_op.unbind [OF refl]])
  with assms(2) show ?thesis
    by (simp add: BindLease drop_lease_def lease_drop_def bind_close_def spec_intros)
qed (use assms(2) in \<open>simp_all add: drop_lease_def lease_drop_def connect_close_def dns_close_def spec_intros\<close>)

lemma spec_session_step:
  assumes "session_step G c (w, l) (w', l')" and "world_inv w" and "M i = Some (held_of l)"
  shows "spec_step\<^sup>*\<^sup>* \<lparr>spec_registry = registry_of (net_of w), spec_clients = M\<rparr>
    \<lparr>spec_registry = registry_of (net_of w'), spec_clients = M(i \<mapsto> held_of l')\<rparr>"
proof -
  note inv = world_inv_network [OF assms(2)]
  from assms(1) show ?thesis
  proof cases
    case (assign E ap)
    obtain a pc r s where n: "network_assign G E (rng w) (net_of w) = Some ((a, pc), r, s)" "net_of w' = s"
      using assign(3) by (auto simp: service_assign_def split: option.splits)
    from net_op_refines [OF inv net_op.assign [OF n(1)]]
    have "spec_step \<lparr>spec_registry = registry_of (net_of w), spec_clients = M\<rparr>
        \<lparr>spec_registry = registry_of (net_of w'), spec_clients = M\<rparr>"
      using assms(3) assign(1) n(2) by (intro spec_intros(2) [of M i]) auto
    moreover have "M(i \<mapsto> Idle) = M" using assms(3) assign(1) by auto
    ultimately show ?thesis using assign(2) by auto
  next
    case (bind E pc port es l2)
    obtain s es' h where n: "network_bind E pc port c (next_chan w) (net_of w) = (s, es', Ok h)" "net_of w' = s" "l2 = BindLease h"
      using bind(3) by (auto simp: service_bind_def split: prod.splits sum.splits)
    from net_op_refines [OF inv net_op.bind [OF n(1)]]
    have "spec_step \<lparr>spec_registry = registry_of (net_of w), spec_clients = M\<rparr>
        \<lparr>spec_registry = registry_of (net_of w'), spec_clients = M(i \<mapsto> Port (bind_key h))\<rparr>"
      using assms(3) bind(1) n(2) by (intro spec_intros(3)) auto
    then show ?thesis using bind(2) n(3) by auto
  next
    case (route addr es l2)
    have "net_of w' = net_of w" "held_of (Some l2) = Service_link"
      using route(3) by (auto simp: service_route_def split: if_splits prod.splits)
    with assms(3) route(1,2) show ?thesis by (auto intro!: r_into_rtranclp spec_intros(4))
  next
    case (lost l2 E)
    with spec_release [OF inv, of M i l2 E] assms(3) show ?thesis by auto
  qed
qed

lemma spec_session_steps:
  assumes "session_steps G c (w, l) (w', l')" and "world_inv w" and "M i = Some (held_of l)"
  shows "spec_step\<^sup>*\<^sup>* \<lparr>spec_registry = registry_of (net_of w), spec_clients = M\<rparr>
    \<lparr>spec_registry = registry_of (net_of w'), spec_clients = M(i \<mapsto> held_of l')\<rparr>"
  using assms(1)
proof (induction rule: rtranclp_induct2)
  case refl
  have "M(i \<mapsto> held_of l) = M" using assms(3) by auto
  then show ?case by simp
next
  case (step w1 l1 w2 l2)
  have "world_inv w1" using session_steps_inv [OF step(1)] assms(2) by simp
  then have "spec_step\<^sup>*\<^sup>* \<lparr>spec_registry = registry_of (net_of w1), spec_clients = M(i \<mapsto> held_of l1)\<rparr>
      \<lparr>spec_registry = registry_of (net_of w2), spec_clients = (M(i \<mapsto> held_of l1))(i \<mapsto> held_of l2)\<rparr>"
    by (rule spec_session_step [OF step(2)]) simp
  from rtranclp_trans [OF step(3) this] show ?case by (simp only: fun_upd_upd)
qed

text \<open>The end of a session, whatever came before.\<close>

lemma spec_session_end:
  assumes "session_end E client l res w = (w', es)" and "\<forall>e. res = Err e \<longrightarrow> \<not> unwinds e"
    and "world_inv w" and "M i = Some (held_of l)"
  shows "spec_step\<^sup>*\<^sup>* \<lparr>spec_registry = registry_of (net_of w), spec_clients = M\<rparr>
    \<lparr>spec_registry = registry_of (net_of w'), spec_clients = M(i := None)\<rparr>"
proof -
  define w1 where "w1 = fst (service_remove_client client w)"
  have w': "w' = fst (drop_lease E l w1)" using assms(1,2) by (auto simp: session_end_def w1_def split: sum.splits)
  have net: "net_of w1 = net_of w" by (simp add: w1_def service_remove_client_def split: option.split)
  have "spec_step\<^sup>*\<^sup>* \<lparr>spec_registry = registry_of (net_of w), spec_clients = M\<rparr>
      \<lparr>spec_registry = registry_of (net_of w'), spec_clients = M(i \<mapsto> Idle)\<rparr>"
  proof (cases l)
    case None
    have "M(i \<mapsto> Idle) = M" using assms(4) None by auto
    then show ?thesis by (simp add: w' None drop_lease_def net)
  next
    case (Some l2)
    have "network_inv (net_of w1)" using world_inv_network [OF assms(3)] by (simp add: net)
    from spec_release [OF this, of M i l2 E] show ?thesis using assms(4) Some net by (simp add: w')
  qed
  moreover have "spec_step \<lparr>spec_registry = registry_of (net_of w'), spec_clients = M(i \<mapsto> Idle)\<rparr>
      \<lparr>spec_registry = registry_of (net_of w'), spec_clients = M(i := None)\<rparr>"
    using spec_intros(7) [of "M(i \<mapsto> Idle)" i] by simp
  ultimately show ?thesis by (rule rtranclp.rtrancl_into_rtrancl)
qed

section \<open>The whole system\<close>

text \<open>One entry of an association list is replaced, or goes.\<close>

lemma map_of_replace:
  "k \<notin> fst ` set xs \<Longrightarrow> map_of (xs @ (k, v) # ys) = (map_of (xs @ (k, u) # ys))(k \<mapsto> v)"
  by (induction xs) auto

lemma map_of_remove:
  "k \<notin> fst ` set xs \<Longrightarrow> k \<notin> fst ` set ys \<Longrightarrow> map_of (xs @ ys) = (map_of (xs @ (k, u) # ys))(k := None)"
proof (induction xs)
  case Nil
  then have "map_of ys k = None" by (simp add: map_of_eq_None_iff)
  then show ?case by auto
qed auto

lemma slots_held_split:
  assumes "i < length ss" and "distinct (map (\<lambda>x. client_id (slot_client x)) ss)"
  obtains xs ys where "slots_held ss = map_of (xs @ (client_id (slot_client (ss ! i)), slot_held (slot_kind (ss ! i))) # ys)"
    "client_id (slot_client (ss ! i)) \<notin> fst ` set xs" "client_id (slot_client (ss ! i)) \<notin> fst ` set ys"
    "\<And>k. slots_held (replace_slot i ss k) = map_of (xs @ (client_id (slot_client (ss ! i)), slot_held k) # ys)"
    "slots_held (remove_slot i ss) = map_of (xs @ ys)"
proof -
  let ?f = "\<lambda>x. (client_id (slot_client x), slot_held (slot_kind x))"
  note split = id_take_nth_drop [OF assms(1)]
  have "distinct (map (\<lambda>x. client_id (slot_client x)) (take i ss @ ss ! i # drop (Suc i) ss))"
    using assms(2) split by simp
  then have "client_id (slot_client (ss ! i)) \<notin> fst ` set (map ?f (take i ss))"
    "client_id (slot_client (ss ! i)) \<notin> fst ` set (map ?f (drop (Suc i) ss))" by (auto simp: image_image)
  moreover have "map ?f ss = map ?f (take i ss) @ ?f (ss ! i) # map ?f (drop (Suc i) ss)"
    by (subst split) simp
  moreover have "replace_slot i ss k = take i ss @ (ss ! i)\<lparr>slot_kind := k\<rparr> # drop (Suc i) ss" for k
    using assms(1) by (simp add: replace_slot_def upd_conv_take_nth_drop)
  ultimately show thesis
    by (intro that [of "map ?f (take i ss)" "map ?f (drop (Suc i) ss)"])
      (simp_all add: slots_held_def remove_slot_def)
qed

lemma slots_held_replace:
  assumes "i < length ss" and "distinct (map (\<lambda>x. client_id (slot_client x)) ss)"
  shows "slots_held (replace_slot i ss k) = (slots_held ss)(client_id (slot_client (ss ! i)) \<mapsto> slot_held k)"
  using assms by (rule slots_held_split) (simp only:, rule map_of_replace, assumption)

lemma slots_held_remove:
  assumes "i < length ss" and "distinct (map (\<lambda>x. client_id (slot_client x)) ss)"
  shows "slots_held (remove_slot i ss) = (slots_held ss)(client_id (slot_client (ss ! i)) := None)"
  using assms by (rule slots_held_split) (simp only:, rule map_of_remove, assumption+)

lemma slots_held_nth:
  assumes "i < length ss" and "distinct (map (\<lambda>x. client_id (slot_client x)) ss)"
  shows "slots_held ss (client_id (slot_client (ss ! i))) = Some (slot_held (slot_kind (ss ! i)))"
  using assms unfolding slots_held_def by (intro map_of_is_SomeI) (auto simp: comp_def)

lemma slots_held_new:
  assumes "client_id h \<notin> (\<lambda>x. client_id (slot_client x)) ` set ss"
  shows "slots_held (ss @ [\<lparr>slot_client = h, slot_kind = k\<rparr>]) = (slots_held ss)(client_id h \<mapsto> slot_held k)"
    and "slots_held ss (client_id h) = None"
proof -
  let ?f = "\<lambda>x. (client_id (slot_client x), slot_held (slot_kind x))"
  have h: "client_id h \<notin> fst ` set (map ?f ss)" using assms by (auto simp: image_image)
  then show "slots_held ss (client_id h) = None" unfolding slots_held_def by (simp only: map_of_eq_None_iff) simp
  have "k' \<notin> fst ` set xs \<Longrightarrow> map_of (xs @ [(k', v)]) = (map_of xs)(k' \<mapsto> v)" for k' :: u64 and v :: held and xs
    by (induction xs) auto
  from this [OF h] show "slots_held (ss @ [\<lparr>slot_client = h, slot_kind = k\<rparr>]) = (slots_held ss)(client_id h \<mapsto> slot_held k)"
    by (simp add: slots_held_def)
qed

lemma sys_inv_distinct: "sys_inv s \<Longrightarrow> distinct (map (\<lambda>x. client_id (slot_client x)) (sys_slots s))"
  by (simp add: sys_inv_def clients_inv_def comp_def)

text \<open>A client that joins has a number no other has.\<close>

lemma spec_join:
  assumes inv: "sys_inv s" and n: "sys_opened s < 2 ^ 64" and new: "service_new_client remote (sys_world s) = (w, h)"
    and k: "slot_held k = Idle"
  shows "spec_step (spec_of s) (spec_of (s\<lparr>sys_world := w\<lparr>next_chan := c\<rparr>,
    sys_slots := sys_slots s @ [\<lparr>slot_client = h, slot_kind = k\<rparr>], sys_opened := m\<rparr>))"
proof -
  have "distinct (map client_id (map slot_client (sys_slots s) @ [h]))"
    using clients_inv_connect [OF _ n new, of "map slot_client (sys_slots s)"] inv by (simp add: sys_inv_def clients_inv_def)
  then have "client_id h \<notin> (\<lambda>x. client_id (slot_client x)) ` set (sys_slots s)" by (auto simp: image_image)
  note slots_held_new [OF this]
  moreover have "net_of w = net_of (sys_world s)" using new by (auto simp: service_new_client_def client_new_def)
  ultimately show ?thesis by (simp add: spec_of_def k spec_intros(1))
qed

text \<open>A turn of the session in slot \<open>i\<close>, and its end.\<close>

lemma spec_turn:
  assumes inv: "sys_inv s" and i: "i < length (sys_slots s)" and l: "slot_held (slot_kind (sys_slots s ! i)) = held_of l"
    and steps: "session_steps G c (sys_world s, l) (w, l')" and k: "slot_held k = held_of l'"
  shows "spec_step\<^sup>*\<^sup>* (spec_of s) (spec_of (s\<lparr>sys_world := w, sys_slots := replace_slot i (sys_slots s) k\<rparr>))"
proof -
  note d = sys_inv_distinct [OF inv]
  have "world_inv (sys_world s)" using inv by (simp add: sys_inv_def)
  from spec_session_steps [OF steps this, of "slots_held (sys_slots s)"] slots_held_nth [OF i d] l
  show ?thesis by (simp add: spec_of_def slots_held_replace [OF i d] k del: fun_upd_apply)
qed

lemma spec_end:
  assumes inv: "sys_inv s" and i: "i < length (sys_slots s)" and l: "slot_held (slot_kind (sys_slots s ! i)) = held_of l"
    and steps: "session_steps G c (sys_world s, l) (w, l')"
    and fin: "session_end E client l' res w = (w', es)" and res: "\<forall>e. res = Err e \<longrightarrow> \<not> unwinds e"
  shows "spec_step\<^sup>*\<^sup>* (spec_of s) (spec_of (s\<lparr>sys_world := w', sys_slots := remove_slot i (sys_slots s)\<rparr>))"
proof -
  let ?M = "slots_held (sys_slots s)" and ?id = "client_id (slot_client (sys_slots s ! i))"
  note d = sys_inv_distinct [OF inv]
  have w: "world_inv (sys_world s)" using inv by (simp add: sys_inv_def)
  have M: "?M ?id = Some (held_of l)" using slots_held_nth [OF i d] l by simp
  have "world_inv w" using session_steps_inv [OF steps] w by simp
  from spec_session_end [OF fin res this, of "?M(?id \<mapsto> held_of l')" ?id]
  have "spec_step\<^sup>*\<^sup>* \<lparr>spec_registry = registry_of (net_of w), spec_clients = ?M(?id \<mapsto> held_of l')\<rparr>
      \<lparr>spec_registry = registry_of (net_of w'), spec_clients = ?M(?id := None)\<rparr>" by simp
  with spec_session_steps [OF steps w, of ?M ?id, OF M]
  have "spec_step\<^sup>*\<^sup>* \<lparr>spec_registry = registry_of (net_of (sys_world s)), spec_clients = ?M\<rparr>
      \<lparr>spec_registry = registry_of (net_of w'), spec_clients = ?M(?id := None)\<rparr>" by (rule rtranclp_trans)
  then show ?thesis by (simp add: spec_of_def slots_held_remove [OF i d])
qed

lemma ws_turn_session:
  assumes inv: "sys_inv s" and i: "i < length (sys_slots s)"
    and k: "slot_kind (sys_slots s ! i) = OnWebSocket c st"
    and turn: "ws_turn G B E W ev st (sys_world s) = (w, st', as, res)"
  shows "session_steps G c (sys_world s, ws_lease st) (w, ws_lease st')"
  using sys_slot(1) [OF inv i] by (intro ws_turn_facts(1) [OF turn]) (simp add: k)

lemma wt_turn_session:
  assumes inv: "sys_inv s" and i: "i < length (sys_slots s)"
    and k: "slot_kind (sys_slots s ! i) = OnWebTransport c st" and en: "wt_enabled st ev"
    and turn: "wt_turn G B T W ev st (sys_world s) = (w, st', as, res)"
  shows "session_steps G c (sys_world s, wt_lease st) (w, wt_lease st')"
    and "wt_event_ok st ev \<Longrightarrow> res = Err e \<Longrightarrow> e \<noteq> Diverges \<Longrightarrow> \<not> unwinds e"
proof -
  have st: "wt_inv st" "wt_relay st = None \<or> wt_relay st = Some c" using sys_slot(1) [OF inv i] by (simp_all add: k)
  show "session_steps G c (sys_world s, wt_lease st) (w, wt_lease st')" using wt_turn_facts [OF turn st en] by blast
  show "wt_event_ok st ev \<Longrightarrow> res = Err e \<Longrightarrow> e \<noteq> Diverges \<Longrightarrow> \<not> unwinds e"
    using wt_turn_facts [OF turn st en, of e] by blast
qed

lemma sys_step_spec:
  assumes inv: "sys_inv s" and step: "sys_step G B s t"
  shows "spec_step\<^sup>*\<^sup>* (spec_of s) (spec_of t)"
  using step
proof cases
  case (gone_ws peer w e)
  with ws_begin_Err [OF gone_ws(2)] show ?thesis by simp
next
  case (accept_ws peer w h)
  then obtain remote where new: "service_new_client remote (sys_world s) = (w, h)" by (auto simp: ws_begin_Ok)
  from spec_join [OF inv accept_ws(2) new, where k = Handshake and c = "next_chan w" and m = "Suc (sys_opened s)"] show ?thesis
    by (simp add: accept_ws(1) r_into_rtranclp)
next
  case (handshake_ws i secure tls upgrade c)
  let ?w = "sys_world s\<lparr>next_chan := c + 1\<rparr>"
  have "slots_held (replace_slot i (sys_slots s) (OnWebSocket c (ws_new c))) = slots_held (sys_slots s)"
    using slots_held_replace [OF handshake_ws(2) sys_inv_distinct [OF inv]]
      slots_held_nth [OF handshake_ws(2) sys_inv_distinct [OF inv]] handshake_ws(3)
    by (simp add: ws_new_def fun_upd_idem)
  then show ?thesis by (simp add: handshake_ws(1) spec_of_def)
next
  case (handshake_fails i secure tls upgrade e E w es)
  from spec_end [OF inv handshake_fails(2) _ rtranclp.rtrancl_refl handshake_fails(6)] handshake_fails(3,5)
  show ?thesis by (simp add: handshake_fails(1))
next
  case (accept_wt remote w h c)
  from spec_join [OF inv accept_wt(2,3), where k = "OnWebTransport c (wt_new c)" and c = "c + 1" and m = "Suc (sys_opened s)"] show ?thesis
    by (simp add: accept_wt(1) wt_new_def r_into_rtranclp)
next
  case (ws_goes_on i c st ev E W w st' as)
  from spec_turn [OF inv ws_goes_on(2) _ ws_turn_session [OF inv ws_goes_on(2,3,5)]] ws_goes_on(3) show ?thesis
    by (simp add: ws_goes_on(1))
next
  case (ws_ends i c st ev E W w st' as res E' w' es)
  have "\<not> unwinds e" if "res = Err e" for e
    using ws_turn_facts(3) [OF ws_ends(5) that] ws_ends(4,7) that by auto
  with spec_end [OF inv ws_ends(2) _ ws_turn_session [OF inv ws_ends(2,3,5)] ws_ends(8)] ws_ends(3) show ?thesis
    by (simp add: ws_ends(1))
next
  case (wt_goes_on i c st ev T W w st' as)
  from spec_turn [OF inv wt_goes_on(2) _ wt_turn_session(1) [OF inv wt_goes_on(2,3,4,6)]] wt_goes_on(3) show ?thesis
    by (simp add: wt_goes_on(1))
next
  case (wt_ends i c st ev T W w st' as e E' w' es)
  have "\<not> unwinds e" using wt_turn_session(2) [OF inv wt_ends(2,3,4,6,5) refl wt_ends(7)] .
  with spec_end [OF inv wt_ends(2) _ wt_turn_session(1) [OF inv wt_ends(2,3,4,6)] wt_ends(8)] wt_ends(3) show ?thesis
    by (simp add: wt_ends(1))
qed

interpretation sys_sim: simulation "sys_new g" "sys_step G B" sys_inv spec_of spec_step for g G B
  by unfold_locales (rule sys_step_spec)

section \<open>What the specification keeps\<close>

text \<open>
  A port that a client holds is bound in the registry, and no two clients hold the same one. It is
  shown of the specification alone, and so holds of the system.
\<close>

definition bound_in :: "registry \<Rightarrow> route_key \<Rightarrow> bool" where
  "bound_in R k = (\<exists>x. R (fst k) = Some x \<and> ports x (snd k) \<noteq> None)"

definition spec_ok :: "spec_state \<Rightarrow> bool" where
  "spec_ok S =
     ((\<forall>i k. spec_clients S i = Some (Port k) \<longrightarrow> bound_in (spec_registry S) k) \<and>
      (\<forall>i j k. spec_clients S i = Some (Port k) \<longrightarrow> spec_clients S j = Some (Port k) \<longrightarrow> i = j))"

lemma bound_in_expire: "bound_in R k \<Longrightarrow> bound_in (registry_expire t R) k"
  by (auto simp: bound_in_def registry_expire_def split: option.split)

lemma bound_in_assign:
  assumes "registry_step R (LAssign a pc t1 t2) R'" and "bound_in R k"
  shows "bound_in R' k"
proof -
  from assms(2) have "bound_in (registry_expire t1 R) k" by (rule bound_in_expire)
  with assms(1) show ?thesis by (cases) (auto simp: bound_in_def)
qed

lemma bound_in_bind:
  assumes "registry_step R (LBind k pc c now) R'"
  shows "\<not> bound_in R k" and "bound_in R' k' \<longleftrightarrow> k' = k \<or> bound_in R k'"
  using assms by (cases; auto simp: bound_in_def)+

lemma bound_in_unbind:
  assumes "registry_step R (LUnbind k now) R'" and "bound_in R k'" and "k' \<noteq> k"
  shows "bound_in R' k'"
  using assms by (cases) (auto simp: bound_in_def)

lemma spec_step_ok: "spec_step S T \<Longrightarrow> spec_ok S \<Longrightarrow> spec_ok T"
proof (induction rule: spec_step.induct)
  case (assign S i a pc t1 t2 R)
  then show ?case by (auto simp: spec_ok_def intro: bound_in_assign)
next
  case (claim S i k pc c now R)
  then show ?case using bound_in_bind [OF claim(2)] by (auto simp: spec_ok_def split: if_splits)
next
  case (release S i k now R)
  have "bound_in R k'" if "spec_clients S j = Some (Port k')" "j \<noteq> i" for j k'
  proof (rule bound_in_unbind [OF release(2)])
    show "bound_in (spec_registry S) k'" "k' \<noteq> k" using release that unfolding spec_ok_def by blast+
  qed
  with release show ?case by (auto simp: spec_ok_def split: if_splits)
qed (auto simp: spec_ok_def split: if_splits)

lemma sys_spec_ok: "(sys_step G B)\<^sup>*\<^sup>* (sys_new g) s \<Longrightarrow> spec_ok (spec_of s)"
  using spec_step_ok by (rule sys_sim.sim_invariant) (simp_all add: spec_of_new spec_ok_def spec_new_def)

end
