(* ===== verification/Net_Translate.thy ===== *)
theory Net_Translate
  imports Network
begin

text \<open>
  \<open>translate\<close> and \<open>relay_reply\<close> of \<open>src/service/net/network.rs\<close>: the task that carries one
  bound port's traffic to and from the internet. What \<open>tokio::select!\<close> completes next is an
  event, which carries what the calls it makes on sockets return. A run is a list of events
  that the guards of the branches allow.
\<close>

section \<open>The task\<close>

definition MAX_DATAGRAM :: nat where "MAX_DATAGRAM = 4096"

datatype family = Fam4 | Fam6

fun family_of :: "socket_addr \<Rightarrow> family" where
  "family_of (SockV4 _ _) = Fam4"
| "family_of (SockV6 _ _ _ _) = Fam6"

record translator =
  sock4 :: bool
  sock6 :: bool
  buf4 :: bytes
  buf6 :: bytes

definition translator_new :: translator where
  "translator_new = \<lparr>sock4 = False, sock6 = False,
     buf4 = replicate MAX_DATAGRAM 0, buf6 = replicate MAX_DATAGRAM 0\<rparr>"

definition is_open :: "family \<Rightarrow> translator \<Rightarrow> bool" where
  "is_open fam st = (case fam of Fam4 \<Rightarrow> sock4 st | Fam6 \<Rightarrow> sock6 st)"

definition set_open :: "family \<Rightarrow> translator \<Rightarrow> translator" where
  "set_open fam st = (case fam of Fam4 \<Rightarrow> st\<lparr>sock4 := True\<rparr> | Fam6 \<Rightarrow> st\<lparr>sock6 := True\<rparr>)"

text \<open>
  \<open>Outgoing x b\<close>: the lease's channel yielded \<open>x\<close>, and a socket that must be opened for it
  opens if \<open>b\<close>. \<open>Received fam r bs\<close>: \<open>recv_from\<close> on the socket of that family returned \<open>r\<close>, a
  length and a peer or an error, and left \<open>bs\<close> in the buffer.
\<close>

datatype udp_event =
    Outgoing "(socket_addr \<times> bytes) option" bool
  | Received family "(nat \<times> socket_addr) option" bytes

datatype udp_action =
    OpenSocket family
  | SendTo family socket_addr bytes
  | Relay effect

text \<open>Wraps one datagram from the internet as a frame; false when the client is gone.\<close>

definition relay_reply ::
  "buf_api \<Rightarrow> env \<Rightarrow> (nat \<times> socket_addr) option \<Rightarrow> bytes \<Rightarrow> chan \<Rightarrow> effect list \<times> bool result" where
  "relay_reply B E received bs relay =
     (case received of
        None \<Rightarrow> ([], Ok True)
      | Some (len, peer) \<Rightarrow>
          if len > length bs then ([], Err (Panic ''slice index out of range''))
          else case frame_encode B (frame_to_peer peer (take len bs)) of
            Inl _ \<Rightarrow> ([], Ok True)
          | Inr frame \<Rightarrow> (case chan_send E relay frame of (es, r) \<Rightarrow> (es, Ok (is_ok r))))"

text \<open>The guard of a branch of \<open>select!\<close>.\<close>

fun translate_enabled :: "translator \<Rightarrow> udp_event \<Rightarrow> bool" where
  "translate_enabled st (Outgoing _ _) = True"
| "translate_enabled st (Received fam _ _) = is_open fam st"

definition set_buf :: "family \<Rightarrow> bytes \<Rightarrow> translator \<Rightarrow> translator" where
  "set_buf fam b st = (case fam of Fam4 \<Rightarrow> st\<lparr>buf4 := b\<rparr> | Fam6 \<Rightarrow> st\<lparr>buf6 := b\<rparr>)"

text \<open>One turn of the loop: the actions and the next state, or \<open>None\<close> where the task returns.\<close>

fun translate_turn ::
  "buf_api \<Rightarrow> env \<Rightarrow> chan \<Rightarrow> translator \<Rightarrow> udp_event \<Rightarrow> udp_action list \<times> translator option result" where
  "translate_turn B E relay st (Outgoing None opens) = ([], Ok None)"
| "translate_turn B E relay st (Outgoing (Some (peer, d)) opens) =
     (let fam = family_of peer in
      if is_open fam st then ([SendTo fam peer d], Ok (Some st))
      else if opens then ([OpenSocket fam, SendTo fam peer d], Ok (Some (set_open fam st)))
      else ([], Ok (Some st)))"
| "translate_turn B E relay st (Received fam r bs) =
     (case relay_reply B E r bs relay of
        (es, Inl e) \<Rightarrow> (map Relay es, Err e)
      | (es, Inr True) \<Rightarrow> (map Relay es, Ok (Some (set_buf fam bs st)))
      | (es, Inr False) \<Rightarrow> (map Relay es, Ok None))"

text \<open>Each event comes with the environment of its moment. \<open>None\<close>: the events are not a run, since one of them was not enabled or came after the end.\<close>

fun translate_run ::
  "buf_api \<Rightarrow> chan \<Rightarrow> translator \<Rightarrow> (env \<times> udp_event) list \<Rightarrow>
     (udp_action list \<times> translator option result) option" where
  "translate_run B relay st [] = Some ([], Ok (Some st))"
| "translate_run B relay st ((E, ev) # evs) =
     (if \<not> translate_enabled st ev then None
      else case translate_turn B E relay st ev of
        (as, Inr (Some st')) \<Rightarrow> map_option (\<lambda>(as', r). (as @ as', r)) (translate_run B relay st' evs)
      | (as, r) \<Rightarrow> if evs = [] then Some (as, r) else None)"

section \<open>Sockets\<close>

lemma is_open_set_open [simp]: "is_open fam (set_open fam' st) \<longleftrightarrow> fam = fam' \<or> is_open fam st"
  by (cases fam; cases fam') (simp_all add: is_open_def set_open_def)

lemma is_open_set_buf [simp]: "is_open fam (set_buf fam' b st) \<longleftrightarrow> is_open fam st"
  by (cases fam; cases fam') (simp_all add: is_open_def set_buf_def)

lemma is_open_new [simp]: "\<not> is_open fam translator_new"
  by (cases fam) (simp_all add: is_open_def translator_new_def)

text \<open>A run opens the socket of a family at most once, and only where it was not open.\<close>

lemma relay_no_open [simp]:
  "count_list (map Relay es) (OpenSocket fam) = 0" "SendTo fam p d \<notin> set (map Relay es)"
  by (induction es) auto

lemma translate_opens:
  "translate_run B relay st evs = Some (as, r) \<Longrightarrow>
     count_list as (OpenSocket fam) + (if is_open fam st then 1 else 0) \<le> 1"
proof (induction B relay st evs arbitrary: as r rule: translate_run.induct)
  case (2 B relay st E ev evs)
  obtain as1 r1 where turn: "translate_turn B E relay st ev = (as1, r1)" by fastforce
  have one: "count_list as1 (OpenSocket fam) + (if is_open fam st then 1 else 0)
      \<le> (case r1 of Inr (Some st') \<Rightarrow> if is_open fam st' then 1 else 0 | _ \<Rightarrow> 1)"
    using turn
    by (cases "(B, E, relay, st, ev)" rule: translate_turn.cases)
      (auto simp: Let_def split: if_splits prod.splits sum.splits bool.splits)
  show ?case
  proof (cases "\<exists>st'. r1 = Ok (Some st')")
    case True
    then obtain st' where r1: "r1 = Ok (Some st')" by blast
    with "2.prems" turn obtain as2 where as: "as = as1 @ as2" and run: "translate_run B relay st' evs = Some (as2, r)"
      by (auto split: if_splits)
    from "2.prems" have "translate_enabled st ev" by (auto split: if_splits)
    from "2.IH" [OF _ turn [symmetric] r1 refl run] this one show ?thesis by (simp add: as r1)
  next
    case False
    with "2.prems" turn have "as = as1" by (auto split: if_splits sum.splits option.splits)
    with False one show ?thesis by (auto split: sum.splits option.splits)
  qed
qed simp

text \<open>A datagram is sent from a socket that is open: one of the start state or of the run.\<close>

lemma translate_turn_sends:
  "translate_turn B E relay st ev = (as, r) \<Longrightarrow> as = xs @ SendTo fam p d # ys \<Longrightarrow>
     is_open fam st \<or> OpenSocket fam \<in> set xs"
  by (cases "(B, E, relay, st, ev)" rule: translate_turn.cases)
    (auto simp: Let_def append_eq_Cons_conv Cons_eq_append_conv map_eq_append_conv
      split: if_splits prod.splits sum.splits bool.splits)

lemma translate_turn_open:
  "translate_turn B E relay st ev = (as, Ok (Some st')) \<Longrightarrow>
     is_open fam st' \<longleftrightarrow> is_open fam st \<or> OpenSocket fam \<in> set as"
  by (cases "(B, E, relay, st, ev)" rule: translate_turn.cases)
    (auto simp: Let_def split: if_splits prod.splits sum.splits bool.splits)

lemma translate_sends_open:
  "translate_run B relay st evs = Some (as, r) \<Longrightarrow> as = xs @ SendTo fam p d # ys \<Longrightarrow>
     is_open fam st \<or> OpenSocket fam \<in> set xs"
proof (induction evs arbitrary: st as xs)
  case (Cons x evs)
  obtain E ev where [simp]: "x = (E, ev)" by fastforce
  obtain as1 r1 where turn: "translate_turn B E relay st ev = (as1, r1)" by fastforce
  show ?case
  proof (cases "\<exists>st'. r1 = Ok (Some st')")
    case True
    then obtain st' where r1: "r1 = Ok (Some st')" by blast
    with Cons.prems(1) turn obtain as2 where as: "as = as1 @ as2" and run: "translate_run B relay st' evs = Some (as2, r)"
      by (auto split: if_splits)
    from as Cons.prems(2) consider zs where "as1 = xs @ SendTo fam p d # zs"
      | zs where "xs = as1 @ zs" "as2 = zs @ SendTo fam p d # ys"
      by (auto simp: append_eq_append_conv2 Cons_eq_append_conv)
    then show ?thesis
    proof cases
      case 1
      then show ?thesis by (rule translate_turn_sends [OF turn])
    next
      case 2
      with Cons.IH [OF run 2(2)] translate_turn_open [of B E relay st ev as1 st' fam] turn r1 show ?thesis
        by auto
    qed
  next
    case False
    with Cons.prems(1) turn have "as = as1" by (auto split: if_splits sum.splits option.splits)
    with Cons.prems(2) turn show ?thesis by (intro translate_turn_sends) auto
  qed
qed simp

section \<open>What is sent and what is relayed\<close>

text \<open>The datagrams of the outgoing events, and those the task sends.\<close>

fun outgoing :: "udp_event list \<Rightarrow> (socket_addr \<times> bytes) list" where
  "outgoing [] = []"
| "outgoing (Outgoing (Some x) _ # evs) = x # outgoing evs"
| "outgoing (_ # evs) = outgoing evs"

fun sent :: "udp_action list \<Rightarrow> (socket_addr \<times> bytes) list" where
  "sent [] = []"
| "sent (SendTo _ p d # as) = (p, d) # sent as"
| "sent (_ # as) = sent as"

fun opens_all :: "udp_event list \<Rightarrow> bool" where
  "opens_all [] = True"
| "opens_all (Outgoing _ b # evs) = (b \<and> opens_all evs)"
| "opens_all (_ # evs) = opens_all evs"

lemma sent_append [simp]: "sent (xs @ ys) = sent xs @ sent ys"
  by (induction xs rule: sent.induct) auto

lemma sent_relay [simp]: "sent (map Relay es) = []"
  by (induction es) auto

text \<open>Nothing is lost on the way out, as long as sockets can be opened.\<close>

lemma translate_sends_all:
  "translate_run B relay st evs = Some (as, r) \<Longrightarrow> opens_all (map snd evs) \<Longrightarrow> sent as = outgoing (map snd evs)"
proof (induction evs arbitrary: st as)
  case (Cons x evs)
  obtain E ev where [simp]: "x = (E, ev)" by fastforce
  obtain as1 r1 where turn: "translate_turn B E relay st ev = (as1, r1)" by fastforce
  have one: "sent as1 = outgoing [ev]"
    using turn Cons.prems(2)
    by (cases "(B, E, relay, st, ev)" rule: translate_turn.cases)
      (auto simp: Let_def split: if_splits prod.splits sum.splits bool.splits)
  have app: "outgoing (ev # map snd evs) = outgoing [ev] @ outgoing (map snd evs)"
    and "opens_all (map snd evs)"
    using Cons.prems(2) by (cases "ev # map snd evs" rule: outgoing.cases; simp)+
  show ?case
  proof (cases "\<exists>st'. r1 = Ok (Some st')")
    case True
    with Cons.prems turn obtain st' as2 where "as = as1 @ as2" "translate_run B relay st' evs = Some (as2, r)"
      by (auto split: if_splits)
    with Cons.IH \<open>opens_all (map snd evs)\<close> one app show ?thesis by simp
  next
    case False
    with Cons.prems(1) turn have "as = as1" "evs = []" by (auto split: if_splits sum.splits option.splits)
    with one show ?thesis by simp
  qed
qed simp

text \<open>The datagrams that arrive, and what the task relays of them.\<close>

fun replies :: "udp_event list \<Rightarrow> (socket_addr \<times> bytes) list" where
  "replies [] = []"
| "replies (Received _ (Some (len, peer)) bs # evs) = (peer, take len bs) # replies evs"
| "replies (_ # evs) = replies evs"

fun relays :: "udp_action list \<Rightarrow> effect list" where
  "relays [] = []"
| "relays (Relay e # as) = e # relays as"
| "relays (_ # as) = relays as"

lemma relays_append [simp]: "relays (xs @ ys) = relays xs @ relays ys"
  by (induction xs rule: relays.induct) auto

text \<open>
  What \<open>recv_from\<close> promises: the buffer keeps its size and the length lies within it.
\<close>

fun udp_event_ok :: "udp_event \<Rightarrow> bool" where
  "udp_event_ok (Received _ r bs) =
     (length bs = MAX_DATAGRAM \<and> (case r of None \<Rightarrow> True | Some (len, _) \<Rightarrow> len \<le> MAX_DATAGRAM))"
| "udp_event_ok (Outgoing _ _) = True"

context buf
begin

text \<open>A datagram that fits the buffer also fits a frame, so none is dropped for its size.\<close>

lemma relay_reply_eq:
  assumes "len \<le> MAX_DATAGRAM" "length bs = MAX_DATAGRAM"
  shows "relay_reply B E (Some (len, peer)) bs relay =
    (if send_ok E relay then ([Send relay (frame_bytes (frame_to_peer peer (take len bs)))], Ok True)
     else ([], Ok False))"
  using assms by (simp add: relay_reply_def encode_eq chan_send_def MAX_DATAGRAM_def)

lemma relay_reply_decodes:
  assumes "len \<le> MAX_DATAGRAM" "length bs = MAX_DATAGRAM"
  shows "frame_decode B (frame_bytes (frame_to_peer peer (take len bs))) = Ok (frame_to_peer peer (take len bs))"
  by (rule decode_frame_bytes) (use assms in \<open>simp add: MAX_DATAGRAM_def\<close>)

lemma relay_reply_no_panic:
  "udp_event_ok (Received fam r bs) \<Longrightarrow> is_ok (snd (relay_reply B E r bs relay))"
  by (cases r) (auto simp: relay_reply_eq, simp add: relay_reply_def)

lemma translate_turn_no_panic:
  assumes "udp_event_ok ev"
  shows "is_ok (snd (translate_turn B E relay st ev))"
proof (cases ev)
  case (Outgoing x b)
  then show ?thesis by (cases x) (auto simp: Let_def)
next
  case (Received fam r bs)
  with assms have "is_ok (snd (relay_reply B E r bs relay))"
    using relay_reply_no_panic [of fam r bs E relay] by simp
  then obtain es b where "relay_reply B E r bs relay = (es, Ok b)"
    by (cases "relay_reply B E r bs relay") (auto simp: is_ok_iff)
  with Received show ?thesis by (cases b) simp_all
qed

lemma translate_no_panic:
  "translate_run B relay st evs = Some (as, r) \<Longrightarrow> list_all udp_event_ok (map snd evs) \<Longrightarrow> is_ok r"
proof (induction evs arbitrary: st as)
  case (Cons x evs)
  obtain E ev where [simp]: "x = (E, ev)" by fastforce
  have "is_ok (snd (translate_turn B E relay st ev))"
    using Cons.prems(2) by (intro translate_turn_no_panic) simp
  then obtain as1 y where turn: "translate_turn B E relay st ev = (as1, Ok y)"
    by (cases "translate_turn B E relay st ev") (auto simp: is_ok_iff)
  show ?case
  proof (cases y)
    case None
    with Cons.prems(1) turn show ?thesis by (auto split: if_splits)
  next
    case (Some st')
    with Cons.prems turn obtain as2 where "translate_run B relay st' evs = Some (as2, r)"
      by (auto split: if_splits)
    with Cons.IH Cons.prems(2) show ?thesis by simp
  qed
qed auto

text \<open>Every datagram that arrives is relayed as a frame, in order, while the client is there.\<close>

lemma translate_relays_all:
  "translate_run B relay st evs = Some (as, r) \<Longrightarrow>
     \<forall>(E, ev) \<in> set evs. send_ok E relay \<and> udp_event_ok ev \<and> (\<forall>b. ev \<noteq> Outgoing None b) \<Longrightarrow>
     relays as = map (\<lambda>(peer, d). Send relay (frame_bytes (frame_to_peer peer d))) (replies (map snd evs)) \<and>
     (\<exists>st'. r = Ok (Some st'))"
proof (induction evs arbitrary: st as)
  case (Cons x evs)
  obtain E ev where [simp]: "x = (E, ev)" by fastforce
  have up: "send_ok E relay" "udp_event_ok ev" "\<And>b. ev \<noteq> Outgoing None b" using Cons.prems(2) by auto
  have "\<exists>as1 st1. translate_turn B E relay st ev = (as1, Ok (Some st1)) \<and>
      relays as1 = map (\<lambda>(peer, d). Send relay (frame_bytes (frame_to_peer peer d))) (replies [ev])"
  proof (cases ev)
    case (Outgoing x b)
    then show ?thesis using up(3) by (cases x) (auto simp: Let_def)
  next
    case (Received fam got bs)
    show ?thesis
    proof (cases got)
      case None
      with Received show ?thesis by (simp add: relay_reply_def)
    next
      case (Some y)
      obtain len peer where y: "y = (len, peer)" by fastforce
      have "relay_reply B E (Some (len, peer)) bs relay =
          ([Send relay (frame_bytes (frame_to_peer peer (take len bs)))], Ok True)"
        using up(1,2) by (subst relay_reply_eq) (simp_all add: Received Some y)
      then show ?thesis by (simp add: Received Some y)
    qed
  qed
  then obtain as1 st1 where turn: "translate_turn B E relay st ev = (as1, Ok (Some st1))"
    and one: "relays as1 = map (\<lambda>(peer, d). Send relay (frame_bytes (frame_to_peer peer d))) (replies [ev])" by blast
  from Cons.prems(1) turn obtain as2 where as: "as = as1 @ as2" and run: "translate_run B relay st1 evs = Some (as2, r)"
    by (auto split: if_splits)
  have "replies (ev # map snd evs) = replies [ev] @ replies (map snd evs)"
    by (cases "ev # map snd evs" rule: replies.cases) simp_all
  with Cons.IH [OF run] Cons.prems(2) one show ?case by (simp add: as)
qed auto

end

section \<open>Properties\<close>

text \<open>For witnesses: two datagrams sent to one peer, and the peer's answer.\<close>

definition demo_peer :: socket_addr where "demo_peer = SockV4 7 53"

definition demo_datagram :: bytes where "demo_datagram = 5 # replicate 4095 0"

definition demo_events :: "(env \<times> udp_event) list" where
  "demo_events = [(env_up, Outgoing (Some (demo_peer, [1])) True), (env_up, Outgoing (Some (demo_peer, [2])) True),
     (env_up, Received Fam4 (Some (1, demo_peer)) demo_datagram)]"

lemma demo_run:
  "\<exists>out st. translate_run be_buf 1 translator_new demo_events =
    Some ([OpenSocket Fam4, SendTo Fam4 demo_peer [1], SendTo Fam4 demo_peer [2], Relay (Send 1 out)], Ok (Some st))"
proof -
  have "relay_reply be_buf env_up (Some (1, demo_peer)) demo_datagram 1 =
      ([Send 1 (frame_bytes (frame_to_peer demo_peer (take 1 demo_datagram)))], Ok True)"
    by (subst be.relay_reply_eq) (simp_all add: MAX_DATAGRAM_def demo_datagram_def)
  then show ?thesis
    by (simp add: demo_events_def demo_peer_def translator_new_def is_open_def set_open_def)
qed

text \<open>Whatever a bound port sends and receives, its translator opens at most one socket for each address
  family, and sends only from a socket it has opened before: every peer sees one source port.\<close>

theorem translate_one_socket:
  assumes "translate_run B relay translator_new evs = Some (as, r)"
  shows "count_list as (OpenSocket fam) \<le> 1 \<and>
    (\<forall>xs p d ys. as = xs @ SendTo fam p d # ys \<longrightarrow> OpenSocket fam \<in> set xs)"
  using translate_opens [OF assms, of fam] translate_sends_open [OF assms] by auto

theorem translate_one_socket_witness:
  "\<exists>as r. translate_run be_buf 1 translator_new demo_events = Some (as, r) \<and> count_list as (OpenSocket Fam4) \<le> 1"
  using demo_run translate_one_socket [of be_buf 1 demo_events _ _ Fam4] by blast

text \<open>As long as sockets can be opened, every datagram of the lease is sent, to its peer, unchanged, once and
  in order.\<close>

theorem translate_sends_in_order:
  assumes "translate_run B relay translator_new evs = Some (as, r)" and "opens_all (map snd evs)"
  shows "sent as = outgoing (map snd evs)"
  using assms by (rule translate_sends_all)

theorem translate_sends_in_order_witness:
  "\<exists>as r. translate_run be_buf 1 translator_new demo_events = Some (as, r) \<and>
    sent as = [(demo_peer, [1]), (demo_peer, [2])]"
proof -
  have "opens_all (map snd demo_events)" "outgoing (map snd demo_events) = [(demo_peer, [1]), (demo_peer, [2])]"
    by (simp_all add: demo_events_def)
  with demo_run translate_sends_in_order [of be_buf 1 demo_events] show ?thesis by metis
qed

text \<open>A datagram from the internet, of any size the socket can return, reaches the client as a frame that
  names its peer in canonical form and holds exactly the bytes received; the translator ends only when the client's
  relay is gone.\<close>

theorem reply_reaches_client:
  assumes "buf B" and "len \<le> MAX_DATAGRAM" and "length bs = MAX_DATAGRAM"
  shows "\<exists>frame f. frame_decode B frame = Ok f \<and> frame_peer f = canonical peer \<and> frame_data f = take len bs \<and>
    relay_reply B E (Some (len, peer)) bs relay =
      (if send_ok E relay then ([Send relay frame], Ok True) else ([], Ok False))"
  using buf.relay_reply_eq [OF assms] buf.relay_reply_decodes [OF assms, of peer] frame_peer_to_peer [of peer]
  by (intro exI [of _ "frame_bytes (frame_to_peer peer (take len bs))"] exI [of _ "frame_to_peer peer (take len bs)"]) simp

theorem reply_reaches_client_witness:
  "\<exists>frame f. frame_decode be_buf frame = Ok f \<and> frame_peer f = SockV4 7 53 \<and> frame_data f = [5] \<and>
    relay_reply be_buf env_up (Some (1, SockV4 7 53)) demo_datagram 3 = ([Send 3 frame], Ok True)"
  using reply_reaches_client [OF be.buf_axioms, of 1 demo_datagram "SockV4 7 53" env_up 3]
  by (simp add: MAX_DATAGRAM_def demo_datagram_def)

text \<open>The translator never panics: no slice of a buffer is out of range and no socket is used before it is
  there, whatever arrives.\<close>

theorem translate_never_panics:
  assumes "buf B" and "translate_run B relay translator_new evs = Some (as, r)" and "list_all udp_event_ok (map snd evs)"
  shows "is_ok r"
  using assms by (rule buf.translate_no_panic)

theorem translate_never_panics_witness:
  "\<exists>as r. translate_run be_buf 1 translator_new demo_events = Some (as, r) \<and> is_ok r"
proof -
  have "list_all udp_event_ok (map snd demo_events)"
    by (simp add: demo_events_def MAX_DATAGRAM_def demo_datagram_def)
  with demo_run translate_never_panics [OF be.buf_axioms] show ?thesis by metis
qed

end
