(* ===== verification/Conversations.thy ===== *)
theory Conversations
  imports Web_Socket Net_Translate
begin

text \<open>
  Whole conversations of a WebSocket client with the proxy's own services and with the internet: the session
  (\<open>src/websocket/client.rs\<close>), the command that opens the tunnel (\<open>commands.rs\<close>), and the task at
  its other end (\<open>dnsproxy.rs\<close>, \<open>connectproxy.rs\<close>, \<open>translate\<close> of \<open>net/network.rs\<close>). The two sides are joined by what \<open>mpsc\<close>
  documents of a channel: it yields what was sent on it, once and in order.
\<close>

section \<open>Channels\<close>

text \<open>The messages sent on one channel, in order.\<close>

fun sent_on :: "chan \<Rightarrow> effect list \<Rightarrow> bytes list" where
  "sent_on c [] = []"
| "sent_on c (Send c' d # es) = (if c' = c then d # sent_on c es else sent_on c es)"
| "sent_on c (_ # es) = sent_on c es"

lemma sent_on_append [simp]: "sent_on c (xs @ ys) = sent_on c xs @ sent_on c ys"
  by (induction c xs rule: sent_on.induct) auto

lemma sent_on_Send [simp]: "sent_on c (map (Send c) ds) = ds"
  by (induction ds) auto

text \<open>The datagrams handed to the translator of a bound port.\<close>

fun egress_on :: "chan \<Rightarrow> effect list \<Rightarrow> (socket_addr \<times> bytes) list" where
  "egress_on c [] = []"
| "egress_on c (Egress c' peer d # es) = (if c' = c then (peer, d) # egress_on c es else egress_on c es)"
| "egress_on c (_ # es) = egress_on c es"

lemma sent_on_replies: "sent_on c (map (\<lambda>(E, q). Send c (f q)) qs) = map f (map snd qs)"
  by (induction qs) auto

section \<open>The session as a pipe\<close>

text \<open>The turns of a tunnel: messages of the client, and messages of the relay with something in them.\<close>

fun tunnel_event :: "ws_event \<Rightarrow> bool" where
  "tunnel_event (WsRead (Some (Inr (WsBinary d)))) = True"
| "tunnel_event (WsRelay (Some d)) = (d \<noteq> [])"
| "tunnel_event _ = False"

fun from_ws :: "(env \<times> writes_ok \<times> ws_event) list \<Rightarrow> bytes list" where
  "from_ws [] = []"
| "from_ws ((_, _, WsRead (Some (Inr (WsBinary d)))) # evs) = d # from_ws evs"
| "from_ws (_ # evs) = from_ws evs"

fun relayed :: "(env \<times> writes_ok \<times> ws_event) list \<Rightarrow> bytes list" where
  "relayed [] = []"
| "relayed ((_, _, WsRelay (Some d)) # evs) = d # relayed evs"
| "relayed (_ # evs) = relayed evs"

text \<open>Both directions, in whatever order the turns come.\<close>

lemma ws_pipe:
  assumes lease: "ws_lease st = Some l"
    and evs: "\<forall>(E, W, ev) \<in> set evs. W 0 \<and> tunnel_event ev \<and>
      (\<forall>d. ev = WsRead (Some (Ok (WsBinary d))) \<longrightarrow> lease_send B E l d (net_of w) = ([eff d], Ok ()))"
  shows "\<exists>as. ws_run G B evs st w = (w, st, as, Ok Waiting) \<and> effects as = map eff (from_ws evs) \<and>
    outs as = map (\<lambda>d. WsSend (WsBinary d)) (relayed evs)"
  using evs
proof (induction evs)
  case (Cons x evs)
  obtain E W ev where x: "x = (E, W, ev)" by (cases x)
  from Cons obtain as where run: "ws_run G B evs st w = (w, st, as, Ok Waiting)" "effects as = map eff (from_ws evs)"
    "outs as = map (\<lambda>d. WsSend (WsBinary d)) (relayed evs)" by auto
  from Cons.prems x have up: "W 0" "tunnel_event ev"
    "\<And>d. ev = WsRead (Some (Ok (WsBinary d))) \<Longrightarrow> lease_send B E l d (net_of w) = ([eff d], Ok ())" by auto
  show ?case
    by (cases ev rule: tunnel_event.cases)
      (use up in \<open>simp_all add: x run lease ws_handle_datagram_def ws_reply_def\<close>)
qed simp

text \<open>The command that opens a tunnel to one of the proxy's own services.\<close>

definition own_service :: "u16 \<Rightarrow> bytes" where
  "own_service port = proxy_line (V6 PROXY_ADDRESS) ''fd00::1'' port"

lemma ws_open_service:
  assumes "W 0" and "port = 53 \<and> l = DnsLease \<lparr>dns_transmit = tx\<rparr> \<and> spawn = SpawnDns tx relay \<or>
      port = 8080 \<and> l = ConnectLease \<lparr>connect_transmit = tx\<rparr> \<and> spawn = SpawnConnect tx relay"
    and "tx = next_chan w"
  shows "ws_turn G B E W (WsRead (Some (Ok (WsText (own_service port))))) (ws_new relay) w =
    (w\<lparr>next_chan := tx + 1\<rparr>, \<lparr>ws_relay = None, ws_lease = Some l\<rparr>,
     [Did spawn, Out (WsSend (WsText (bytes_of ''PROXY OK'')))], Ok Waiting)"
  using assms handle_command_own_service [OF parse_own_address own_address_token, of G E port relay w]
  by (auto simp: ws_handle_text_def ws_new_def own_service_def)

text \<open>
  A session from its beginning: the tunnel is opened, and from then on it is a pipe between the
  client and the two channels of the lease.
\<close>

lemma ws_conversation:
  assumes "W0 0" and "port = 53 \<and> spawn = SpawnDns (next_chan w) relay \<or> port = 8080 \<and> spawn = SpawnConnect (next_chan w) relay"
    and evs: "\<forall>(E, W, ev) \<in> set evs. send_ok E (next_chan w) \<and> W 0 \<and> tunnel_event ev"
    and run: "ws_run G B ((E0, W0, WsRead (Some (Ok (WsText (own_service port))))) # evs) (ws_new relay) w = (w', st, as, res)"
  shows "res = Ok Waiting \<and> effects as = spawn # map (Send (next_chan w)) (from_ws evs) \<and>
    outs as = WsSend (WsText (bytes_of ''PROXY OK'')) # map (\<lambda>d. WsSend (WsBinary d)) (relayed evs)"
proof -
  let ?tx = "next_chan w"
  define l where "l = (if port = 53 then DnsLease \<lparr>dns_transmit = ?tx\<rparr> else ConnectLease \<lparr>connect_transmit = ?tx\<rparr>)"
  have turn: "ws_turn G B E0 W0 (WsRead (Some (Ok (WsText (own_service port))))) (ws_new relay) w =
    (w\<lparr>next_chan := ?tx + 1\<rparr>, \<lparr>ws_relay = None, ws_lease = Some l\<rparr>,
     [Did spawn, Out (WsSend (WsText (bytes_of ''PROXY OK'')))], Ok Waiting)"
    by (rule ws_open_service [where W = W0]) (use assms(1,2) in \<open>auto simp: l_def\<close>)
  have "\<forall>(E, W, ev) \<in> set evs. W 0 \<and> tunnel_event ev \<and>
      (\<forall>d. ev = WsRead (Some (Ok (WsBinary d))) \<longrightarrow> lease_send B E l d s = ([Send ?tx d], Ok ()))" for s
    using evs by (auto simp: l_def dns_send_def connect_send_def chan_send_def)
  from ws_pipe [where st = "\<lparr>ws_relay = None, ws_lease = Some l\<rparr>" and w = "w\<lparr>next_chan := ?tx + 1\<rparr>" and G = G, OF _ this]
  obtain as' where "ws_run G B evs \<lparr>ws_relay = None, ws_lease = Some l\<rparr> (w\<lparr>next_chan := ?tx + 1\<rparr>) =
      (w\<lparr>next_chan := ?tx + 1\<rparr>, \<lparr>ws_relay = None, ws_lease = Some l\<rparr>, as', Ok Waiting)"
    "effects as' = map (Send ?tx) (from_ws evs)" "outs as' = map (\<lambda>d. WsSend (WsBinary d)) (relayed evs)" by auto
  then show ?thesis using run turn by (auto simp del: ws_turn.simps)
qed

lemma from_ws_mem: "(E, W, WsRead (Some (Ok (WsBinary d)))) \<in> set evs \<Longrightarrow> d \<in> set (from_ws evs)"
  by (induction evs rule: from_ws.induct) auto

lemma replies_bound:
  "list_all udp_event_ok evs \<Longrightarrow> (peer, d) \<in> set (replies evs) \<Longrightarrow> length d \<le> MAX_DATAGRAM"
  by (induction evs rule: replies.induct) auto

text \<open>The frames that a translator relays say where each datagram came from.\<close>

lemma translator_frames:
  assumes "buf B" and task: "translate_run B relay translator_new tevs = Some (tas, tres)"
    "\<forall>(E, ev) \<in> set tevs. send_ok E relay \<and> udp_event_ok ev \<and> (\<forall>b. ev \<noteq> Outgoing None b)"
  shows "list_all2 (\<lambda>frame (peer, d). \<exists>f. frame_decode B frame = Ok f \<and> frame_peer f = canonical peer \<and> frame_data f = d)
    (take n (sent_on relay (relays tas))) (take n (replies (map snd tevs)))"
proof -
  let ?frame = "\<lambda>(peer, d). frame_bytes (frame_to_peer peer d)"
  have "relays tas = map (\<lambda>(peer, d). Send relay (frame_bytes (frame_to_peer peer d))) (replies (map snd tevs))"
    using buf.translate_relays_all [OF assms(1) task] by blast
  then have "relays tas = map (Send relay) (map ?frame (replies (map snd tevs)))" by auto
  then have rel: "sent_on relay (relays tas) = map ?frame (replies (map snd tevs))" by (simp only: sent_on_Send)
  have ok: "list_all udp_event_ok (map snd tevs)" using task(2) by (auto simp: list_all_iff)
  have "\<exists>f. frame_decode B (?frame (peer, d)) = Ok f \<and> frame_peer f = canonical peer \<and> frame_data f = d"
    if "(peer, d) \<in> set (take n (replies (map snd tevs)))" for peer d
  proof -
    have "length d \<le> MAX_DATAGRAM" using replies_bound [OF ok, of peer d] that by (auto dest: in_set_takeD)
    then have "frame_decode B (?frame (peer, d)) = Ok (frame_to_peer peer d)"
      by (simp add: buf.decode_frame_bytes [OF assms(1)] MAX_DATAGRAM_def)
    then show ?thesis by (simp add: frame_peer_to_peer)
  qed
  then show ?thesis
    unfolding rel take_map by (auto simp: list_all2_map1 intro!: list.rel_refl_strong)
qed

text \<open>What a bound port does with frames that name peers on the internet: one datagram for its translator each.\<close>

lemma bind_pipe:
  assumes "buf B" and frames: "map (frame_decode B) ds = map Ok fs"
      "\<forall>f \<in> set fs. \<forall>v6. sock_ip (frame_peer f) = V6 v6 \<longrightarrow> \<not> is_network_address v6"
  shows "\<exists>eff. (\<forall>d \<in> set ds. \<forall>E s. send_ok E (bind_egress h) \<longrightarrow> bind_send B E h d s = ([eff d], Ok ())) \<and>
    egress_on (bind_egress h) (map eff ds) = map (\<lambda>f. (frame_peer f, frame_data f)) fs"
proof -
  define eff where "eff d = (case frame_decode B d of
      Inr f \<Rightarrow> Egress (bind_egress h) (frame_peer f) (frame_data f) | Inl _ \<Rightarrow> DropSender 0)" for d
  have "bind_send B E h d s = ([eff d], Ok ())" if "d \<in> set ds" "send_ok E (bind_egress h)" for d E s
  proof -
    have "frame_decode B d \<in> Ok ` set fs" using that(1) frames(1) by (metis imageI list.set_map)
    then obtain f where f: "frame_decode B d = Ok f" "f \<in> set fs" by blast
    then show ?thesis
      using buf.bind_send_internet [OF assms(1) f(1), of E h s] that(2) frames(2) by (simp add: eff_def egress_send_def)
  qed
  moreover have "egress_on (bind_egress h) (map eff ds) = map (\<lambda>f. (frame_peer f, frame_data f)) fs"
    using frames(1) by (induction ds arbitrary: fs) (auto simp: eff_def)
  ultimately show ?thesis by blast
qed

lemma ws_internet:
  assumes "buf B" and lease: "ws_lease st = Some (BindLease h)"
    and evs: "\<forall>(E, W, ev) \<in> set evs. send_ok E (bind_egress h) \<and> W 0 \<and> tunnel_event ev"
    and frames: "map (frame_decode B) (from_ws evs) = map Ok fs"
      "\<forall>f \<in> set fs. \<forall>v6. sock_ip (frame_peer f) = V6 v6 \<longrightarrow> \<not> is_network_address v6"
  shows "\<exists>as. ws_run G B evs st w = (w, st, as, Ok Waiting) \<and>
    egress_on (bind_egress h) (effects as) = map (\<lambda>f. (frame_peer f, frame_data f)) fs \<and>
    outs as = map (\<lambda>d. WsSend (WsBinary d)) (relayed evs)"
proof -
  obtain eff where eff: "\<forall>d \<in> set (from_ws evs). \<forall>E s. send_ok E (bind_egress h) \<longrightarrow> bind_send B E h d s = ([eff d], Ok ())"
    "egress_on (bind_egress h) (map eff (from_ws evs)) = map (\<lambda>f. (frame_peer f, frame_data f)) fs"
    using bind_pipe [where h = h, OF assms(1) frames] by blast
  have "\<forall>(E, W, ev) \<in> set evs. W 0 \<and> tunnel_event ev \<and>
      (\<forall>d. ev = WsRead (Some (Ok (WsBinary d))) \<longrightarrow> lease_send B E (BindLease h) d (net_of w) = ([eff d], Ok ()))"
    using evs eff(1) from_ws_mem by fastforce
  from ws_pipe [OF lease this, of G] eff(2) show ?thesis by auto
qed

section \<open>Properties\<close>

text \<open>C7. A bound port is a UDP socket on the internet. However sending, receiving and the steps of the translator
  interleave, and as long as sockets can be opened: every datagram the client puts in a frame for a peer on the internet is sent to that peer,
  unchanged, once and in order; and for every datagram that arrives, in order, the client is sent one message,
  a frame that names the peer it came from, in canonical form, and holds its bytes.\<close>

theorem internet_over_websocket:
  assumes "buf B" and lease: "ws_lease st = Some (BindLease h)"
    and evs: "\<forall>(E, W, ev) \<in> set evs. send_ok E (bind_egress h) \<and> W 0 \<and> tunnel_event ev"
    and frames: "map (frame_decode B) (from_ws evs) = map Ok fs"
      "\<forall>f \<in> set fs. \<forall>v6. sock_ip (frame_peer f) = V6 v6 \<longrightarrow> \<not> is_network_address v6"
    and session: "ws_run G B evs st w = (w', st', as, res)"
    and task: "translate_run B relay translator_new tevs = Some (tas, tres)" "opens_all (map snd tevs)"
      "\<forall>(E, ev) \<in> set tevs. send_ok E relay \<and> udp_event_ok ev \<and> (\<forall>b. ev \<noteq> Outgoing None b)"
    and sent: "outgoing (map snd tevs) = egress_on (bind_egress h) (effects as)"
    and answers: "relayed evs = take n (sent_on relay (relays tas))"
  shows "res = Ok Waiting \<and> w' = w \<and> st' = st \<and> sent tas = map (\<lambda>f. (frame_peer f, frame_data f)) fs \<and>
    (\<exists>frames. outs as = map (\<lambda>d. WsSend (WsBinary d)) frames \<and>
      list_all2 (\<lambda>frame (peer, d). \<exists>f. frame_decode B frame = Ok f \<and> frame_peer f = canonical peer \<and> frame_data f = d)
        frames (take n (replies (map snd tevs))))"
proof -
  obtain as0 where "ws_run G B evs st w = (w, st, as0, Ok Waiting)"
    "egress_on (bind_egress h) (effects as0) = map (\<lambda>f. (frame_peer f, frame_data f)) fs"
    "outs as0 = map (\<lambda>d. WsSend (WsBinary d)) (relayed evs)"
    using ws_internet [OF assms(1) lease evs frames, of G w] by blast
  with session have c: "res = Ok Waiting" "w' = w" "st' = st"
    "egress_on (bind_egress h) (effects as) = map (\<lambda>f. (frame_peer f, frame_data f)) fs"
    "outs as = map (\<lambda>d. WsSend (WsBinary d)) (relayed evs)" by simp_all
  note frames_of = translator_frames [OF assms(1) task(1,3), of n]
  show ?thesis using c sent frames_of answers translate_sends_all [OF task(1,2)] by auto
qed

theorem internet_over_websocket_witness:
  "\<exists>(w :: nat world) st as tas tres frame f. ws_run counter_rng be_buf
      [(env_up, \<lambda>_. True, WsRead (Some (Ok (WsBinary (frame_bytes (demo_peer_frame 1)))))), (env_up, \<lambda>_. True, WsRelay (Some frame))]
      st w = (w, st, as, Ok Waiting) \<and> outs as = [WsSend (WsBinary frame)] \<and>
    translate_run be_buf 7 translator_new [(env_up, Outgoing (Some (SockV6 1 80 0 0, [1, 2, 3])) True),
      (env_up, Received Fam6 (Some (1, SockV6 1 80 0 0)) demo_datagram)] = Some (tas, tres) \<and>
    sent tas = [(SockV6 1 80 0 0, [1, 2, 3])] \<and>
    frame_decode be_buf frame = Ok f \<and> frame_data f = [5]"
proof -
  let ?frame = "frame_bytes (frame_to_peer (SockV6 1 80 0 0) [5])"
  let ?st = "\<lparr>ws_relay = None, ws_lease = Some (BindLease demo_handler)\<rparr>"
  let ?evs = "[(env_up, \<lambda>_ :: nat. True, WsRead (Some (Ok (WsBinary (frame_bytes (demo_peer_frame 1)))))),
    (env_up, \<lambda>_. True, WsRelay (Some ?frame))]"
  let ?tevs = "[(env_up, Outgoing (Some (SockV6 1 80 0 0, [1, 2, 3])) True),
      (env_up, Received Fam6 (Some (1, SockV6 1 80 0 0)) demo_datagram)]"
  have "?frame \<noteq> []" using be.decode_frame_bytes [of "frame_to_peer (SockV6 1 80 0 0) [5]"]
    by (auto simp: frame_decode_def HEADER_LEN_def)
  then have evs: "\<forall>(E, W, ev) \<in> set ?evs. send_ok E (bind_egress demo_handler) \<and> W 0 \<and> tunnel_event ev" by simp
  have frames: "map (frame_decode be_buf) (from_ws ?evs) = map Ok [demo_peer_frame 1]"
    "\<forall>f \<in> set [demo_peer_frame 1]. \<forall>v6. sock_ip (frame_peer f) = V6 v6 \<longrightarrow> \<not> is_network_address v6"
    using demo_internet by (auto simp: demo_decode)
  obtain w' st' as res where run: "ws_run counter_rng be_buf ?evs ?st demo_world = (w', st', as, res)" by (metis prod_cases4)
  have "relay_reply be_buf env_up (Some (1, SockV6 1 80 0 0)) demo_datagram 7 = ([Send 7 ?frame], Ok True)"
    by (subst be.relay_reply_eq) (simp_all add: MAX_DATAGRAM_def demo_datagram_def)
  then have task: "translate_run be_buf 7 translator_new ?tevs =
      Some ([OpenSocket Fam6, SendTo Fam6 (SockV6 1 80 0 0) [1, 2, 3], Relay (Send 7 ?frame)],
        Ok (Some (set_buf Fam6 demo_datagram (set_open Fam6 translator_new))))"
    by simp
  have tevs: "opens_all (map snd ?tevs)"
    "\<forall>(E, ev) \<in> set ?tevs. send_ok E 7 \<and> udp_event_ok ev \<and> (\<forall>b. ev \<noteq> Outgoing None b)"
    by (simp_all add: MAX_DATAGRAM_def demo_datagram_def)
  have "egress_on (bind_egress demo_handler) (effects as) = [(SockV6 1 80 0 0, [1, 2, 3])]"
    using ws_internet [OF be.buf_axioms _ evs frames, of ?st counter_rng demo_world] run demo_internet(2)
    by (auto simp: demo_peer_frame_def frame_new_def simp del: ws_run.simps)
  then have "outgoing (map snd ?tevs) = egress_on (bind_egress demo_handler) (effects as)" by simp
  from internet_over_websocket [OF be.buf_axioms _ evs frames run task tevs this, of 1] run
  obtain frs where x: "res = Ok Waiting" "w' = demo_world" "st' = ?st" "outs as = map (\<lambda>d. WsSend (WsBinary d)) frs"
    "list_all2 (\<lambda>frame (peer, d). \<exists>f. frame_decode be_buf frame = Ok f \<and> frame_peer f = canonical peer \<and> frame_data f = d)
        frs [(SockV6 1 80 0 0, [5])]"
    by (auto simp: demo_datagram_def simp del: ws_run.simps)
  then obtain fr f where "frs = [fr]" "frame_decode be_buf fr = Ok f" "frame_data f = [5]" by (auto simp: list_all2_Cons2)
  moreover have "fr = ?frame"
    using run x(4) \<open>frs = [fr]\<close> ws_internet [OF be.buf_axioms _ evs frames, of ?st counter_rng demo_world]
    by (auto simp del: ws_run.simps)
  ultimately show ?thesis using run x task
    by (intro exI [of _ demo_world] exI [of _ ?st] exI [of _ as] exI conjI) (auto simp del: ws_run.simps translate_run.simps)
qed

text \<open>C19. A client that opens the resolver over its WebSocket, and sends queries in as many messages, mixed in any way with the
  answers that come back, is sent \<open>PROXY OK\<close> and then, for each query in order, the one answer to that query;
  at any moment, the first \<open>n\<close> of them, where \<open>n\<close> is how many the channel has yielded so far.\<close>

theorem resolver_over_websocket:
  assumes "W0 0" and "\<forall>(E, W, ev) \<in> set evs. send_ok E (next_chan w) \<and> W 0 \<and> tunnel_event ev"
    and session: "ws_run G B ((E0, W0, WsRead (Some (Ok (WsText (own_service 53))))) # evs) (ws_new relay) w = (w', st, as, res)"
    and queries: "map snd qs = sent_on (next_chan w) (effects as)" and "\<forall>(E, q) \<in> set qs. send_ok E relay"
    and answers: "relayed evs = take n (sent_on relay (dns_task lookup relay E1 (map (\<lambda>(E, q). (E, Some q)) qs)))"
  shows "res = Ok Waiting \<and> SpawnDns (next_chan w) relay \<in> set (effects as) \<and>
    outs as = WsSend (WsText (bytes_of ''PROXY OK'')) #
      take n (map (\<lambda>q. WsSend (WsBinary (handle_query lookup q))) (from_ws evs))"
proof -
  have c: "res = Ok Waiting" "effects as = SpawnDns (next_chan w) relay # map (Send (next_chan w)) (from_ws evs)"
    "outs as = WsSend (WsText (bytes_of ''PROXY OK'')) # map (\<lambda>d. WsSend (WsBinary d)) (relayed evs)"
    using ws_conversation [OF assms(1) _ assms(2) session, of "SpawnDns (next_chan w) relay"] by auto
  then have qs: "map snd qs = from_ws evs" using queries by simp
  have "sent_on relay (dns_task lookup relay E1 (map (\<lambda>(E, q). (E, Some q)) qs)) = map (handle_query lookup) (map snd qs)"
    by (simp only: dns_task_def dns_run_replies [OF assms(5)] prod.case sum.case sent_on_replies)
  then show ?thesis using c answers qs by (simp add: take_map)
qed

theorem resolver_over_websocket_witness:
  "\<exists>w' st as. ws_run counter_rng be_buf [(env_up, \<lambda>_. True, WsRead (Some (Ok (WsText (own_service 53))))),
      (env_up, \<lambda>_. True, WsRead (Some (Ok (WsBinary [1])))),
      (env_up, \<lambda>_. True, WsRelay (Some (handle_query demo_lookup [1])))] (ws_new 7) demo_world = (w', st, as, Ok Waiting) \<and>
    outs as = [WsSend (WsText (bytes_of ''PROXY OK'')), WsSend (WsBinary (handle_query demo_lookup [1]))]"
proof -
  let ?evs = "[(env_up, \<lambda>_ :: nat. True, WsRead (Some (Ok (WsBinary [1])))), (env_up, \<lambda>_. True, WsRelay (Some (handle_query demo_lookup [1])))]"
  have evs: "\<forall>(E, W, ev) \<in> set ?evs. send_ok E (next_chan demo_world) \<and> W 0 \<and> tunnel_event ev"
    using handle_query_length [of demo_lookup "[1]"] by auto
  obtain w' st as res where run: "ws_run counter_rng be_buf ((env_up, \<lambda>_. True, WsRead (Some (Ok (WsText (own_service 53))))) # ?evs)
      (ws_new 7) demo_world = (w', st, as, res)"
    by (metis prod_cases4)
  then have "effects as = SpawnDns (next_chan demo_world) 7 # [Send (next_chan demo_world) [1]]"
    using ws_conversation [OF _ _ evs run, of "SpawnDns (next_chan demo_world) 7"] by simp
  with resolver_over_websocket [OF _ evs run, of "[(env_up, [1])]" 1 demo_lookup env_up] run show ?thesis
    by (simp add: dns_task_def chan_send_def del: ws_run.simps)
qed

text \<open>C11. A tunnel through the CONNECT proxy over a WebSocket is one TCP connection as far as the client can tell. However the
  client cuts what it sends into messages, and however sending, receiving and the steps of the proxy's task
  interleave: once it has asked for an allowed host, the proxy has connected to that host and port, once, and written exactly the bytes after the
  request; and the client is sent \<open>PROXY OK\<close>, the success reply and then what came from the
  remote, in order, without loss.\<close>

theorem tunnel_over_websocket:
  assumes "W0 0" and "\<forall>(E, W, ev) \<in> set evs. send_ok E (next_chan w) \<and> W 0 \<and> tunnel_event ev"
    and session: "ws_run G B ((E0, W0, WsRead (Some (Ok (WsText (own_service 8080))))) # evs) (ws_new relay) w = (w', st, as, res)"
    and task: "connect_run allowed relay connect_new tevs = Some (tas, tres)" "\<forall>(E, ev) \<in> set tevs. send_ok E relay \<and> smooth ev"
    and sent: "client_msgs tevs = sent_on (next_chan w) (effects as)"
    and answers: "relayed evs = take n (sent_on relay (to_client tas))"
    and request: "parse_header (concat (from_ws evs)) = Ok (h, rest)" "connect_host h \<in> set allowed"
  shows "res = Ok Waiting \<and> SpawnConnect (next_chan w) relay \<in> set (effects as) \<and> (\<exists>t. tres = Ok (Some t)) \<and>
    connections tas = [(connect_host h, connect_port h)] \<and> written tas = rest \<and>
    outs as = WsSend (WsText (bytes_of ''PROXY OK'')) #
      map (\<lambda>d. WsSend (WsBinary d)) (take n (SUCCESS_REPLY # remote_msgs tevs))"
proof -
  have c: "res = Ok Waiting" "effects as = SpawnConnect (next_chan w) relay # map (Send (next_chan w)) (from_ws evs)"
    "outs as = WsSend (WsText (bytes_of ''PROXY OK'')) # map (\<lambda>d. WsSend (WsBinary d)) (relayed evs)"
    using ws_conversation [OF assms(1) _ assms(2) session, of "SpawnConnect (next_chan w) relay"] by auto
  then have "client_msgs tevs = from_ws evs" using sent by simp
  with tunnel_run [OF task request(2), of rest] request(1)
  have t: "(\<exists>t. tres = Ok (Some t))" "written tas = rest" "connections tas = [(connect_host h, connect_port h)]"
    "to_client tas = map (Send relay) (SUCCESS_REPLY # remote_msgs tevs)" by simp_all
  then have "sent_on relay (to_client tas) = SUCCESS_REPLY # remote_msgs tevs" by (simp only: sent_on_Send)
  with c t answers show ?thesis by simp
qed

theorem tunnel_over_websocket_witness:
  "\<exists>w' st as tas tres. ws_run counter_rng be_buf ((env_up, \<lambda>_. True, WsRead (Some (Ok (WsText (own_service 8080))))) #
      map (\<lambda>d. (env_up, \<lambda>_. True, WsRead (Some (Ok (WsBinary d))))) demo_chunks) (ws_new 7) demo_world = (w', st, as, Ok Waiting) \<and>
    connect_run [''a.b''] 7 connect_new (client_chunks env_up demo_chunks) = Some (tas, tres) \<and>
    connections tas = [(''a.b'', 30000)] \<and> written tas = [8, 9]"
proof -
  let ?evs = "map (\<lambda>d. (env_up, \<lambda>_ :: nat. True, WsRead (Some (Ok (WsBinary d))))) demo_chunks"
  have from_ws: "from_ws (map (\<lambda>d. (env_up, \<lambda>_. True, WsRead (Some (Ok (WsBinary d))))) ds) = ds"
    and rel: "relayed (map (\<lambda>d. (env_up, \<lambda>_. True, WsRead (Some (Ok (WsBinary d))))) ds) = []" 
    and msgs: "client_msgs (client_chunks env_up ds) = ds" for ds
    by (induction ds) simp_all
  have evs: "\<forall>(E, W, ev) \<in> set ?evs. send_ok E (next_chan demo_world) \<and> W 0 \<and> tunnel_event ev" by auto
  have tevs: "\<forall>(E, ev) \<in> set (client_chunks env_up demo_chunks). send_ok E 7 \<and> smooth ev"
    by (auto simp: client_chunks_def)
  obtain w' st as res where run: "ws_run counter_rng be_buf ((env_up, \<lambda>_. True, WsRead (Some (Ok (WsText (own_service 8080))))) # ?evs)
      (ws_new 7) demo_world = (w', st, as, res)"
    by (metis prod_cases4)
  then have "effects as = SpawnConnect (next_chan demo_world) 7 # map (Send (next_chan demo_world)) demo_chunks"
    using ws_conversation [OF _ _ evs run, of "SpawnConnect (next_chan demo_world) 7"] by (simp add: from_ws)
  moreover obtain tas tres where t: "connect_run [''a.b''] 7 connect_new (client_chunks env_up demo_chunks) = Some (tas, tres)"
    using stream_written [of env_up 7, OF _ _ demo_parse] by force
  ultimately show ?thesis
    using tunnel_over_websocket [OF _ evs run t tevs, of 0 "\<lparr>connect_host = ''a.b'', connect_port = 30000\<rparr>" "[8, 9]"] run demo_parse
    by (simp add: from_ws rel msgs del: ws_run.simps)
qed

end
