(* ===== verification/Wt_Conversations.thy ===== *)
theory Wt_Conversations
  imports Web_Transport Conversations
begin

text \<open>
  Whole conversations of a WebTransport client with the proxy's own services. Unlike a WebSocket, the stream has no
  messages: the command that opens the tunnel, and what goes through it, may be cut anywhere.
\<close>

section \<open>The session as a pipe\<close>

type_synonym wt_script = "((nat \<Rightarrow> env) \<times> writes_ok \<times> wt_event) list"

fun from_wt :: "wt_script \<Rightarrow> bytes list" where
  "from_wt [] = []"
| "from_wt ((_, _, FillBuf (Inr d)) # evs) = d # from_wt evs"
| "from_wt (_ # evs) = from_wt evs"

fun wt_relayed :: "wt_script \<Rightarrow> bytes list" where
  "wt_relayed [] = []"
| "wt_relayed ((_, _, WtRelay (Some d)) # evs) = d # wt_relayed evs"
| "wt_relayed (_ # evs) = wt_relayed evs"

text \<open>A read of the stream, and a turn of a tunnel: a read, or a message of the relay with something in it.\<close>

fun is_read :: "wt_event \<Rightarrow> bool" where
  "is_read (FillBuf (Inr d)) = (d \<noteq> [])"
| "is_read _ = False"

fun wt_tunnel_event :: "wt_event \<Rightarrow> bool" where
  "wt_tunnel_event (FillBuf (Inr d)) = (d \<noteq> [])"
| "wt_tunnel_event (WtRelay (Some d)) = (d \<noteq> [])"
| "wt_tunnel_event _ = False"

lemma wt_pipe:
  assumes st: "wt_lease st = Some l" "\<not> wt_udp st" "wt_send st" "wt_recv st"
    and l: "\<And>E d s. send_ok E tx \<Longrightarrow> lease_send B E l d s = ([Send tx d], Ok ())"
    and evs: "\<forall>(T, W, ev) \<in> set evs. send_ok (T 0) tx \<and> W 0 \<and> wt_tunnel_event ev"
  shows "\<exists>as. wt_run G B evs st w = (w, st, as, Ok ()) \<and> effects as = map (Send tx) (from_wt evs) \<and>
    outs as = map WriteStream (wt_relayed evs)"
  using evs
proof (induction evs)
  case (Cons x evs)
  obtain T W ev where x: "x = (T, W, ev)" by (cases x)
  from Cons x have up: "send_ok (T 0) tx" "W 0" "wt_tunnel_event ev"
    and IH: "\<exists>as. wt_run G B evs st w = (w, st, as, Ok ()) \<and> effects as = map (Send tx) (from_wt evs) \<and>
      outs as = map WriteStream (wt_relayed evs)" by auto
  from up show ?case
    by (cases ev rule: wt_tunnel_event.cases)
      (use IH st in \<open>auto simp: x wt_handle_data_def wt_relay_stream_def wt_handle_relay_def l\<close>)
qed simp

lemma wt_run_append:
  assumes "wt_run G B xs st w = (w1, st1, as1, Ok ())"
  shows "wt_run G B (xs @ ys) st w = (case wt_run G B ys st1 w1 of (w2, st2, as2, res) \<Rightarrow> (w2, st2, as1 @ as2, res))"
  using assms
proof (induction xs arbitrary: st w as1)
  case (Cons x xs)
  obtain T W ev where x: "x = (T, W, ev)" by (cases x)
  show ?case
  proof (cases "wt_enabled st ev")
    case True
    obtain w2 st2 as2 res where turn: "wt_turn G B T W ev st w = (w2, st2, as2, res)" by (metis prod_cases4)
    with Cons.prems x True obtain u as3 where res: "res = Inr u" "wt_run G B xs st2 w2 = (w1, st1, as3, Ok ())" "as1 = as2 @ as3"
      by (cases res) (auto split: prod.splits)
    from Cons.IH [OF res(2)] x True turn res(1,3) show ?thesis by (simp split: prod.split)
  next
    case False
    with Cons x show ?thesis by simp
  qed
qed simp

text \<open>Reads that do not complete a line are kept.\<close>

lemma wt_partial_reads:
  assumes "wt_lease st = None" "wt_recv st" and "\<forall>(T, W, ev) \<in> set evs. is_read ev"
    and "10 \<notin> set (wt_cmdbuf st @ concat (from_wt evs))" and "length (wt_cmdbuf st @ concat (from_wt evs)) < MAX_COMMAND_SIZE"
  shows "wt_run G B evs st w = (w, st\<lparr>wt_cmdbuf := wt_cmdbuf st @ concat (from_wt evs)\<rparr>, [], Ok ())"
  using assms
proof (induction evs arbitrary: st)
  case (Cons x evs)
  obtain T W ev where x: "x = (T, W, ev)" by (cases x)
  with Cons.prems(3) obtain d where d: "ev = FillBuf (Ok d)" "d \<noteq> []" by (cases ev rule: is_read.cases) auto
  let ?st = "st\<lparr>wt_cmdbuf := wt_cmdbuf st @ d\<rparr>"
  have "position (\<lambda>b. b = 10) (wt_cmdbuf ?st) = None" using Cons.prems(4) x d by (auto simp: position_None)
  then have "wt_turn G B T W ev st w = (w, ?st, [], Ok ())"
    using wt_commands_partial [of ?st G B T W 0 w] Cons.prems(1,5) x d by (simp add: wt_handle_data_def)
  moreover have "wt_run G B evs ?st w = (w, ?st\<lparr>wt_cmdbuf := wt_cmdbuf ?st @ concat (from_wt evs)\<rparr>, [], Ok ())"
    by (rule Cons.IH) (use Cons.prems x d in simp_all)
  ultimately show ?case using x d Cons.prems(2) by simp
qed simp

text \<open>The command that opens a tunnel, as one line of the stream.\<close>

lemma own_service_lines:
  "10 \<notin> set (own_service 53)" "length (own_service 53) < MAX_COMMAND_SIZE"
  "10 \<notin> set (own_service 8080)" "length (own_service 8080) < MAX_COMMAND_SIZE"
  by (simp_all add: own_service_def proxy_line_def bytes_of_def show_dec_def show_radix.simps [of _ 53] show_radix.simps [of _ 8080]
      show_radix.simps [of _ 808] show_radix.simps [of _ 80] show_radix.simps [of _ 8] show_radix.simps [of _ 5] digit_char_def MAX_COMMAND_SIZE_def)

lemma own_service_line:
  "port = 53 \<or> port = 8080 \<Longrightarrow> 10 \<notin> set (own_service port) \<and> length (own_service port) < MAX_COMMAND_SIZE"
  using own_service_lines by blast

lemma wt_open_service:
  assumes st: "wt_lease st = None" "wt_relay st = Some relay" "wt_send st" "\<not> wt_udp st"
    and line: "wt_cmdbuf st @ d = own_service port @ 10 # rest" and d: "d \<noteq> []" and up: "\<forall>k. W k" "send_ok (T 1) tx" "tx = next_chan w"
    and port: "port = 53 \<and> l = DnsLease \<lparr>dns_transmit = tx\<rparr> \<and> spawn = SpawnDns tx relay \<or>
      port = 8080 \<and> l = ConnectLease \<lparr>connect_transmit = tx\<rparr> \<and> spawn = SpawnConnect tx relay"
  shows "wt_turn G B T W (FillBuf (Ok d)) st w =
    (w\<lparr>next_chan := tx + 1\<rparr>, st\<lparr>wt_lease := Some l, wt_relay := None, wt_cmdbuf := []\<rparr>,
     Did spawn # Out (WriteStream (bytes_of ''PROXY OK'')) # Out (WriteStream [10]) #
       map (\<lambda>d. Did (Send tx d)) (if rest = [] then [] else [rest]), Ok ())"
proof -
  let ?st = "st\<lparr>wt_cmdbuf := own_service port @ 10 # rest\<rparr>"
  let ?n = "length (own_service port)"
  let ?r = "\<lparr>response = ''PROXY OK'', new_lease = Some l, relay_udp = False\<rparr>"
  have pos: "position (\<lambda>b. b = 10) (wt_cmdbuf ?st) = Some ?n"
    using own_service_line [of port] port by (auto simp: position_Some nth_append in_set_conv_nth)
  have cmd: "handle_command G (T 0) (take ?n (wt_cmdbuf ?st)) (wt_relay ?st) w = (w\<lparr>next_chan := tx + 1\<rparr>, None, [spawn], Ok ?r)"
    using handle_command_own_service [OF parse_own_address own_address_token, of G "T 0" port relay w] st(2) up(3) port
    by (auto simp: own_service_def)
  have after: "wt_after ?st ?n None ?r = st\<lparr>wt_lease := Some l, wt_relay := None, wt_cmdbuf := rest\<rparr>"
    using st(4) by (simp add: wt_after_def)
  have send: "lease_send B (T 1) l rest s = ([Send tx rest], Ok ())" for s
    using port up(2) by (auto simp: dns_send_def connect_send_def chan_send_def)
  have "wt_commands G B T W 0 ?st w =
    (w\<lparr>next_chan := tx + 1\<rparr>, st\<lparr>wt_lease := Some l, wt_relay := None, wt_cmdbuf := []\<rparr>,
     Did spawn # Out (WriteStream (bytes_of ''PROXY OK'')) # Out (WriteStream [10]) #
       map (\<lambda>d. Did (Send tx d)) (if rest = [] then [] else [rest]), Ok ())"
    using wt_commands_answer [where T = T and k = 0 and B = B and W = W, OF _ pos cmd] st(1,3,4) up(1) send
    by (simp add: after wt_reply_def wt_commands_leased wt_relay_stream_def)
  then show ?thesis using st(1) d line by (simp add: wt_handle_data_def)
qed

text \<open>
  A session from its beginning: the stream is accepted, the line of the command arrives in any number of
  reads, the last of which may hold more than the line, and from then on the stream is a pipe.
\<close>

lemma from_wt_append [simp]: "from_wt (xs @ ys) = from_wt xs @ from_wt ys"
  by (induction xs rule: from_wt.induct) auto

definition through :: "bytes \<Rightarrow> wt_script \<Rightarrow> bytes list" where
  "through rest post = (if rest = [] then [] else [rest]) @ from_wt post"

lemma wt_conversation:
  assumes port: "port = 53 \<and> spawn = SpawnDns tx relay \<or> port = 8080 \<and> spawn = SpawnConnect tx relay" and tx: "tx = next_chan w"
    and pre: "\<forall>(T, W, ev) \<in> set pre. is_read ev" and d: "d \<noteq> []"
    and line: "concat (from_wt pre) @ d = own_service port @ 10 # rest" "length (concat (from_wt pre)) \<le> length (own_service port)"
    and up: "\<forall>k. W1 k" "send_ok (T1 1) tx" and post: "\<forall>(T, W, ev) \<in> set post. send_ok (T 0) tx \<and> W 0 \<and> wt_tunnel_event ev"
    and run: "wt_run G B ((T0, W0, AcceptBi (Ok ())) # pre @ (T1, W1, FillBuf (Ok d)) # post) (wt_new relay) w = (w', st, as, res)"
  shows "res = Ok () \<and> effects as = spawn # map (Send tx) (through rest post) \<and>
    outs as = WriteStream (bytes_of ''PROXY OK'') # WriteStream [10] # map WriteStream (wt_relayed post)"
proof -
  let ?st0 = "(wt_new relay)\<lparr>wt_send := True, wt_recv := True\<rparr>"
  let ?st1 = "?st0\<lparr>wt_cmdbuf := concat (from_wt pre)\<rparr>"
  define l where "l = (if port = 53 then DnsLease \<lparr>dns_transmit = tx\<rparr> else ConnectLease \<lparr>connect_transmit = tx\<rparr>)"
  let ?st2 = "?st1\<lparr>wt_lease := Some l, wt_relay := None, wt_cmdbuf := []\<rparr>"
  have small: "10 \<notin> set (own_service port)" "length (own_service port) < MAX_COMMAND_SIZE" using own_service_line port by auto
  have "take (length (concat (from_wt pre))) (concat (from_wt pre) @ d) = take (length (concat (from_wt pre))) (own_service port)"
    unfolding line(1) using line(2) by simp
  then have part: "concat (from_wt pre) = take (length (concat (from_wt pre))) (own_service port)" by simp
  have "10 \<notin> set (concat (from_wt pre))" using small(1) part by (metis in_set_takeD)
  then have r1: "wt_run G B pre ?st0 w = (w, ?st1, [], Ok ())"
    using wt_partial_reads [of ?st0 pre G B w] pre line(2) small(2) by (simp add: wt_new_def)
  have r2: "wt_turn G B T1 W1 (FillBuf (Ok d)) ?st1 w = (w\<lparr>next_chan := tx + 1\<rparr>, ?st2,
     Did spawn # Out (WriteStream (bytes_of ''PROXY OK'')) # Out (WriteStream [10]) #
       map (\<lambda>d. Did (Send tx d)) (if rest = [] then [] else [rest]), Ok ())"
    by (rule wt_open_service [where port = port and relay = relay])
      (use line(1) d up tx port in \<open>auto simp: wt_new_def l_def\<close>)
  have "lease_send B E l d s = ([Send tx d], Ok ())" if "send_ok E tx" for E d s
    using that by (auto simp: l_def dns_send_def connect_send_def chan_send_def)
  from wt_pipe [where st = ?st2 and w = "w\<lparr>next_chan := tx + 1\<rparr>" and G = G, OF _ _ _ _ this post] obtain as3 where r3:
    "wt_run G B post ?st2 (w\<lparr>next_chan := tx + 1\<rparr>) = (w\<lparr>next_chan := tx + 1\<rparr>, ?st2, as3, Ok ())"
    "effects as3 = map (Send tx) (from_wt post)" "outs as3 = map WriteStream (wt_relayed post)"
    by (auto simp: wt_new_def)
  have enabled: "wt_recv ?st1" by simp
  have "wt_run G B ((T0, W0, AcceptBi (Ok ())) # pre @ (T1, W1, FillBuf (Ok d)) # post) (wt_new relay) w =
    wt_run G B (pre @ (T1, W1, FillBuf (Ok d)) # post) ?st0 w"
    by (simp add: wt_new_def split: prod.split)
  also have "\<dots> = (w\<lparr>next_chan := tx + 1\<rparr>, ?st2, (Did spawn # Out (WriteStream (bytes_of ''PROXY OK'')) # Out (WriteStream [10]) #
       map (\<lambda>d. Did (Send tx d)) (if rest = [] then [] else [rest])) @ as3, Ok ())"
    unfolding wt_run_append [OF r1] using r2 r3(1) enabled by (simp del: wt_turn.simps)
  finally show ?thesis using run r3 by (auto simp: through_def)
qed

text \<open>
  The stream has no boundaries but those of its reads, and the resolver takes each read for one query. Two
  queries that arrive in one read are one malformed query.
\<close>

lemma split_by_append_sep: "ws c \<Longrightarrow> split_by ws (a @ c # b) = split_by ws a @ split_by ws b"
proof (induction ws a rule: split_by.induct)
  case (2 ws x a)
  show ?case
  proof (cases "ws x")
    case False
    have tw: "takeWhile (\<lambda>x. \<not> ws x) (a @ c # b) = takeWhile (\<lambda>x. \<not> ws x) a"
      using 2(3) by (induction a) auto
    have "split_by ws (dropWhile (\<lambda>x. \<not> ws x) (a @ c # b)) =
        split_by ws (dropWhile (\<lambda>x. \<not> ws x) a) @ split_by ws b"
    proof (cases "\<forall>y \<in> set a. \<not> ws y")
      case True
      with 2(3) show ?thesis by (simp add: dropWhile_append3 dropWhile_eq_Nil_conv [THEN iffD2])
    next
      case some: False
      then have "dropWhile (\<lambda>x. \<not> ws x) (a @ c # b) = dropWhile (\<lambda>x. \<not> ws x) a @ c # b"
        by (auto simp: dropWhile_append)
      then show ?thesis using 2(2) [OF False 2(3)] by simp
    qed
    with False tw show ?thesis by simp
  qed (use 2 in simp)
qed simp

lemma newline_separates: "is_whitespace (char_of (10 :: nat))"
  by (simp add: is_whitespace_def char_of_def bit_0)

lemma queries_in_one_read:
  assumes "parse_query q = Ok x" and "parse_query q' = Ok y"
  shows "handle_query lookup (q @ 10 # q') = [0]"
proof -
  obtain h f where x: "x = (h, f)" by (cases x)
  obtain h' f' where y: "y = (h', f')" by (cases y)
  from assms x y have q: "is_ascii q" "split_whitespace (text_of q) = [h, filter_token f]"
    "is_ascii q'" "split_whitespace (text_of q') = [h', filter_token f']" by (simp_all add: parse_query_Ok)
  have "is_ascii (q @ 10 # q')" using q(1,3) by (simp add: is_ascii_def)
  moreover have "split_whitespace (text_of (q @ 10 # q')) = [h, filter_token f, h', filter_token f']"
    using q(2,4) split_by_append_sep [of is_whitespace "char_of (10 :: nat)"]
    by (simp add: text_of_def split_whitespace_def newline_separates)
  ultimately have "\<exists>e. parse_query (q @ 10 # q') = Err e"
    by (cases f) (auto simp: parse_query_def Let_def)
  then show ?thesis by (auto simp: handle_query_def dns_encode_def dns_selected_def)
qed

text \<open>A bound port over WebTransport: frames are datagrams of the session, either way.\<close>

fun from_datagrams :: "wt_script \<Rightarrow> bytes list" where
  "from_datagrams [] = []"
| "from_datagrams ((_, _, ReadDatagram (Inr d)) # evs) = d # from_datagrams evs"
| "from_datagrams (_ # evs) = from_datagrams evs"

fun wt_udp_event :: "wt_event \<Rightarrow> bool" where
  "wt_udp_event (ReadDatagram (Inr d)) = True"
| "wt_udp_event (WtRelay (Some d)) = (d \<noteq> [])"
| "wt_udp_event _ = False"

lemma from_datagrams_mem: "(T, W, ReadDatagram (Ok d)) \<in> set evs \<Longrightarrow> d \<in> set (from_datagrams evs)"
  by (induction evs rule: from_datagrams.induct) auto

lemma wt_udp_pipe:
  assumes st: "wt_lease st = Some l" "wt_udp st"
    and evs: "\<forall>(T, W, ev) \<in> set evs. W 0 \<and> wt_udp_event ev \<and>
      (\<forall>d. ev = ReadDatagram (Ok d) \<longrightarrow> lease_send B (T 0) l d (net_of w) = ([eff d], Ok ()))"
  shows "\<exists>as. wt_run G B evs st w = (w, st, as, Ok ()) \<and> effects as = map eff (from_datagrams evs) \<and>
    outs as = map SendDatagram (wt_relayed evs)"
  using evs
proof (induction evs)
  case (Cons x evs)
  obtain T W ev where x: "x = (T, W, ev)" by (cases x)
  from Cons obtain as where run: "wt_run G B evs st w = (w, st, as, Ok ())" "effects as = map eff (from_datagrams evs)"
    "outs as = map SendDatagram (wt_relayed evs)" by auto
  from Cons.prems x have up: "W 0" "wt_udp_event ev"
    "\<And>d. ev = ReadDatagram (Ok d) \<Longrightarrow> lease_send B (T 0) l d (net_of w) = ([eff d], Ok ())" by auto
  show ?case
    by (cases ev rule: wt_udp_event.cases)
      (use up in \<open>simp_all add: x run st wt_handle_datagram_def wt_handle_relay_def\<close>)
qed simp

lemma wt_internet:
  assumes "buf B" and lease: "wt_lease st = Some (BindLease h)" "wt_udp st"
    and evs: "\<forall>(T, W, ev) \<in> set evs. send_ok (T 0) (bind_egress h) \<and> W 0 \<and> wt_udp_event ev"
    and frames: "map (frame_decode B) (from_datagrams evs) = map Ok fs"
      "\<forall>f \<in> set fs. \<forall>v6. sock_ip (frame_peer f) = V6 v6 \<longrightarrow> \<not> is_network_address v6"
  shows "\<exists>as. wt_run G B evs st w = (w, st, as, Ok ()) \<and>
    egress_on (bind_egress h) (effects as) = map (\<lambda>f. (frame_peer f, frame_data f)) fs \<and>
    outs as = map SendDatagram (wt_relayed evs)"
proof -
  obtain eff where eff: "\<forall>d \<in> set (from_datagrams evs). \<forall>E s. send_ok E (bind_egress h) \<longrightarrow> bind_send B E h d s = ([eff d], Ok ())"
    "egress_on (bind_egress h) (map eff (from_datagrams evs)) = map (\<lambda>f. (frame_peer f, frame_data f)) fs"
    using bind_pipe [where h = h, OF assms(1) frames] by blast
  have "\<forall>(T, W, ev) \<in> set evs. W 0 \<and> wt_udp_event ev \<and>
      (\<forall>d. ev = ReadDatagram (Ok d) \<longrightarrow> lease_send B (T 0) (BindLease h) d (net_of w) = ([eff d], Ok ()))"
    using evs eff(1) from_datagrams_mem by fastforce
  from wt_udp_pipe [OF lease this, of G] eff(2) show ?thesis by auto
qed

section \<open>Properties\<close>

text \<open>C12. A tunnel through the CONNECT proxy over WebTransport is one TCP connection too, and the stream really is one: the line that opens the
  tunnel may arrive in any number of reads, and the last of them may already hold the beginning of the request. However
  reads, answers and the steps of the proxy's task interleave, once the request for an allowed host is complete, the proxy has connected to that host and
  port, once, and written exactly the bytes after the request; and the stream carries the reply \<open>PROXY OK\<close> on
  a line, the success reply, and then what came from the remote, in order and without loss.\<close>

theorem tunnel_over_webtransport:
  assumes pre: "\<forall>(T, W, ev) \<in> set pre. is_read ev" and d: "d \<noteq> []"
    and line: "concat (from_wt pre) @ d = own_service 8080 @ 10 # rest" "length (concat (from_wt pre)) \<le> length (own_service 8080)"
    and up: "\<forall>k. W1 k" "send_ok (T1 1) (next_chan w)"
      "\<forall>(T, W, ev) \<in> set post. send_ok (T 0) (next_chan w) \<and> W 0 \<and> wt_tunnel_event ev"
    and session: "wt_run G B ((T0, W0, AcceptBi (Ok ())) # pre @ (T1, W1, FillBuf (Ok d)) # post) (wt_new relay) w = (w', st, as, res)"
    and task: "connect_run allowed relay connect_new tevs = Some (tas, tres)" "\<forall>(E, ev) \<in> set tevs. send_ok E relay \<and> smooth ev"
    and sent: "client_msgs tevs = sent_on (next_chan w) (effects as)"
    and answers: "wt_relayed post = take n (sent_on relay (to_client tas))"
    and request: "parse_header (rest @ concat (from_wt post)) = Ok (h, body)" "connect_host h \<in> set allowed"
  shows "res = Ok () \<and> SpawnConnect (next_chan w) relay \<in> set (effects as) \<and> (\<exists>t. tres = Ok (Some t)) \<and>
    connections tas = [(connect_host h, connect_port h)] \<and> written tas = body \<and>
    outs as = WriteStream (bytes_of ''PROXY OK'') # WriteStream [10] #
      map WriteStream (take n (SUCCESS_REPLY # remote_msgs tevs))"
proof -
  have c: "res = Ok ()" "effects as = SpawnConnect (next_chan w) relay # map (Send (next_chan w)) (through rest post)"
    "outs as = WriteStream (bytes_of ''PROXY OK'') # WriteStream [10] # map WriteStream (wt_relayed post)"
    using wt_conversation [OF _ refl pre d line up session, of "SpawnConnect (next_chan w) relay"] by auto
  then have "concat (client_msgs tevs) = rest @ concat (from_wt post)" using sent by (simp add: through_def)
  with tunnel_run [OF task request(2), of body] request(1)
  have t: "(\<exists>t. tres = Ok (Some t))" "written tas = body" "connections tas = [(connect_host h, connect_port h)]"
    "to_client tas = map (Send relay) (SUCCESS_REPLY # remote_msgs tevs)" by simp_all
  then have "sent_on relay (to_client tas) = SUCCESS_REPLY # remote_msgs tevs" by (simp only: sent_on_Send)
  with c t answers show ?thesis by simp
qed

theorem tunnel_over_webtransport_witness:
  "\<exists>w' st as tas tres. wt_run counter_rng be_buf
      [(\<lambda>_. env_up, \<lambda>_. True, AcceptBi (Ok ())), (\<lambda>_. env_up, \<lambda>_. True, FillBuf (Ok (take 9 (own_service 8080)))),
       (\<lambda>_. env_up, \<lambda>_. True, FillBuf (Ok (drop 9 (own_service 8080) @ 10 # take 7 (concat demo_chunks)))),
       (\<lambda>_. env_up, \<lambda>_. True, FillBuf (Ok (drop 7 (concat demo_chunks))))] (wt_new 7) demo_world = (w', st, as, Ok ()) \<and>
    connect_run [''a.b''] 7 connect_new (client_chunks env_up [take 7 (concat demo_chunks), drop 7 (concat demo_chunks)]) = Some (tas, tres) \<and>
    connections tas = [(''a.b'', 30000)] \<and> written tas = [8, 9]"
proof -
  let ?c = "concat demo_chunks"
  let ?pre = "[(\<lambda>_ :: nat. env_up, \<lambda>_ :: nat. True, FillBuf (Ok (take 9 (own_service 8080))))]"
  let ?d = "drop 9 (own_service 8080) @ 10 # take 7 ?c"
  let ?post = "[(\<lambda>_ :: nat. env_up, \<lambda>_ :: nat. True, FillBuf (Ok (drop 7 ?c)))]"
  have long: "own_service 8080 \<noteq> []" "take 7 ?c \<noteq> []" "drop 7 ?c \<noteq> []"
    by (simp_all add: own_service_def proxy_line_def bytes_of_def demo_chunks_def connect_request_def)
  have ds: "parse_header (concat [take 7 ?c, drop 7 ?c]) = Ok (\<lparr>connect_host = ''a.b'', connect_port = 30000\<rparr>, [8, 9])"
    using demo_parse by simp
  obtain tas tres where t: "connect_run [''a.b''] 7 connect_new (client_chunks env_up [take 7 ?c, drop 7 ?c]) = Some (tas, tres)"
    using stream_written [of env_up 7, OF _ _ ds, of "[''a.b'']"] by force
  have tevs: "\<forall>(E, ev) \<in> set (client_chunks env_up [take 7 ?c, drop 7 ?c]). send_ok E 7 \<and> smooth ev" by simp
  obtain w' st as res where run: "wt_run counter_rng be_buf ((\<lambda>_. env_up, \<lambda>_. True, AcceptBi (Ok ())) #
      ?pre @ (\<lambda>_. env_up, \<lambda>_. True, FillBuf (Ok ?d)) # ?post) (wt_new 7) demo_world = (w', st, as, res)"
    by (metis prod_cases4)
  have pre: "\<forall>(T, W, ev) \<in> set ?pre. is_read ev" "?d \<noteq> []"
    "concat (from_wt ?pre) @ ?d = own_service 8080 @ 10 # take 7 ?c" "length (concat (from_wt ?pre)) \<le> length (own_service 8080)"
    using long by simp_all
  have post: "\<forall>k. (\<lambda>_ :: nat. True) k" "send_ok ((\<lambda>_ :: nat. env_up) 1) (next_chan demo_world)"
    "\<forall>(T, W, ev) \<in> set ?post. send_ok (T 0) (next_chan demo_world) \<and> W 0 \<and> wt_tunnel_event ev"
    using long by simp_all
  have "effects as = SpawnConnect (next_chan demo_world) 7 # map (Send (next_chan demo_world)) (through (take 7 ?c) ?post)"
    using wt_conversation [OF _ refl pre post run, of "SpawnConnect (next_chan demo_world) 7"] by simp
  then have "client_msgs (client_chunks env_up [take 7 ?c, drop 7 ?c]) = sent_on (next_chan demo_world) (effects as)"
    using long by (simp add: through_def)
  from tunnel_over_webtransport [OF pre post run t tevs this, of 0] demo_parse run t show ?thesis
    by (auto simp del: wt_run.simps)
qed

text \<open>C20. A client that opens the resolver over WebTransport is sent one answer for each read of its stream, in order: the
  bytes after the opening line, if the read that completed it held any, and then each later read count as one query. So two queries that arrive in one read, on a line each, get
  one answer for both, with no addresses in it.\<close>

theorem resolver_over_webtransport:
  assumes pre: "\<forall>(T, W, ev) \<in> set pre. is_read ev" and d: "d \<noteq> []"
    and line: "concat (from_wt pre) @ d = own_service 53 @ 10 # rest" "length (concat (from_wt pre)) \<le> length (own_service 53)"
    and up: "\<forall>k. W1 k" "send_ok (T1 1) (next_chan w)"
      "\<forall>(T, W, ev) \<in> set post. send_ok (T 0) (next_chan w) \<and> W 0 \<and> wt_tunnel_event ev"
    and session: "wt_run G B ((T0, W0, AcceptBi (Ok ())) # pre @ (T1, W1, FillBuf (Ok d)) # post) (wt_new relay) w = (w', st, as, res)"
    and queries: "map snd qs = sent_on (next_chan w) (effects as)" and "\<forall>(E, q) \<in> set qs. send_ok E relay"
    and answers: "wt_relayed post = take n (sent_on relay (dns_task lookup relay E1 (map (\<lambda>(E, q). (E, Some q)) qs)))"
  shows "res = Ok () \<and> SpawnDns (next_chan w) relay \<in> set (effects as) \<and>
    outs as = WriteStream (bytes_of ''PROXY OK'') # WriteStream [10] #
      take n (map (\<lambda>q. WriteStream (handle_query lookup q)) (through rest post)) \<and>
    (\<forall>q q' x y. parse_query q = Ok x \<and> parse_query q' = Ok y \<longrightarrow> handle_query lookup (q @ 10 # q') = [0])"
proof -
  have c: "res = Ok ()" "effects as = SpawnDns (next_chan w) relay # map (Send (next_chan w)) (through rest post)"
    "outs as = WriteStream (bytes_of ''PROXY OK'') # WriteStream [10] # map WriteStream (wt_relayed post)"
    using wt_conversation [OF _ refl pre d line up session, of "SpawnDns (next_chan w) relay"] by auto
  then have qs: "map snd qs = through rest post" using queries by simp
  have "sent_on relay (dns_task lookup relay E1 (map (\<lambda>(E, q). (E, Some q)) qs)) = map (handle_query lookup) (map snd qs)"
    by (simp only: dns_task_def dns_run_replies [OF assms(10)] prod.case sum.case sent_on_replies)
  then show ?thesis using c answers qs queries_in_one_read by (auto simp: take_map)
qed

theorem resolver_over_webtransport_witness:
  "\<exists>w' st as. wt_run counter_rng be_buf
      [(\<lambda>_. env_up, \<lambda>_. True, AcceptBi (Ok ())), (\<lambda>_. env_up, \<lambda>_. True, FillBuf (Ok (own_service 53 @ [10]))),
       (\<lambda>_. env_up, \<lambda>_. True, FillBuf (Ok [1])), (\<lambda>_. env_up, \<lambda>_. True, WtRelay (Some (handle_query demo_lookup [1])))]
      (wt_new 7) demo_world = (w', st, as, Ok ()) \<and>
    outs as = [WriteStream (bytes_of ''PROXY OK''), WriteStream [10], WriteStream (handle_query demo_lookup [1])]"
proof -
  let ?d = "own_service 53 @ [10]"
  let ?post = "[(\<lambda>_ :: nat. env_up, \<lambda>_ :: nat. True, FillBuf (Ok [1])), (\<lambda>_. env_up, \<lambda>_. True, WtRelay (Some (handle_query demo_lookup [1])))]"
  have post: "\<forall>k. (\<lambda>_ :: nat. True) k" "send_ok ((\<lambda>_ :: nat. env_up) 1) (next_chan demo_world)"
    "\<forall>(T, W, ev) \<in> set ?post. send_ok (T 0) (next_chan demo_world) \<and> W 0 \<and> wt_tunnel_event ev"
    using handle_query_length [of demo_lookup "[1]"] by auto
  have pre: "\<forall>(T, W, ev) \<in> set ([] :: wt_script). is_read ev" "?d \<noteq> []"
    "concat (from_wt []) @ ?d = own_service 53 @ 10 # []" "length (concat (from_wt [])) \<le> length (own_service 53)"
    by simp_all
  obtain w' st as res where run: "wt_run counter_rng be_buf ((\<lambda>_. env_up, \<lambda>_. True, AcceptBi (Ok ())) #
      [] @ (\<lambda>_. env_up, \<lambda>_. True, FillBuf (Ok ?d)) # ?post) (wt_new 7) demo_world = (w', st, as, res)"
    by (metis prod_cases4)
  have "effects as = SpawnDns (next_chan demo_world) 7 # [Send (next_chan demo_world) [1]]"
    using wt_conversation [OF _ refl pre post run, of "SpawnDns (next_chan demo_world) 7"] by (simp add: through_def)
  with resolver_over_webtransport [OF pre post run, of "[(env_up, [1])]" 1 demo_lookup env_up] run show ?thesis
    by (simp add: dns_task_def chan_send_def through_def del: wt_run.simps)
qed

text \<open>C8. A bound port over WebTransport is a UDP socket on the internet, and datagrams stay datagrams. However sending,
  receiving and the steps of the translator interleave, and as long as sockets can be opened and the connection takes datagrams: every datagram
  of the session that is a frame for a peer on the internet is sent to that peer, its data unchanged, once and in
  order; and for every datagram that arrives, in order, the client is sent one datagram of the session, a
  frame that names the peer it came from, in canonical form, and holds its bytes. Nothing goes over the stream.\<close>

theorem internet_over_webtransport:
  assumes "buf B" and lease: "wt_lease st = Some (BindLease h)" "wt_udp st"
    and evs: "\<forall>(T, W, ev) \<in> set evs. send_ok (T 0) (bind_egress h) \<and> W 0 \<and> wt_udp_event ev"
    and frames: "map (frame_decode B) (from_datagrams evs) = map Ok fs"
      "\<forall>f \<in> set fs. \<forall>v6. sock_ip (frame_peer f) = V6 v6 \<longrightarrow> \<not> is_network_address v6"
    and session: "wt_run G B evs st w = (w', st', as, res)"
    and task: "translate_run B relay translator_new tevs = Some (tas, tres)" "opens_all (map snd tevs)"
      "\<forall>(E, ev) \<in> set tevs. send_ok E relay \<and> udp_event_ok ev \<and> (\<forall>b. ev \<noteq> Outgoing None b)"
    and sent: "outgoing (map snd tevs) = egress_on (bind_egress h) (effects as)"
    and answers: "wt_relayed evs = take n (sent_on relay (relays tas))"
  shows "res = Ok () \<and> w' = w \<and> st' = st \<and> sent tas = map (\<lambda>f. (frame_peer f, frame_data f)) fs \<and>
    (\<exists>frames. outs as = map SendDatagram frames \<and>
      list_all2 (\<lambda>frame (peer, d). \<exists>f. frame_decode B frame = Ok f \<and> frame_peer f = canonical peer \<and> frame_data f = d)
        frames (take n (replies (map snd tevs))))"
proof -
  obtain as0 where "wt_run G B evs st w = (w, st, as0, Ok ())"
    "egress_on (bind_egress h) (effects as0) = map (\<lambda>f. (frame_peer f, frame_data f)) fs"
    "outs as0 = map SendDatagram (wt_relayed evs)"
    using wt_internet [OF assms(1) lease evs frames, of G w] by blast
  with session have c: "res = Ok ()" "w' = w" "st' = st"
    "egress_on (bind_egress h) (effects as) = map (\<lambda>f. (frame_peer f, frame_data f)) fs"
    "outs as = map SendDatagram (wt_relayed evs)" by simp_all
  note frames_of = translator_frames [OF assms(1) task(1,3), of n]
  show ?thesis using c sent frames_of answers translate_sends_all [OF task(1,2)] by auto
qed

theorem internet_over_webtransport_witness:
  "\<exists>(w :: nat world) st as tas tres frame f. wt_run counter_rng be_buf
      [(\<lambda>_. env_up, \<lambda>_. True, ReadDatagram (Ok (frame_bytes (demo_peer_frame 1)))), (\<lambda>_. env_up, \<lambda>_. True, WtRelay (Some frame))]
      st w = (w, st, as, Ok ()) \<and> outs as = [SendDatagram frame] \<and>
    translate_run be_buf 7 translator_new [(env_up, Outgoing (Some (SockV6 1 80 0 0, [1, 2, 3])) True),
      (env_up, Received Fam6 (Some (1, SockV6 1 80 0 0)) demo_datagram)] = Some (tas, tres) \<and>
    sent tas = [(SockV6 1 80 0 0, [1, 2, 3])] \<and>
    frame_decode be_buf frame = Ok f \<and> frame_data f = [5]"
proof -
  let ?frame = "frame_bytes (frame_to_peer (SockV6 1 80 0 0) [5])"
  let ?st = "(wt_new 7)\<lparr>wt_lease := Some (BindLease demo_handler), wt_udp := True\<rparr>"
  let ?evs = "[(\<lambda>_ :: nat. env_up, \<lambda>_ :: nat. True, ReadDatagram (Ok (frame_bytes (demo_peer_frame 1)))),
    (\<lambda>_. env_up, \<lambda>_. True, WtRelay (Some ?frame))]"
  let ?tevs = "[(env_up, Outgoing (Some (SockV6 1 80 0 0, [1, 2, 3])) True),
      (env_up, Received Fam6 (Some (1, SockV6 1 80 0 0)) demo_datagram)]"
  have lease: "wt_lease ?st = Some (BindLease demo_handler)" "wt_udp ?st" by simp_all
  have "?frame \<noteq> []" using be.decode_frame_bytes [of "frame_to_peer (SockV6 1 80 0 0) [5]"]
    by (auto simp: frame_decode_def HEADER_LEN_def)
  then have evs: "\<forall>(T, W, ev) \<in> set ?evs. send_ok (T 0) (bind_egress demo_handler) \<and> W 0 \<and> wt_udp_event ev" by simp
  have frames: "map (frame_decode be_buf) (from_datagrams ?evs) = map Ok [demo_peer_frame 1]"
    "\<forall>f \<in> set [demo_peer_frame 1]. \<forall>v6. sock_ip (frame_peer f) = V6 v6 \<longrightarrow> \<not> is_network_address v6"
    using demo_internet by (auto simp: demo_decode)
  obtain w' st' as res where run: "wt_run counter_rng be_buf ?evs ?st demo_world = (w', st', as, res)" by (metis prod_cases4)
  have "relay_reply be_buf env_up (Some (1, SockV6 1 80 0 0)) demo_datagram 7 = ([Send 7 ?frame], Ok True)"
    by (subst be.relay_reply_eq) (simp_all add: MAX_DATAGRAM_def demo_datagram_def)
  then have task: "translate_run be_buf 7 translator_new ?tevs =
      Some ([OpenSocket Fam6, SendTo Fam6 (SockV6 1 80 0 0) [1, 2, 3], Relay (Send 7 ?frame)],
        Ok (Some (set_buf Fam6 demo_datagram (set_open Fam6 translator_new))))"
    by simp
  have tevs: "opens_all (map snd ?tevs)"
    "\<forall>(E, ev) \<in> set ?tevs. send_ok E 7 \<and> udp_event_ok ev \<and> (\<forall>b. ev \<noteq> Outgoing None b)"
    by (simp_all add: MAX_DATAGRAM_def demo_datagram_def)
  have "egress_on (bind_egress demo_handler) (effects as) = [(SockV6 1 80 0 0, [1, 2, 3])]"
    using wt_internet [OF be.buf_axioms lease evs frames, of counter_rng demo_world] run demo_internet(2)
    by (auto simp: demo_peer_frame_def frame_new_def simp del: wt_run.simps)
  then have "outgoing (map snd ?tevs) = egress_on (bind_egress demo_handler) (effects as)" by simp
  from internet_over_webtransport [OF be.buf_axioms lease evs frames run task tevs this, of 1] run
  obtain frs where x: "res = Ok ()" "w' = demo_world" "st' = ?st" "outs as = map SendDatagram frs"
    "list_all2 (\<lambda>frame (peer, d). \<exists>f. frame_decode be_buf frame = Ok f \<and> frame_peer f = canonical peer \<and> frame_data f = d)
        frs [(SockV6 1 80 0 0, [5])]"
    by (auto simp: demo_datagram_def simp del: wt_run.simps)
  then obtain fr f where "frs = [fr]" "frame_decode be_buf fr = Ok f" "frame_data f = [5]" by (auto simp: list_all2_Cons2)
  moreover have "fr = ?frame"
    using run x(4) \<open>frs = [fr]\<close> wt_internet [OF be.buf_axioms lease evs frames, of counter_rng demo_world]
    by (auto simp del: wt_run.simps)
  ultimately show ?thesis using run x task
    by (intro exI [of _ demo_world] exI [of _ ?st] exI [of _ as] exI conjI) (auto simp del: wt_run.simps translate_run.simps)
qed

end
