(* ===== verification/Settings.thy ===== *)
theory Settings
  imports Std_Net
begin

text \<open>
  \<open>src/settings.rs\<close>: the configuration, which is set once for the process, and the certificates
  of an endpoint, read from files or made once for the process. The crates that parse the
  configuration and PEM files, open files and make certificates are a record of functions;
  the two \<open>OnceLock\<close> statics are fields of the \<open>process\<close>.
\<close>

section \<open>Configuration\<close>

record serve_config =
  protocol :: string
  bind_address :: socket_addr
  tls_cert_path :: "string option"
  tls_key_path :: "string option"
  tls_self :: "bool option"

record http_proxy_config =
  allowed_hosts :: "string list"

record settings =
  serve :: "serve_config list"
  http_proxy :: http_proxy_config

record ('cert, 'key) tls_cert =
  tls_chain :: "'cert list"
  tls_key :: 'key

text \<open>
  \<open>config_build\<close>, \<open>try_deserialize\<close>: the crate \<open>config\<close>; \<open>open_file\<close>: the file system;
  \<open>pem_certs\<close>, \<open>pem_private_key\<close>: \<open>rustls_pemfile\<close>; \<open>self_signed\<close>: \<open>rcgen\<close>, which draws
  from a source of randomness; \<open>single_cert\<close>: whether \<open>rustls\<close> takes a chain and key.
\<close>

record ('v, 'f, 'cert, 'key, 'g) crates =
  config_build :: "string \<Rightarrow> 'v result"
  try_deserialize :: "'v \<Rightarrow> settings result"
  open_file :: "string \<Rightarrow> 'f result"
  pem_certs :: "'f \<Rightarrow> 'cert result list"
  pem_private_key :: "'f \<Rightarrow> 'key option result"
  self_signed :: "string list \<Rightarrow> 'g \<Rightarrow> ('cert \<times> 'key) result \<times> 'g"
  single_cert :: "'cert list \<Rightarrow> 'key \<Rightarrow> unit result"

record ('cert, 'key, 'g) process =
  SETTINGS :: "settings option"
  SELFCERT :: "('cert, 'key) tls_cert option"
  entropy :: 'g

definition process_new :: "'g \<Rightarrow> ('cert, 'key, 'g) process" where
  "process_new g = \<lparr>SETTINGS = None, SELFCERT = None, entropy = g\<rparr>"

section \<open>Loading\<close>

text \<open>\<open>OnceLock::get_or_init\<close> with a value that is already there.\<close>

definition settings_load ::
  "('v, 'f, 'cert, 'key, 'g) crates \<Rightarrow> string \<Rightarrow> ('cert, 'key, 'g) process \<Rightarrow> ('cert, 'key, 'g) process \<times> unit result" where
  "settings_load A path P =
     (case and_then (config_build A path) (try_deserialize A) of
        Inl e \<Rightarrow> (P, Err e)
      | Inr st \<Rightarrow>
          (P\<lparr>SETTINGS := (case SETTINGS P of Some old \<Rightarrow> Some old | None \<Rightarrow> Some st)\<rparr>, Ok ()))"

definition settings_get :: "('cert, 'key, 'g) process \<Rightarrow> settings result" where
  "settings_get P = ok_or (Panic ''Settings uninitialized'') (SETTINGS P)"

section \<open>Certificates\<close>

definition make_self_cert ::
  "('v, 'f, 'cert, 'key, 'g) crates \<Rightarrow> 'g \<Rightarrow> ('cert, 'key) tls_cert result \<times> 'g" where
  "make_self_cert A g =
     (case self_signed A [''localhost''] g of
        (Inl e, g) \<Rightarrow> (Err e, g)
      | (Inr (cert, k), g) \<Rightarrow> (Ok \<lparr>tls_chain = [cert], tls_key = k\<rparr>, g))"

text \<open>\<open>collect\<close> into a \<open>Result\<close>: the first error, or all the values.\<close>

fun collect :: "'a result list \<Rightarrow> 'a list result" where
  "collect [] = Ok []"
| "collect (Inl e # rs) = Err e"
| "collect (Inr a # rs) = and_then (collect rs) (\<lambda>as. Ok (a # as))"

text \<open>\<open>Clone\<close>, written out because a private key has to be cloned by hand.\<close>

definition tls_cert_clone :: "('cert, 'key) tls_cert \<Rightarrow> ('cert, 'key) tls_cert" where
  "tls_cert_clone t = \<lparr>tls_chain = tls_chain t, tls_key = tls_key t\<rparr>"

lemma tls_cert_clone_id [simp]: "tls_cert_clone t = t"
  by (simp add: tls_cert_clone_def)

definition self_cert ::
  "('v, 'f, 'cert, 'key, 'g) crates \<Rightarrow> ('cert, 'key, 'g) process \<Rightarrow>
     ('cert, 'key, 'g) process \<times> ('cert, 'key) tls_cert result" where
  "self_cert A P =
     (case SELFCERT P of
        Some t \<Rightarrow> (P, Ok (tls_cert_clone t))
      | None \<Rightarrow>
          (case make_self_cert A (entropy P) of
             (Inl e, g) \<Rightarrow> (P\<lparr>entropy := g\<rparr>, Err (Panic ''called `Result::unwrap()` on an `Err` value''))
           | (Inr t, g) \<Rightarrow> (P\<lparr>entropy := g, SELFCERT := Some t\<rparr>, Ok (tls_cert_clone t))))"

definition file_certs ::
  "('v, 'f, 'cert, 'key, 'g) crates \<Rightarrow> serve_config \<Rightarrow> ('cert, 'key) tls_cert result" where
  "file_certs A c =
     and_then (ok_or (Bail ''tls_cert missing'') (tls_cert_path c)) (\<lambda>cert_path.
     and_then (ok_or (Bail ''tls_key missing'') (tls_key_path c)) (\<lambda>key_path.
     and_then (map_err (Context (''failed to open '' @ cert_path)) (open_file A cert_path)) (\<lambda>f.
     and_then (map_err (Context (''failed to load certs from '' @ cert_path)) (collect (pem_certs A f))) (\<lambda>certs.
     if certs = [] then Err (Bail (''certificate chain is empty in '' @ cert_path))
     else
       and_then (map_err (Context (''failed to open '' @ key_path)) (open_file A key_path)) (\<lambda>f.
       and_then (map_err (Context ''failed to read private key'') (pem_private_key A f)) (\<lambda>found.
       and_then (ok_or (Bail ''empty private key'') found) (\<lambda>k.
       Ok \<lparr>tls_chain = certs, tls_key = k\<rparr>)))))))"

definition read_certs ::
  "('v, 'f, 'cert, 'key, 'g) crates \<Rightarrow> serve_config \<Rightarrow> ('cert, 'key, 'g) process \<Rightarrow>
     ('cert, 'key, 'g) process \<times> ('cert, 'key) tls_cert result" where
  "read_certs A c P = (if tls_self c = Some True then self_cert A P else (P, file_certs A c))"

section \<open>What they give\<close>

lemma collect_Ok: "collect rs = Ok as \<longleftrightarrow> rs = map Ok as"
proof (induction rs arbitrary: as rule: collect.induct)
  case (3 a rs)
  then show ?case by (cases as) (auto simp: and_then_Ok)
qed auto

lemma settings_load_Ok:
  "settings_load A path P = (P', Ok ()) \<longleftrightarrow>
     (\<exists>v st. config_build A path = Ok v \<and> try_deserialize A v = Ok st \<and>
        P' = P\<lparr>SETTINGS := Some (case SETTINGS P of Some old \<Rightarrow> old | None \<Rightarrow> st)\<rparr>)"
  by (auto simp: settings_load_def and_then_def split: sum.splits option.split)

lemma settings_load_keeps:
  "settings_load A path P = (P', r) \<Longrightarrow> SETTINGS P = Some st \<Longrightarrow> P' = P"
  by (auto simp: settings_load_def split: sum.splits)

lemma file_certs_Ok:
  "file_certs A c = Ok t \<longleftrightarrow>
     (\<exists>p q f g. tls_cert_path c = Some p \<and> tls_key_path c = Some q \<and> open_file A p = Ok f \<and> open_file A q = Ok g \<and>
        pem_certs A f = map Ok (tls_chain t) \<and> tls_chain t \<noteq> [] \<and> pem_private_key A g = Ok (Some (tls_key t)))"
  by (cases t) (auto simp: file_certs_def and_then_Ok ok_or_Ok map_err_Ok collect_Ok split: if_splits)

lemma file_certs_unwinds: "file_certs A c = Err e \<Longrightarrow> \<not> unwinds e"
  by (auto simp: file_certs_def and_then_def ok_or_def map_err_def split: result_splits)

text \<open>What happens to the process: only a self-signed certificate is ever added.\<close>

lemma self_cert_process:
  assumes "self_cert A P = (P', r)"
  shows "SETTINGS P' = SETTINGS P"
    and "SELFCERT P = Some t \<Longrightarrow> P' = P \<and> r = Ok t"
    and "r = Ok t \<Longrightarrow> SELFCERT P' = Some t"
  using assms by (auto simp: self_cert_def split: option.splits prod.splits sum.splits)

lemma read_certs_process:
  assumes "read_certs A c P = (P', r)"
  shows "SETTINGS P' = SETTINGS P"
    and "SELFCERT P = Some t \<Longrightarrow> P' = P"
    and "tls_self c = Some True \<Longrightarrow> r = Ok t \<Longrightarrow> SELFCERT P' = Some t"
proof -
  consider (own) "tls_self c = Some True" "self_cert A P = (P', r)" | (files) "tls_self c \<noteq> Some True" "P' = P"
    using assms by (cases "tls_self c = Some True") (simp_all add: read_certs_def)
  note cases = this
  show "SETTINGS P' = SETTINGS P" by (cases rule: cases) (simp_all add: self_cert_process(1))
  show "SELFCERT P = Some t \<Longrightarrow> P' = P" by (cases rule: cases) (simp_all add: self_cert_process(2))
  show "tls_self c = Some True \<Longrightarrow> r = Ok t \<Longrightarrow> SELFCERT P' = Some t"
    by (cases rule: cases) (simp_all add: self_cert_process(3))
qed

end
