(* ===== verification/Listener.thy ===== *)
theory Listener
  imports Settings
begin

text \<open>
  \<open>src/websocket/listener.rs\<close>, \<open>src/websocket/runner.rs\<close>, \<open>src/webtransport/listener.rs\<close> and
  \<open>src/webtransport/runner.rs\<close>: the endpoints of the proxy. A listener that is started opens
  its socket and spawns an accept loop, whose handle it gives away; the loop starts a session
  for every connection it accepts.
\<close>

section \<open>Listeners\<close>

text \<open>
  The handle of a runner: what its \<open>watch\<close> channel holds, and whether the \<open>JoinHandle\<close> is
  still there.
\<close>

record runner_handle =
  run_stop :: bool
  run_join :: bool

record ('cert, 'key) ws_listener =
  wsl_addr :: socket_addr
  wsl_tls :: "('cert, 'key) tls_cert option"
  wsl_runner :: "runner_handle option"

record ('cert, 'key) wt_listener =
  wtl_addr :: socket_addr
  wtl_cert :: "('cert, 'key) tls_cert"
  wtl_runner :: "runner_handle option"

text \<open>An endpoint that has its socket open and an accept loop running.\<close>

datatype ('cert, 'key) endpoint =
    WebSocket socket_addr "('cert, 'key) tls_cert option"
  | WebTransport socket_addr "('cert, 'key) tls_cert"

definition ws_listener_new :: "socket_addr \<Rightarrow> ('cert, 'key) ws_listener result" where
  "ws_listener_new addr = Ok \<lparr>wsl_addr = addr, wsl_tls = None, wsl_runner = None\<rparr>"

definition ws_listener_new_secure ::
  "('v, 'f, 'cert, 'key, 'g) crates \<Rightarrow> socket_addr \<Rightarrow> ('cert, 'key) tls_cert \<Rightarrow> ('cert, 'key) ws_listener result" where
  "ws_listener_new_secure A addr t =
     and_then (single_cert A (tls_chain t) (tls_key t))
       (\<lambda>_. Ok \<lparr>wsl_addr = addr, wsl_tls = Some t, wsl_runner = None\<rparr>)"

definition wt_listener_new :: "socket_addr \<Rightarrow> ('cert, 'key) tls_cert \<Rightarrow> ('cert, 'key) wt_listener result" where
  "wt_listener_new addr t = Ok \<lparr>wtl_addr = addr, wtl_cert = t, wtl_runner = None\<rparr>"

text \<open>
  The runners: a socket that is open, and for a WebSocket endpoint what to accept TLS with. Running one spawns its accept
  loop, the endpoint, and gives back the handle, in which \<open>stop\<close> holds \<open>false\<close> and the \<open>JoinHandle\<close> is there.
\<close>

record ('cert, 'key) ws_runner =
  wsr_listener :: socket_addr
  wsr_tls :: "('cert, 'key) tls_cert option"

record ('cert, 'key) wt_runner =
  wtr_server :: "socket_addr \<times> ('cert, 'key) tls_cert"

definition ws_runner_new :: "socket_addr \<Rightarrow> ('cert, 'key) tls_cert option \<Rightarrow> ('cert, 'key) ws_runner" where
  "ws_runner_new listener tls = \<lparr>wsr_listener = listener, wsr_tls = tls\<rparr>"

definition wt_runner_new :: "socket_addr \<times> ('cert, 'key) tls_cert \<Rightarrow> ('cert, 'key) wt_runner" where
  "wt_runner_new server = \<lparr>wtr_server = server\<rparr>"

definition ws_runner_run :: "('cert, 'key) ws_runner \<Rightarrow> runner_handle \<times> ('cert, 'key) endpoint" where
  "ws_runner_run r = (\<lparr>run_stop = False, run_join = True\<rparr>, WebSocket (wsr_listener r) (wsr_tls r))"

definition wt_runner_run :: "('cert, 'key) wt_runner \<Rightarrow> runner_handle \<times> ('cert, 'key) endpoint" where
  "wt_runner_run r = (\<lparr>run_stop = False, run_join = True\<rparr>, WebTransport (fst (wtr_server r)) (snd (wtr_server r)))"

text \<open>\<open>join.take().unwrap()\<close>, and the handle that \<open>start\<close> leaves in the listener.\<close>

definition take_join :: "runner_handle \<Rightarrow> runner_handle \<times> unit result" where
  "take_join h = (h\<lparr>run_join := False\<rparr>,
     if run_join h then Ok () else Err (Panic ''called `Option::unwrap()` on a `None` value''))"

definition started :: runner_handle where
  "started = \<lparr>run_stop = False, run_join = False\<rparr>"

lemma take_join_started [simp]: "take_join \<lparr>run_stop = False, run_join = True\<rparr> = (started, Ok ())"
  by (simp add: take_join_def started_def)

text \<open>\<open>start\<close>: \<open>opened\<close> is what opening the socket returns. The result is the endpoint of the accept loop.\<close>

definition ws_listener_start ::
  "unit result \<Rightarrow> ('cert, 'key) ws_listener \<Rightarrow> ('cert, 'key) ws_listener \<times> ('cert, 'key) endpoint result" where
  "ws_listener_start opened l =
     (if wsl_runner l \<noteq> None then (l, Err (Panic ''assertion failed: self.runner.is_none()''))
      else case opened of
        Inl e \<Rightarrow> (l, Err e)
      | Inr _ \<Rightarrow>
          (case ws_runner_run (ws_runner_new (wsl_addr l) (wsl_tls l)) of (handle, x) \<Rightarrow>
           case take_join handle of (handle, joined) \<Rightarrow>
             (l\<lparr>wsl_runner := Some handle\<rparr>, and_then joined (\<lambda>_. Ok x))))"

definition wt_listener_start ::
  "unit result \<Rightarrow> ('cert, 'key) wt_listener \<Rightarrow> ('cert, 'key) wt_listener \<times> ('cert, 'key) endpoint result" where
  "wt_listener_start opened l =
     (if wtl_runner l \<noteq> None then (l, Err (Panic ''assertion failed: self.runner.is_none()''))
      else case opened of
        Inl e \<Rightarrow> (l, Err e)
      | Inr _ \<Rightarrow>
          (case wt_runner_run (wt_runner_new (wtl_addr l, wtl_cert l)) of (handle, x) \<Rightarrow>
           case take_join handle of (handle, joined) \<Rightarrow>
             (l\<lparr>wtl_runner := Some handle\<rparr>, and_then joined (\<lambda>_. Ok x))))"

lemma ws_listener_start_eq:
  "ws_listener_start opened l =
     (if wsl_runner l \<noteq> None then (l, Err (Panic ''assertion failed: self.runner.is_none()''))
      else case opened of
        Inl e \<Rightarrow> (l, Err e)
      | Inr _ \<Rightarrow> (l\<lparr>wsl_runner := Some started\<rparr>, Ok (WebSocket (wsl_addr l) (wsl_tls l))))"
  by (simp add: ws_listener_start_def ws_runner_run_def ws_runner_new_def split: sum.split)

lemma wt_listener_start_eq:
  "wt_listener_start opened l =
     (if wtl_runner l \<noteq> None then (l, Err (Panic ''assertion failed: self.runner.is_none()''))
      else case opened of
        Inl e \<Rightarrow> (l, Err e)
      | Inr _ \<Rightarrow> (l\<lparr>wtl_runner := Some started\<rparr>, Ok (WebTransport (wtl_addr l) (wtl_cert l))))"
  by (simp add: wt_listener_start_def wt_runner_run_def wt_runner_new_def split: sum.split)

text \<open>\<open>stop\<close>: sending on a \<open>watch\<close> channel fails once its receiver, which the loop owns, is gone.\<close>

definition ws_listener_stop ::
  "bool \<Rightarrow> ('cert, 'key) ws_listener \<Rightarrow> ('cert, 'key) ws_listener \<times> unit result" where
  "ws_listener_stop looping l =
     (case wsl_runner l of
        None \<Rightarrow> (l, Ok ())
      | Some r \<Rightarrow>
          if looping then (l\<lparr>wsl_runner := Some (r\<lparr>run_stop := True\<rparr>)\<rparr>, Ok ()) else (l, Err External))"

section \<open>One contract for both\<close>

text \<open>
  A listener opens its socket at most once: only one that is not running starts, an error leaves
  it as it was, and one that is running panics. From this alone, any number of attempts to start
  one yield at most one accept loop.
\<close>

locale listener =
  fixes start :: "unit result \<Rightarrow> 'l \<Rightarrow> 'l \<times> 'e result"
    and running :: "'l \<Rightarrow> bool"
  assumes start_running: "running l \<Longrightarrow> \<exists>m. start r l = (l, Err (Panic m))"
    and start_error: "\<not> running l \<Longrightarrow> start (Err e) l = (l, Err e)"
    and start_opened: "\<not> running l \<Longrightarrow> \<exists>l' x. start (Ok ()) l = (l', Ok x) \<and> running l'"
begin

primrec attempts :: "unit result list \<Rightarrow> 'l \<Rightarrow> 'l \<times> 'e result list" where
  "attempts [] l = (l, [])"
| "attempts (r # rs) l =
     (case start r l of (l, x) \<Rightarrow> (case attempts rs l of (l, xs) \<Rightarrow> (l, x # xs)))"

lemma attempts_running: "running l \<Longrightarrow> fst (attempts rs l) = l \<and> filter is_ok (snd (attempts rs l)) = []"
proof (induction rs)
  case (Cons r rs)
  then show ?case using start_running [of l r] by (auto split: prod.split)
qed simp

lemma attempts_once: "length (filter is_ok (snd (attempts rs l))) \<le> 1"
proof (induction rs)
  case (Cons r rs)
  show ?case
  proof (cases "running l")
    case True
    show ?thesis using attempts_running [OF True, of "r # rs"] by (simp del: attempts.simps)
  next
    case False
    show ?thesis
    proof (cases r)
      case (Inl e)
      with False Cons show ?thesis by (auto simp: start_error split: prod.split)
    next
      case (Inr u)
      with start_opened [OF False] obtain l' x where "start r l = (l', Ok x)" "running l'" by auto
      with attempts_running [of l' rs] show ?thesis by (auto split: prod.split)
    qed
  qed
qed simp

end

interpretation ws_endpoint: listener ws_listener_start "\<lambda>l. wsl_runner l \<noteq> None"
  by unfold_locales (auto simp: ws_listener_start_eq)

interpretation wt_endpoint: listener wt_listener_start "\<lambda>l. wtl_runner l \<noteq> None"
  by unfold_locales (auto simp: wt_listener_start_eq)

section \<open>The accept loops\<close>

text \<open>
  What an accept loop makes of a connection: the runner of a WebSocket session, with the acceptor of its endpoint and the stream of the
  connection. (The runner of a WebTransport session, \<open>wt_session\<close>, has neither.)
\<close>

record ('cert, 'key) ws_client =
  client_tls :: "('cert, 'key) tls_cert option"
  client_tcp :: bool

definition ws_client_new :: "('cert, 'key) tls_cert option \<Rightarrow> ('cert, 'key) ws_client" where
  "ws_client_new tls = \<lparr>client_tls = tls, client_tcp = True\<rparr>"

text \<open>
  One round of a loop, given whether \<open>accept\<close> has returned a connection: the runner of the session it starts, which runs as a task
  of its own, so that the loop goes on at once; or the end of the loop, at the first \<open>accept\<close> that has returned none. The loops do not
  look at the stop signal they are given.
\<close>

fun accept_turn :: "('cert, 'key) endpoint \<Rightarrow> bool \<Rightarrow> ('cert, 'key) ws_client option option" where
  "accept_turn (WebSocket a tls) accepted = (if accepted then Some (Some (ws_client_new tls)) else None)"
| "accept_turn (WebTransport a cert) accepted = (if accepted then Some None else None)"

end
