(* ===== verification/Startup.thy ===== *)
theory Startup
  imports Listener Connect_Proxy
begin

text \<open>
  \<open>src/main.rs\<close>: the start of the program. The configuration is loaded, then one endpoint is
  opened for each \<open>serve\<close> directive, in order; the program ends when all the accept loops
  have. An error or a panic on the way ends the process.
\<close>

section \<open>One directive\<close>

text \<open>\<open>opened\<close> is what opening the socket of the directive returns.\<close>

definition serve_ws ::
  "unit result \<Rightarrow> serve_config \<Rightarrow> ('cert, 'key) endpoint result" where
  "serve_ws opened c =
     and_then (ws_listener_new (bind_address c)) (\<lambda>l. snd (ws_listener_start opened l))"

definition serve_wss ::
  "('v, 'f, 'cert, 'key, 'g) crates \<Rightarrow> unit result \<Rightarrow> serve_config \<Rightarrow> ('cert, 'key, 'g) process \<Rightarrow>
     ('cert, 'key, 'g) process \<times> ('cert, 'key) endpoint result" where
  "serve_wss A opened c P =
     (case read_certs A c P of (P, certs) \<Rightarrow>
        (P, and_then certs (\<lambda>t.
            and_then (ws_listener_new_secure A (bind_address c) t) (\<lambda>l. snd (ws_listener_start opened l)))))"

definition serve_wt ::
  "('v, 'f, 'cert, 'key, 'g) crates \<Rightarrow> unit result \<Rightarrow> serve_config \<Rightarrow> ('cert, 'key, 'g) process \<Rightarrow>
     ('cert, 'key, 'g) process \<times> ('cert, 'key) endpoint result" where
  "serve_wt A opened c P =
     (case read_certs A c P of (P, certs) \<Rightarrow>
        (P, and_then certs (\<lambda>t.
            and_then (wt_listener_new (bind_address c) t) (\<lambda>l. snd (wt_listener_start opened l)))))"

definition serve_one ::
  "('v, 'f, 'cert, 'key, 'g) crates \<Rightarrow> unit result \<Rightarrow> serve_config \<Rightarrow> ('cert, 'key, 'g) process \<Rightarrow>
     ('cert, 'key, 'g) process \<times> ('cert, 'key) endpoint result" where
  "serve_one A opened c P =
     (if protocol c = ''ws'' then (P, serve_ws opened c)
      else if protocol c = ''wss'' then serve_wss A opened c P
      else if protocol c = ''wt'' then serve_wt A opened c P
      else (P, Err (Panic (''Unsupported protocol '' @ [CHR 0x27] @ protocol c @ [CHR 0x27] @ '' in serve directive''))))"

section \<open>The program\<close>

text \<open>The loop over the directives, each with what opening its socket returns: the endpoints running, and how it ends.\<close>

fun serve_all ::
  "('v, 'f, 'cert, 'key, 'g) crates \<Rightarrow> (unit result \<times> serve_config) list \<Rightarrow> ('cert, 'key, 'g) process \<Rightarrow>
     ('cert, 'key, 'g) process \<times> ('cert, 'key) endpoint list \<times> unit result" where
  "serve_all A [] P = (P, [], Ok ())"
| "serve_all A ((opened, c) # cs) P =
     (case serve_one A opened c P of
        (P, Inl e) \<Rightarrow> (P, [], Err e)
      | (P, Inr x) \<Rightarrow> (case serve_all A cs P of (P, xs, r) \<Rightarrow> (P, x # xs, r)))"

text \<open>
  Up to the joins. \<open>installed\<close> says whether the crypto provider is installed, \<open>opens i\<close> what
  opening the \<open>i\<close>th socket returns.
\<close>

definition main_start ::
  "('v, 'f, 'cert, 'key, 'g) crates \<Rightarrow> bool \<Rightarrow> (nat \<Rightarrow> unit result) \<Rightarrow> string \<Rightarrow> ('cert, 'key, 'g) process \<Rightarrow>
     ('cert, 'key, 'g) process \<times> ('cert, 'key) endpoint list \<times> unit result" where
  "main_start A installed opens path P =
     (case settings_load A path P of
        (P, Inl e) \<Rightarrow> (P, [], Err e)
      | (P, Inr _) \<Rightarrow>
          if \<not> installed then (P, [], Err (Panic ''Failed to initialize rustls crypto provider''))
          else case settings_get P of
            Inl e \<Rightarrow> (P, [], Err e)
          | Inr st \<Rightarrow>
              if serve st = [] then (P, [], Err (Bail ''No service endpoints configured. Is config file missing?''))
              else serve_all A (zip (map opens [0 ..< length (serve st)]) (serve st)) P)"

text \<open>How a task stands when its handle is awaited; a task that panicked makes \<open>await?\<close> return an error.\<close>

datatype task = Running | Finished | Panicked

text \<open>
  The joins at the end of \<open>main\<close>, the task of the service first. \<open>Ok False\<close>: still waiting.
\<close>

fun main_join :: "task list \<Rightarrow> bool result" where
  "main_join [] = Ok True"
| "main_join (Running # ts) = Ok False"
| "main_join (Finished # ts) = main_join ts"
| "main_join (Panicked # ts) = Err External"

text \<open>\<open>ProxyServiceHandle::run\<close> has nothing to do and is finished at once.\<close>

definition service_task :: task where "service_task = Finished"

text \<open>The hosts a CONNECT proxy lets through, which it reads when it starts.\<close>

definition connect_allowed :: "('cert, 'key, 'g) process \<Rightarrow> string list result" where
  "connect_allowed P = and_then (settings_get P) (\<lambda>st. Ok (allowed_hosts (http_proxy st)))"

section \<open>What each directive comes to\<close>

text \<open>
  The endpoint a directive asks for, in a process that has the self-signed certificate it may
  need: plain only for \<open>ws\<close>, with the process's own certificate or the one in the files for
  the other two.
\<close>

definition directive_cert ::
  "('v, 'f, 'cert, 'key, 'g) crates \<Rightarrow> ('cert, 'key, 'g) process \<Rightarrow> serve_config \<Rightarrow> ('cert, 'key) tls_cert option" where
  "directive_cert A P c =
     (if tls_self c = Some True then SELFCERT P
      else case file_certs A c of Inl _ \<Rightarrow> None | Inr t \<Rightarrow> Some t)"

definition expected_endpoint ::
  "('v, 'f, 'cert, 'key, 'g) crates \<Rightarrow> ('cert, 'key, 'g) process \<Rightarrow> serve_config \<Rightarrow> ('cert, 'key) endpoint option" where
  "expected_endpoint A P c =
     (if protocol c = ''ws'' then Some (WebSocket (bind_address c) None)
      else if protocol c = ''wss'' then map_option (\<lambda>t. WebSocket (bind_address c) (Some t)) (directive_cert A P c)
      else if protocol c = ''wt'' then map_option (WebTransport (bind_address c)) (directive_cert A P c)
      else None)"

text \<open>Later steps add a certificate at most, which leaves the endpoints of earlier directives as they are.\<close>

definition same_cert :: "('cert, 'key, 'g) process \<Rightarrow> ('cert, 'key, 'g) process \<Rightarrow> bool" where
  "same_cert P P' = (SETTINGS P' = SETTINGS P \<and> (\<forall>t. SELFCERT P = Some t \<longrightarrow> SELFCERT P' = Some t))"

lemma same_cert_refl [simp, intro]: "same_cert P P"
  by (simp add: same_cert_def)

lemma same_cert_trans [trans]: "same_cert P Q \<Longrightarrow> same_cert Q R \<Longrightarrow> same_cert P R"
  by (simp add: same_cert_def)

lemma expected_endpoint_mono:
  "same_cert P P' \<Longrightarrow> expected_endpoint A P c = Some x \<Longrightarrow> expected_endpoint A P' c = Some x"
  by (auto simp: expected_endpoint_def directive_cert_def same_cert_def split: if_splits sum.splits)

lemma read_certs_same: "read_certs A c P = (P', r) \<Longrightarrow> same_cert P P'"
  using read_certs_process [of A c P P' r] by (auto simp: same_cert_def)

lemma read_certs_Ok: "read_certs A c P = (P', Ok t) \<Longrightarrow> directive_cert A P' c = Some t"
  using read_certs_process(3) [of A c P P' "Ok t" t]
  by (cases "tls_self c = Some True") (simp_all add: directive_cert_def read_certs_def)

lemma listener_starts:
  "ws_listener_start opened \<lparr>wsl_addr = a, wsl_tls = t, wsl_runner = None\<rparr> =
     (\<lparr>wsl_addr = a, wsl_tls = t, wsl_runner = (if is_ok opened then Some started else None)\<rparr>,
      and_then opened (\<lambda>_. Ok (WebSocket a t)))"
  "wt_listener_start opened \<lparr>wtl_addr = a, wtl_cert = u, wtl_runner = None\<rparr> =
     (\<lparr>wtl_addr = a, wtl_cert = u, wtl_runner = (if is_ok opened then Some started else None)\<rparr>,
      and_then opened (\<lambda>_. Ok (WebTransport a u)))"
  by (cases opened; simp add: ws_listener_start_eq wt_listener_start_eq)+

lemma serve_one_same: "serve_one A opened c P = (P', r) \<Longrightarrow> same_cert P P'"
  by (auto simp: serve_one_def serve_wss_def serve_wt_def split: if_splits prod.splits dest: read_certs_same)

lemma serve_one_Ok:
  assumes "serve_one A opened c P = (P', Ok x)"
  shows "expected_endpoint A P' c = Some x \<and> opened = Ok ()"
proof -
  obtain Q certs where rc: "read_certs A c P = (Q, certs)" by fastforce
  consider (ws) "protocol c = ''ws''" | (wss) "protocol c = ''wss''" | (wt) "protocol c = ''wt''"
    using assms by (auto simp: serve_one_def split: if_splits)
  then show ?thesis
  proof cases
    case ws
    with assms show ?thesis
      by (simp add: serve_one_def serve_ws_def ws_listener_new_def listener_starts expected_endpoint_def and_then_Ok)
  next
    case wss
    with assms rc obtain t where t: "certs = Ok t" "Q = P'" "x = WebSocket (bind_address c) (Some t)" "opened = Ok ()"
      by (auto simp: serve_one_def serve_wss_def ws_listener_new_secure_def and_then_Ok listener_starts)
    with rc wss read_certs_Ok [of A c P P' t] show ?thesis by (simp add: expected_endpoint_def)
  next
    case wt
    with assms rc obtain t where t: "certs = Ok t" "Q = P'" "x = WebTransport (bind_address c) t" "opened = Ok ()"
      by (auto simp: serve_one_def serve_wt_def wt_listener_new_def and_then_Ok listener_starts)
    with rc wt read_certs_Ok [of A c P P' t] show ?thesis by (simp add: expected_endpoint_def)
  qed
qed

lemma serve_all_same: "serve_all A cs P = (P', xs, r) \<Longrightarrow> same_cert P P'"
proof (induction A cs P arbitrary: xs rule: serve_all.induct)
  case (2 A opened c cs P)
  then show ?case by (auto split: prod.splits sum.splits dest!: serve_one_same intro: same_cert_trans)
qed simp

text \<open>The endpoints that are running are those of the directives up to the first that fails.\<close>

lemma serve_all_expected:
  "serve_all A cs P = (P', xs, r) \<Longrightarrow>
     length xs \<le> length cs \<and> map Some xs = map (\<lambda>c. expected_endpoint A P' (snd c)) (take (length xs) cs) \<and>
     (case r of
        Inr _ \<Rightarrow> length xs = length cs
      | Inl e \<Rightarrow> length xs < length cs \<and>
          (\<exists>Q. serve_one A (fst (cs ! length xs)) (snd (cs ! length xs)) Q = (P', Err e)))"
proof (induction A cs P arbitrary: xs rule: serve_all.induct)
  case (2 A opened c cs P)
  obtain Q y where one: "serve_one A opened c P = (Q, y)" by fastforce
  show ?case
  proof (cases y)
    case (Inl e)
    with 2 one show ?thesis by auto
  next
    case (Inr x)
    obtain P2 ys r2 where rest: "serve_all A cs Q = (P2, ys, r2)" by (cases "serve_all A cs Q") auto
    with 2 one Inr have eq: "P2 = P'" "xs = x # ys" "r2 = r" by auto
    with 2(1) [OF one [symmetric] Inr, of ys] rest
    have "expected_endpoint A P' c = Some x"
      using serve_one_Ok [of A opened c P Q x] one Inr expected_endpoint_mono serve_all_same [OF rest] by auto
    with 2(1) [OF one [symmetric] Inr, of ys] rest eq show ?thesis by (cases r) simp_all
  qed
qed auto

text \<open>Where a panic can come from.\<close>

lemma serve_one_unwinds:
  assumes "serve_one A opened c P = (P', Err e)" and "\<And>e. opened = Err e \<Longrightarrow> \<not> unwinds e"
    and "\<And>ch k e. single_cert A ch k = Err e \<Longrightarrow> \<not> unwinds e" and "unwinds e" and "protocol c \<in> {''ws'', ''wss'', ''wt''}"
  shows "tls_self c = Some True \<and> SELFCERT P' = None"
proof -
  obtain Q certs where rc: "read_certs A c P = (Q, certs)" by fastforce
  have opened: "opened \<noteq> Err e" and secure: "single_cert A ch k \<noteq> Err e" for ch k
    using assms(2,3,4) by blast+
  have "certs = Err e \<and> Q = P'"
    using assms(1,5) rc opened secure
    by (auto simp: serve_one_def serve_ws_def serve_wss_def serve_wt_def ws_listener_new_def ws_listener_new_secure_def
        wt_listener_new_def and_then_def listener_starts split: if_splits sum.splits)
  with rc have "read_certs A c P = (P', Err e)" by simp
  then show ?thesis
    using assms(4) by (auto simp: read_certs_def self_cert_def dest: file_certs_unwinds split: if_splits option.splits prod.splits sum.splits)
qed

lemma serve_all_opened: "serve_all A cs P = (P', xs, Ok u) \<Longrightarrow> i < length cs \<Longrightarrow> fst (cs ! i) = Ok ()"
proof (induction A cs P arbitrary: xs i rule: serve_all.induct)
  case (2 A opened c cs P)
  then show ?case by (cases i) (auto split: prod.splits sum.splits dest: serve_one_Ok)
qed simp

text \<open>\<open>main\<close> as a whole: a configuration that loads, then the directives.\<close>

lemma main_start_loaded:
  assumes "main_start A True opens path (process_new g) = (P, xs, r)"
    and "config_build A path = Ok v" and "try_deserialize A v = Ok st" and "serve st \<noteq> []"
  shows "serve_all A (zip (map opens [0 ..< length (serve st)]) (serve st)) (process_new g\<lparr>SETTINGS := Some st\<rparr>) = (P, xs, r)"
  using assms by (simp add: main_start_def settings_load_def settings_get_def process_new_def)

lemma main_start_Ok:
  assumes "main_start A installed opens path (process_new g) = (P, xs, Ok ())"
  obtains v st where "config_build A path = Ok v" "try_deserialize A v = Ok st" "serve st \<noteq> []" "installed"
    "serve_all A (zip (map opens [0 ..< length (serve st)]) (serve st)) (process_new g\<lparr>SETTINGS := Some st\<rparr>) = (P, xs, Ok ())"
  using assms
  by (auto simp: main_start_def settings_load_def settings_get_def process_new_def and_then_def split: sum.splits if_splits)

text \<open>A start that succeeds has opened every endpoint.\<close>

lemma endpoints_opened:
  assumes "main_start A installed opens path (process_new g) = (P, xs, Ok ())"
  shows "\<exists>v st. config_build A path = Ok v \<and> try_deserialize A v = Ok st \<and> settings_get P = Ok st \<and>
    xs \<noteq> [] \<and> map Some xs = map (expected_endpoint A P) (serve st) \<and> (\<forall>i < length xs. opens i = Ok ())"
proof -
  obtain v st where st: "config_build A path = Ok v" "try_deserialize A v = Ok st" "serve st \<noteq> []"
    and all: "serve_all A (zip (map opens [0 ..< length (serve st)]) (serve st)) (process_new g\<lparr>SETTINGS := Some st\<rparr>) = (P, xs, Ok ())"
    by (rule main_start_Ok [OF assms])
  let ?cs = "zip (map opens [0 ..< length (serve st)]) (serve st)"
  have len: "length xs = length (serve st)" and eq: "map Some xs = map (\<lambda>c. expected_endpoint A P (snd c)) ?cs"
    using serve_all_expected [OF all] by simp_all
  have "map (\<lambda>c. expected_endpoint A P (snd c)) ?cs = map (expected_endpoint A P) (map snd ?cs)"
    by (simp only: map_map comp_def)
  moreover have "map snd ?cs = serve st" by simp
  ultimately have "map Some xs = map (expected_endpoint A P) (serve st)" using eq by (simp only:)
  moreover have "settings_get P = Ok st"
    using serve_all_same [OF all] by (simp add: same_cert_def settings_get_def)
  moreover have "\<forall>i < length xs. opens i = Ok ()"
    using serve_all_opened [OF all] len by simp
  moreover from len st(3) have "xs \<noteq> []" by auto
  ultimately show ?thesis using st by blast
qed

lemma endpoints_expected:
  assumes "main_start A installed opens path (process_new g) = (P, xs, Ok ())"
    and "config_build A path = Ok v" and "try_deserialize A v = Ok st"
  shows "map Some xs = map (expected_endpoint A P) (serve st) \<and> settings_get P = Ok st"
  using endpoints_opened [OF assms(1)] assms(2,3) by auto

section \<open>A concrete start\<close>

text \<open>
  For witnesses: a configuration with three directives, a generator that counts, no files. In
  \<open>demo_bad\<close> the last directive has a protocol that is not supported.
\<close>

definition demo_settings :: settings where
  "demo_settings = \<lparr>serve =
     [\<lparr>protocol = ''ws'', bind_address = SockV4 0 7777, tls_cert_path = None, tls_key_path = None, tls_self = None\<rparr>,
      \<lparr>protocol = ''wss'', bind_address = SockV4 0 7778, tls_cert_path = None, tls_key_path = None, tls_self = Some True\<rparr>,
      \<lparr>protocol = ''wt'', bind_address = SockV4 0 7779, tls_cert_path = None, tls_key_path = None, tls_self = Some True\<rparr>],
     http_proxy = \<lparr>allowed_hosts = [''a.b'']\<rparr>\<rparr>"

definition demo_bad :: settings where
  "demo_bad = demo_settings\<lparr>serve := butlast (serve demo_settings) @
     [\<lparr>protocol = ''http'', bind_address = SockV4 0 80, tls_cert_path = None, tls_key_path = None, tls_self = None\<rparr>]\<rparr>"

definition demo_crates :: "settings \<Rightarrow> (unit, unit, nat, nat, nat) crates" where
  "demo_crates st = \<lparr>config_build = (\<lambda>_. Ok ()), try_deserialize = (\<lambda>_. Ok st),
     open_file = (\<lambda>_. Err External), pem_certs = (\<lambda>_. []), pem_private_key = (\<lambda>_. Err External),
     self_signed = (\<lambda>_ g. (Ok (g, g + 1), g + 2)), single_cert = (\<lambda>_ _. Ok ())\<rparr>"

lemmas demo_start_simps = main_start_def settings_load_def settings_get_def process_new_def demo_crates_def demo_settings_def
  demo_bad_def serve_one_def serve_ws_def serve_wss_def serve_wt_def read_certs_def self_cert_def make_self_cert_def
  ws_listener_new_def ws_listener_new_secure_def wt_listener_new_def ws_listener_start_eq wt_listener_start_eq

lemma demo_start:
  "main_start (demo_crates demo_settings) True (\<lambda>_. Ok ()) ''settings.toml'' (process_new 5) =
     (\<lparr>SETTINGS = Some demo_settings, SELFCERT = Some \<lparr>tls_chain = [5], tls_key = 6\<rparr>, entropy = 7\<rparr>,
      [WebSocket (SockV4 0 7777) None, WebSocket (SockV4 0 7778) (Some \<lparr>tls_chain = [5], tls_key = 6\<rparr>),
       WebTransport (SockV4 0 7779) \<lparr>tls_chain = [5], tls_key = 6\<rparr>], Ok ())"
  by (simp add: demo_start_simps upt_rec)

lemma demo_start_bad:
  "main_start (demo_crates demo_bad) True (\<lambda>_. Ok ()) ''settings.toml'' (process_new 5) =
     (\<lparr>SETTINGS = Some demo_bad, SELFCERT = Some \<lparr>tls_chain = [5], tls_key = 6\<rparr>, entropy = 7\<rparr>,
      [WebSocket (SockV4 0 7777) None, WebSocket (SockV4 0 7778) (Some \<lparr>tls_chain = [5], tls_key = 6\<rparr>)],
      Err (Panic (''Unsupported protocol '' @ [CHR 0x27] @ ''http'' @ [CHR 0x27] @ '' in serve directive'')))"
  by (simp add: demo_start_simps upt_rec)

section \<open>Properties\<close>

text \<open>C24. When the start of the program succeeds, it has one endpoint for each \<open>serve\<close> directive of the configuration
  file, in the same order, on the directive's address: a plain WebSocket only for \<open>ws\<close>, and for \<open>wss\<close> and
  \<open>wt\<close> one with the certificate chain and key in the directive's files or, for all directives that ask for it, the
  one self-signed certificate of the process.\<close>

theorem endpoints_as_configured:
  assumes "main_start A installed opens path (process_new g) = (P, xs, Ok ())"
  shows "\<exists>v st. config_build A path = Ok v \<and> try_deserialize A v = Ok st \<and> settings_get P = Ok st \<and>
    xs \<noteq> [] \<and> map Some xs = map (expected_endpoint A P) (serve st) \<and> (\<forall>i < length xs. opens i = Ok ())"
  by (rule endpoints_opened [OF assms])

theorem endpoints_as_configured_witness:
  "\<exists>P xs. main_start (demo_crates demo_settings) True (\<lambda>_. Ok ()) ''settings.toml'' (process_new 5) = (P, xs, Ok ()) \<and>
    map Some xs = map (expected_endpoint (demo_crates demo_settings) P) (serve demo_settings)"
  using endpoints_as_configured [OF demo_start] demo_start by (simp add: demo_crates_def settings_get_def)

text \<open>C34. The start fails at the first directive that cannot be served, with that directive's own error, and the
  directives before it were served as configured. While opening a socket or using a certificate fails with an error,
  the start panics only for an unsupported protocol or because no self-signed certificate could be made.\<close>

theorem start_fails_at_first_bad:
  assumes "main_start A True opens path (process_new g) = (P, xs, Err e)"
    and "config_build A path = Ok v" and "try_deserialize A v = Ok st" and "serve st \<noteq> []"
    and "\<And>i e. opens i = Err e \<Longrightarrow> \<not> unwinds e" and "\<And>c k e. single_cert A c k = Err e \<Longrightarrow> \<not> unwinds e"
  shows "length xs < length (serve st) \<and>
    map Some xs = map (expected_endpoint A P) (take (length xs) (serve st)) \<and>
    (let c = serve st ! length xs in
      (\<exists>Q. serve_one A (opens (length xs)) c Q = (P, Err e)) \<and>
      (unwinds e \<longrightarrow> protocol c \<notin> {''ws'', ''wss'', ''wt''} \<or>
        tls_self c = Some True \<and> SELFCERT P = None))"
proof -
  note all = main_start_loaded [OF assms(1-4)]
  let ?cs = "zip (map opens [0 ..< length (serve st)]) (serve st)"
  from serve_all_expected [OF all] obtain Q where len: "length xs < length (serve st)"
    and eq: "map Some xs = map (\<lambda>c. expected_endpoint A P (snd c)) (take (length xs) ?cs)"
    and Q: "serve_one A (opens (length xs)) (serve st ! length xs) Q = (P, Err e)" by auto
  have "map (\<lambda>c. expected_endpoint A P (snd c)) (take (length xs) ?cs) =
      map (expected_endpoint A P) (take (length xs) (map snd ?cs))"
    by (simp only: take_map map_map comp_def)
  moreover have "map snd ?cs = serve st" by simp
  ultimately have "map Some xs = map (expected_endpoint A P) (take (length xs) (serve st))" using eq by (simp only:)
  moreover have "tls_self (serve st ! length xs) = Some True \<and> SELFCERT P = None"
    if "unwinds e" "protocol (serve st ! length xs) \<in> {''ws'', ''wss'', ''wt''}"
    using serve_one_unwinds [OF Q _ _ that(1)] assms(5,6) that(2) by blast
  ultimately show ?thesis using len Q by (auto simp: Let_def)
qed

theorem start_fails_at_first_bad_witness:
  "\<exists>P xs e. main_start (demo_crates demo_bad) True (\<lambda>_. Ok ()) ''settings.toml'' (process_new 5) = (P, xs, Err e) \<and>
    length xs = 2 \<and> map Some xs = map (expected_endpoint (demo_crates demo_bad) P) (take 2 (serve demo_bad))"
  using start_fails_at_first_bad [OF demo_start_bad, of "()" demo_bad] demo_start_bad
  by (simp add: demo_crates_def numeral_2_eq_2 demo_bad_def demo_settings_def)

text \<open>C35. Once the program has started, a tunnel of its CONNECT proxy, whatever is sent through it, leads to at most one
  host, and only to one of those the configuration file allows; the settings are there when the proxy asks for them.\<close>

theorem tunnels_only_to_configured_hosts:
  assumes "main_start A installed opens path (process_new g) = (P, xs, Ok ())"
    and "config_build A path = Ok v" and "try_deserialize A v = Ok st"
  shows "\<exists>allowed. connect_allowed P = Ok allowed \<and>
    (\<forall>relay evs as r. connect_run allowed relay connect_new evs = Some (as, r) \<longrightarrow>
       length (connections as) \<le> 1 \<and> (\<forall>(h, p) \<in> set (connections as). h \<in> set (allowed_hosts (http_proxy st))))"
proof -
  obtain v' st' where st: "config_build A path = Ok v'" "try_deserialize A v' = Ok st'"
    and all: "serve_all A (zip (map opens [0 ..< length (serve st')]) (serve st')) (process_new g\<lparr>SETTINGS := Some st'\<rparr>) = (P, xs, Ok ())"
    by (rule main_start_Ok [OF assms(1)])
  from st assms(2,3) have "st' = st" by simp
  with serve_all_same [OF all] have "SETTINGS P = Some st" by (simp add: same_cert_def)
  then have "connect_allowed P = Ok (allowed_hosts (http_proxy st))"
    by (simp add: connect_allowed_def settings_get_def)
  then show ?thesis using connect_run_facts [OF _ connect_inv_new] by fastforce
qed

theorem tunnels_only_to_configured_hosts_witness:
  "\<exists>P xs allowed. main_start (demo_crates demo_settings) True (\<lambda>_. Ok ()) ''settings.toml'' (process_new 5) = (P, xs, Ok ()) \<and>
    connect_allowed P = Ok allowed \<and>
    (\<exists>as r. connect_run allowed 3 connect_new (client_chunks env_up demo_chunks) = Some (as, r) \<and> length (connections as) \<le> 1)"
proof -
  note start = demo_start
  obtain P xs where P: "main_start (demo_crates demo_settings) True (\<lambda>_. Ok ()) ''settings.toml'' (process_new 5) = (P, xs, Ok ())"
    "SETTINGS P = Some demo_settings" using start by auto
  have "connect_allowed P = Ok [''a.b'']"
    using P(2) by (simp add: connect_allowed_def settings_get_def demo_settings_def)
  moreover obtain as r where "connect_run [''a.b''] 3 connect_new (client_chunks env_up demo_chunks) = Some (as, r)"
    using stream_written [of env_up 3, OF _ _ demo_parse] by force
  moreover from this have "length (connections as) \<le> 1"
    using tunnels_only_to_configured_hosts [OF P(1), of "()" demo_settings] calculation(1) by (auto simp: demo_crates_def)
  ultimately show ?thesis using P(1) by blast
qed

end
