(* ===== verification/Runtime.thy ===== *)
theory Runtime
  imports System_Spec Net_Translate
begin

text \<open>
  The proxy with everything that runs in it: the sessions of \<open>Proxy_System\<close>, the tasks they have
  spawned (a translator for each bound port, the CONNECT proxy and the resolver for each link to
  them), and the unbounded channels between them. What the handlers list as effects is carried
  out here: a task is spawned, a message is put on a channel. Steps are turns of sessions and turns of
  tasks, in any order.

  Nothing is assumed of a channel but what its own documentation promises (locale \<open>mpsc\<close>). Whether
  one is open follows from who owns its ends, as Rust's ownership has it: a send succeeds as long as
  the receiver is there, and a receiver with nothing to read is told of the end when the last sender
  is gone. So the answers of channels that the components take from their environment are not free
  any more: \<open>sees\<close> fixes them.
\<close>

section \<open>Channels\<close>

text \<open>tokio's unbounded channel, a parameter: creating one, sending and taking the next message.\<close>

record ('x, 'q) mpsc_api =
  mpsc_new :: 'q
  mpsc_push :: "'x \<Rightarrow> 'q \<Rightarrow> 'q"
  mpsc_pop :: "'q \<Rightarrow> ('x \<times> 'q) option"

locale mpsc =
  fixes Q :: "('x, 'q) mpsc_api" and items :: "'q \<Rightarrow> 'x list"
  assumes items_new: "items (mpsc_new Q) = []"
    and items_push: "items (mpsc_push Q x q) = items q @ [x]"
    and pop_None: "mpsc_pop Q q = None \<longleftrightarrow> items q = []"
    and pop_Some: "mpsc_pop Q q = Some (x, q') \<Longrightarrow> items q = x # items q'"
begin

text \<open>Messages come out in the order in which they were put in, none is lost and none is made up.\<close>

lemma items_push_all: "items (fold (mpsc_push Q) xs q) = items q @ xs"
  by (induction xs arbitrary: q) (simp_all add: items_push)

lemma pop_push_all:
  assumes "items q = []" and "mpsc_pop Q (fold (mpsc_push Q) (x # xs) q) = Some (y, q')"
  shows "y = x \<and> items q' = xs"
  using pop_Some [OF assms(2)] assms(1) by (simp add: items_push_all items_push)

end

definition list_mpsc :: "('x, 'x list) mpsc_api" where
  "list_mpsc = \<lparr>mpsc_new = [], mpsc_push = (\<lambda>x q. q @ [x]),
     mpsc_pop = (\<lambda>q. case q of [] \<Rightarrow> None | x # r \<Rightarrow> Some (x, r))\<rparr>"

interpretation list_queue: mpsc list_mpsc "\<lambda>q. q"
  by unfold_locales (auto simp: list_mpsc_def split: list.splits)

text \<open>
  What \<open>recv\<close> returns: the next message, or, when there is none and no sender either, the end.
  Otherwise it goes on waiting.
\<close>

definition polls :: "('x, 'q) mpsc_api \<Rightarrow> bool \<Rightarrow> 'q \<Rightarrow> 'x option \<Rightarrow> 'q \<Rightarrow> bool" where
  "polls Q sender q r q' =
     (case mpsc_pop Q q of
        Some (x, q2) \<Rightarrow> r = Some x \<and> q' = q2
      | None \<Rightarrow> \<not> sender \<and> r = None \<and> q' = q)"

section \<open>Tasks\<close>

text \<open>
  A task with the receiving end of its channel and the relay of its session. A service task whose
  \<open>run\<close> has returned an error has dropped its receiver, and has yet to send the empty message that
  wakes the session.
\<close>

datatype task =
    TranslateTask chan chan translator
  | ConnectTask chan chan connect_state
  | DnsTask chan chan
  | FailedTask chan

fun task_rx :: "task \<Rightarrow> chan option" where
  "task_rx (TranslateTask rx relay st) = Some rx"
| "task_rx (ConnectTask rx relay st) = Some rx"
| "task_rx (DnsTask rx relay) = Some rx"
| "task_rx (FailedTask relay) = None"

fun task_relay :: "task \<Rightarrow> chan" where
  "task_relay (TranslateTask rx relay st) = relay"
| "task_relay (ConnectTask rx relay st) = relay"
| "task_relay (DnsTask rx relay) = relay"
| "task_relay (FailedTask relay) = relay"

record ('q, 'p) executor =
  ex_tasks :: "task list"
  ex_bytes :: "chan \<Rightarrow> 'q"
  ex_udp :: "chan \<Rightarrow> 'p"

definition set_bytes :: "chan \<Rightarrow> 'q \<Rightarrow> ('q, 'p) executor \<Rightarrow> ('q, 'p) executor" where
  "set_bytes c q x = x\<lparr>ex_bytes := (ex_bytes x)(c := q)\<rparr>"

definition set_udp :: "chan \<Rightarrow> 'p \<Rightarrow> ('q, 'p) executor \<Rightarrow> ('q, 'p) executor" where
  "set_udp c q x = x\<lparr>ex_udp := (ex_udp x)(c := q)\<rparr>"

definition add_task :: "task \<Rightarrow> ('q, 'p) executor \<Rightarrow> ('q, 'p) executor" where
  "add_task t x = x\<lparr>ex_tasks := ex_tasks x @ [t]\<rparr>"

definition replace_task :: "nat \<Rightarrow> task \<Rightarrow> ('q, 'p) executor \<Rightarrow> ('q, 'p) executor" where
  "replace_task j t x = x\<lparr>ex_tasks := take j (ex_tasks x) @ t # drop (Suc j) (ex_tasks x)\<rparr>"

definition remove_task :: "nat \<Rightarrow> ('q, 'p) executor \<Rightarrow> ('q, 'p) executor" where
  "remove_task j x = x\<lparr>ex_tasks := take j (ex_tasks x) @ drop (Suc j) (ex_tasks x)\<rparr>"

text \<open>
  What a handler has done to the tasks and the channels. The end of a sender needs no entry: a
  channel is open as long as one of its senders is held somewhere.
\<close>

type_synonym 'q bytes_api = "(bytes, 'q) mpsc_api"
type_synonym 'p udp_api = "(socket_addr \<times> bytes, 'p) mpsc_api"

fun carry_out :: "'q bytes_api \<Rightarrow> 'p udp_api \<Rightarrow> effect \<Rightarrow> ('q, 'p) executor \<Rightarrow> ('q, 'p) executor" where
  "carry_out Q U (Send c d) x = set_bytes c (mpsc_push Q d (ex_bytes x c)) x"
| "carry_out Q U (Egress c peer d) x = set_udp c (mpsc_push U (peer, d) (ex_udp x c)) x"
| "carry_out Q U (SpawnTranslate key rx relay) x =
     add_task (TranslateTask rx relay translator_new) (set_udp rx (mpsc_new U) x)"
| "carry_out Q U (SpawnConnect rx relay) x = add_task (ConnectTask rx relay connect_new) (set_bytes rx (mpsc_new Q) x)"
| "carry_out Q U (SpawnDns rx relay) x = add_task (DnsTask rx relay) (set_bytes rx (mpsc_new Q) x)"
| "carry_out Q U (DropSender c) x = x"

definition carry_out_all ::
  "'q bytes_api \<Rightarrow> 'p udp_api \<Rightarrow> effect list \<Rightarrow> ('q, 'p) executor \<Rightarrow> ('q, 'p) executor" where
  "carry_out_all Q U es x = fold (carry_out Q U) es x"

section \<open>The runtime\<close>

record ('r, 'q, 'p) runtime =
  rt_sys :: "'r system"
  rt_exec :: "('q, 'p) executor"

definition rt_new :: "'q bytes_api \<Rightarrow> 'p udp_api \<Rightarrow> 'r \<Rightarrow> ('r, 'q, 'p) runtime" where
  "rt_new Q U g = \<lparr>rt_sys = sys_new g,
     rt_exec = \<lparr>ex_tasks = [], ex_bytes = (\<lambda>_. mpsc_new Q), ex_udp = (\<lambda>_. mpsc_new U)\<rparr>\<rparr>"

abbreviation rt_world :: "('r, 'q, 'p) runtime \<Rightarrow> 'r world" where
  "rt_world s \<equiv> sys_world (rt_sys s)"

abbreviation rt_slots :: "('r, 'q, 'p) runtime \<Rightarrow> session_slot list" where
  "rt_slots s \<equiv> sys_slots (rt_sys s)"

abbreviation rt_tasks :: "('r, 'q, 'p) runtime \<Rightarrow> task list" where
  "rt_tasks s \<equiv> ex_tasks (rt_exec s)"

text \<open>
  The ends a session holds: the receiver of its relay, the sender of it until that is given away, and
  the sender inside its lease.
\<close>

type_synonym conn = "chan \<times> chan option \<times> lease option"

fun conn_of :: "session_kind \<Rightarrow> conn option" where
  "conn_of Handshake = None"
| "conn_of (OnWebSocket c st) = Some (c, ws_relay st, ws_lease st)"
| "conn_of (OnWebTransport c st) = Some (c, wt_relay st, wt_lease st)"

definition conns :: "session_slot list \<Rightarrow> conn list" where
  "conns ss = List.map_filter (\<lambda>x. conn_of (slot_kind x)) ss"

definition has_receiver :: "('r, 'q, 'p) runtime \<Rightarrow> chan \<Rightarrow> bool" where
  "has_receiver s c = (c \<in> fst ` set (conns (rt_slots s)) \<or> Some c \<in> task_rx ` set (rt_tasks s))"

definition has_sender :: "('r, 'q, 'p) runtime \<Rightarrow> chan \<Rightarrow> bool" where
  "has_sender s c =
     ((\<exists>(c', r, l) \<in> set (conns (rt_slots s)). r = Some c \<or> map_option lease_sender l = Some c) \<or>
      c \<in> task_relay ` set (rt_tasks s) \<or> c \<in> ran (route_map (rt_world s)))"

text \<open>
  What a turn gets to see of the channels. A channel that is made in the course of the turn has its
  receiver in the task that is spawned with it.
\<close>

definition sees :: "('r, 'q, 'p) runtime \<Rightarrow> env \<Rightarrow> bool" where
  "sees s E = (env_ok E \<and> (\<forall>c. send_ok E c \<longleftrightarrow> has_receiver s c \<or> next_chan (rt_world s) \<le> c))"

text \<open>Which events the channels allow, and what is left in the channel that was read.\<close>

fun ws_ready :: "'q bytes_api \<Rightarrow> ('r, 'q, 'p) runtime \<Rightarrow> chan \<Rightarrow> ws_event \<Rightarrow> 'q \<Rightarrow> bool" where
  "ws_ready Q s c (WsRelay r) q = polls Q (has_sender s c) (ex_bytes (rt_exec s) c) r q"
| "ws_ready Q s c (WsRead r) q = (q = ex_bytes (rt_exec s) c)"

fun wt_ready :: "'q bytes_api \<Rightarrow> ('r, 'q, 'p) runtime \<Rightarrow> chan \<Rightarrow> wt_event \<Rightarrow> 'q \<Rightarrow> bool" where
  "wt_ready Q s c (WtRelay r) q = polls Q (has_sender s c) (ex_bytes (rt_exec s) c) r q"
| "wt_ready Q s c ev q = (q = ex_bytes (rt_exec s) c)"

fun udp_ready :: "'p udp_api \<Rightarrow> ('r, 'q, 'p) runtime \<Rightarrow> chan \<Rightarrow> udp_event \<Rightarrow> 'p \<Rightarrow> bool" where
  "udp_ready U s c (Outgoing r opens) q = polls U (has_sender s c) (ex_udp (rt_exec s) c) r q"
| "udp_ready U s c (Received fam r bs) q = (q = ex_udp (rt_exec s) c)"

fun connect_ready :: "'q bytes_api \<Rightarrow> ('r, 'q, 'p) runtime \<Rightarrow> chan \<Rightarrow> connect_event \<Rightarrow> 'q \<Rightarrow> bool" where
  "connect_ready Q s c (FromClient r c_ok w_ok) q = polls Q (has_sender s c) (ex_bytes (rt_exec s) c) r q"
| "connect_ready Q s c (FromRemote r) q = (q = ex_bytes (rt_exec s) c)"

text \<open>What the transports may bring: no panic of their own, and streams only once they are there.\<close>

fun wt_outside_ok :: "wt_session \<Rightarrow> wt_event \<Rightarrow> bool" where
  "wt_outside_ok st (FillBuf (Inl e)) = (\<not> unwinds e)"
| "wt_outside_ok st (AcceptBi (Inl e)) = (\<not> unwinds e)"
| "wt_outside_ok st (AcceptUni (Inl e)) = (\<not> unwinds e)"
| "wt_outside_ok st (ReadDatagram (Inl e)) = (\<not> unwinds e)"
| "wt_outside_ok st _ = True"

text \<open>
  A turn of a task: what it reads is taken from its channel, and what it sends to the client is put
  on the relay. A task that is done is dropped, with its receiver and its sender of the relay; the
  \<open>into_lease\<close> tasks of the services send the empty message first if \<open>run\<close> has failed.
\<close>

inductive task_step ::
  "buf_api \<Rightarrow> 'q bytes_api \<Rightarrow> 'p udp_api \<Rightarrow> string list \<Rightarrow> ('r, 'q, 'p) runtime \<Rightarrow> ('q, 'p) executor \<Rightarrow> bool"
  for B Q U hosts s where
  translates: "j < length (rt_tasks s) \<Longrightarrow> rt_tasks s ! j = TranslateTask rx relay st \<Longrightarrow>
     translate_enabled st ev \<Longrightarrow> udp_event_ok ev \<Longrightarrow> udp_ready U s rx ev q \<Longrightarrow> sees s E \<Longrightarrow>
     translate_turn B E relay st ev = (as, Ok (Some st')) \<Longrightarrow>
     task_step B Q U hosts s (carry_out_all Q U (relays as)
       (replace_task j (TranslateTask rx relay st') (set_udp rx q (rt_exec s))))"
| translate_ends: "j < length (rt_tasks s) \<Longrightarrow> rt_tasks s ! j = TranslateTask rx relay st \<Longrightarrow>
     translate_enabled st ev \<Longrightarrow> udp_event_ok ev \<Longrightarrow> udp_ready U s rx ev q \<Longrightarrow> sees s E \<Longrightarrow>
     translate_turn B E relay st ev = (as, res) \<Longrightarrow> (\<forall>st'. res \<noteq> Ok (Some st')) \<Longrightarrow>
     task_step B Q U hosts s (carry_out_all Q U (relays as) (remove_task j (set_udp rx q (rt_exec s))))"
| connects: "j < length (rt_tasks s) \<Longrightarrow> rt_tasks s ! j = ConnectTask rx relay st \<Longrightarrow>
     connect_enabled st ev \<Longrightarrow> connect_ready Q s rx ev q \<Longrightarrow> sees s E \<Longrightarrow>
     connect_turn hosts E relay st ev = (as, Ok (Some st')) \<Longrightarrow>
     task_step B Q U hosts s (carry_out_all Q U (to_client as)
       (replace_task j (ConnectTask rx relay st') (set_bytes rx q (rt_exec s))))"
| connect_returns: "j < length (rt_tasks s) \<Longrightarrow> rt_tasks s ! j = ConnectTask rx relay st \<Longrightarrow>
     connect_enabled st ev \<Longrightarrow> connect_ready Q s rx ev q \<Longrightarrow> sees s E \<Longrightarrow>
     connect_turn hosts E relay st ev = (as, Ok None) \<Longrightarrow>
     task_step B Q U hosts s (carry_out_all Q U (to_client as) (remove_task j (set_bytes rx q (rt_exec s))))"
| connect_fails: "j < length (rt_tasks s) \<Longrightarrow> rt_tasks s ! j = ConnectTask rx relay st \<Longrightarrow>
     connect_enabled st ev \<Longrightarrow> connect_ready Q s rx ev q \<Longrightarrow> sees s E \<Longrightarrow>
     connect_turn hosts E relay st ev = (as, Err e) \<Longrightarrow>
     task_step B Q U hosts s (carry_out_all Q U (to_client as)
       (replace_task j (FailedTask relay) (set_bytes rx q (rt_exec s))))"
| dns_answers: "j < length (rt_tasks s) \<Longrightarrow> rt_tasks s ! j = DnsTask rx relay \<Longrightarrow>
     polls Q (has_sender s rx) (ex_bytes (rt_exec s) rx) r q \<Longrightarrow> sees s E \<Longrightarrow>
     dns_run lookup relay [(E, r)] = (es, Ok Waiting) \<Longrightarrow>
     task_step B Q U hosts s (carry_out_all Q U es (set_bytes rx q (rt_exec s)))"
| dns_returns: "j < length (rt_tasks s) \<Longrightarrow> rt_tasks s ! j = DnsTask rx relay \<Longrightarrow>
     polls Q (has_sender s rx) (ex_bytes (rt_exec s) rx) r q \<Longrightarrow> sees s E \<Longrightarrow>
     dns_run lookup relay [(E, r)] = (es, Ok Returned) \<Longrightarrow>
     task_step B Q U hosts s (carry_out_all Q U es (remove_task j (set_bytes rx q (rt_exec s))))"
| dns_fails: "j < length (rt_tasks s) \<Longrightarrow> rt_tasks s ! j = DnsTask rx relay \<Longrightarrow>
     polls Q (has_sender s rx) (ex_bytes (rt_exec s) rx) r q \<Longrightarrow> sees s E \<Longrightarrow>
     dns_run lookup relay [(E, r)] = (es, Err e) \<Longrightarrow>
     task_step B Q U hosts s (carry_out_all Q U es (replace_task j (FailedTask relay) (set_bytes rx q (rt_exec s))))"
| reports: "j < length (rt_tasks s) \<Longrightarrow> rt_tasks s ! j = FailedTask relay \<Longrightarrow> sees s E \<Longrightarrow>
     task_step B Q U hosts s (carry_out_all Q U (fst (chan_send E relay [])) (remove_task j (rt_exec s)))"

text \<open>
  One step: a connection is accepted, or turns out to be gone already, which makes its task panic, a handshake completes or fails, a session takes a turn, or a task
  does. \<open>hosts\<close> are the hosts the settings allow. The names found for a query may differ from one
  query to the next.
\<close>

inductive rt_step ::
  "'r rng_api \<Rightarrow> buf_api \<Rightarrow> 'q bytes_api \<Rightarrow> 'p udp_api \<Rightarrow> string list \<Rightarrow>
     ('r, 'q, 'p) runtime \<Rightarrow> ('r, 'q, 'p) runtime \<Rightarrow> bool" for G B Q U hosts where
  gone_ws: "ws_begin peer (rt_world s) = (w, Err e) \<Longrightarrow>
     rt_step G B Q U hosts s (s\<lparr>rt_sys := (rt_sys s)\<lparr>sys_world := w\<rparr>\<rparr>)"
| accept_ws: "sys_opened (rt_sys s) < 2 ^ 64 \<Longrightarrow> ws_begin peer (rt_world s) = (w, Ok h) \<Longrightarrow>
     rt_step G B Q U hosts s (s\<lparr>rt_sys := (rt_sys s)\<lparr>sys_world := w,
       sys_slots := rt_slots s @ [\<lparr>slot_client = h, slot_kind = Handshake\<rparr>],
       sys_opened := Suc (sys_opened (rt_sys s))\<rparr>\<rparr>)"
| handshake_ws: "i < length (rt_slots s) \<Longrightarrow> slot_kind (rt_slots s ! i) = Handshake \<Longrightarrow>
     ws_handshake secure tls upgrade = Ok () \<Longrightarrow> c = next_chan (rt_world s) \<Longrightarrow>
     rt_step G B Q U hosts s (s\<lparr>rt_sys := (rt_sys s)\<lparr>sys_world := (rt_world s)\<lparr>next_chan := c + 1\<rparr>,
         sys_slots := replace_slot i (rt_slots s) (OnWebSocket c (ws_new c))\<rparr>,
       rt_exec := set_bytes c (mpsc_new Q) (rt_exec s)\<rparr>)"
| handshake_fails: "i < length (rt_slots s) \<Longrightarrow> slot_kind (rt_slots s ! i) = Handshake \<Longrightarrow>
     ws_handshake secure tls upgrade = Err e \<Longrightarrow> \<not> unwinds e \<Longrightarrow>
     session_end E (slot_client (rt_slots s ! i)) None (Err e) (rt_world s) = (w, es) \<Longrightarrow>
     rt_step G B Q U hosts s (s\<lparr>rt_sys := (rt_sys s)\<lparr>sys_world := w, sys_slots := remove_slot i (rt_slots s)\<rparr>\<rparr>)"
| accept_wt: "sys_opened (rt_sys s) < 2 ^ 64 \<Longrightarrow> service_new_client remote (rt_world s) = (w, h) \<Longrightarrow>
     c = next_chan w \<Longrightarrow>
     rt_step G B Q U hosts s (s\<lparr>rt_sys := (rt_sys s)\<lparr>sys_world := w\<lparr>next_chan := c + 1\<rparr>,
         sys_slots := rt_slots s @ [\<lparr>slot_client = h, slot_kind = OnWebTransport c (wt_new c)\<rparr>],
         sys_opened := Suc (sys_opened (rt_sys s))\<rparr>,
       rt_exec := set_bytes c (mpsc_new Q) (rt_exec s)\<rparr>)"
| ws_goes_on: "i < length (rt_slots s) \<Longrightarrow> slot_kind (rt_slots s ! i) = OnWebSocket c st \<Longrightarrow>
     ws_event_ok ev \<Longrightarrow> ws_ready Q s c ev q \<Longrightarrow> sees s E \<Longrightarrow>
     ws_turn G B E W ev st (rt_world s) = (w, st', as, Ok Waiting) \<Longrightarrow>
     rt_step G B Q U hosts s (s\<lparr>rt_sys := (rt_sys s)\<lparr>sys_world := w,
         sys_slots := replace_slot i (rt_slots s) (OnWebSocket c st')\<rparr>,
       rt_exec := carry_out_all Q U (effects as) (set_bytes c q (rt_exec s))\<rparr>)"
| ws_ends: "i < length (rt_slots s) \<Longrightarrow> slot_kind (rt_slots s ! i) = OnWebSocket c st \<Longrightarrow>
     ws_event_ok ev \<Longrightarrow> ws_ready Q s c ev q \<Longrightarrow> sees s E \<Longrightarrow>
     ws_turn G B E W ev st (rt_world s) = (w, st', as, res) \<Longrightarrow> res \<noteq> Ok Waiting \<Longrightarrow> res \<noteq> Err Diverges \<Longrightarrow>
     session_end E' (slot_client (rt_slots s ! i)) (ws_lease st') res w = (w', es) \<Longrightarrow>
     rt_step G B Q U hosts s (s\<lparr>rt_sys := (rt_sys s)\<lparr>sys_world := w', sys_slots := remove_slot i (rt_slots s)\<rparr>,
       rt_exec := carry_out_all Q U (effects as @ es) (set_bytes c q (rt_exec s))\<rparr>)"
| wt_goes_on: "i < length (rt_slots s) \<Longrightarrow> slot_kind (rt_slots s ! i) = OnWebTransport c st \<Longrightarrow>
     wt_enabled st ev \<Longrightarrow> wt_outside_ok st ev \<Longrightarrow> wt_ready Q s c ev q \<Longrightarrow> (\<forall>k. sees s (T k)) \<Longrightarrow>
     wt_turn G B T W ev st (rt_world s) = (w, st', as, Ok ()) \<Longrightarrow>
     rt_step G B Q U hosts s (s\<lparr>rt_sys := (rt_sys s)\<lparr>sys_world := w,
         sys_slots := replace_slot i (rt_slots s) (OnWebTransport c st')\<rparr>,
       rt_exec := carry_out_all Q U (effects as) (set_bytes c q (rt_exec s))\<rparr>)"
| wt_ends: "i < length (rt_slots s) \<Longrightarrow> slot_kind (rt_slots s ! i) = OnWebTransport c st \<Longrightarrow>
     wt_enabled st ev \<Longrightarrow> wt_outside_ok st ev \<Longrightarrow> wt_ready Q s c ev q \<Longrightarrow> (\<forall>k. sees s (T k)) \<Longrightarrow>
     wt_turn G B T W ev st (rt_world s) = (w, st', as, Err e) \<Longrightarrow> e \<noteq> Diverges \<Longrightarrow>
     session_end E' (slot_client (rt_slots s ! i)) (wt_lease st') (Err e) w = (w', es) \<Longrightarrow>
     rt_step G B Q U hosts s (s\<lparr>rt_sys := (rt_sys s)\<lparr>sys_world := w', sys_slots := remove_slot i (rt_slots s)\<rparr>,
       rt_exec := carry_out_all Q U (effects as @ es) (set_bytes c q (rt_exec s))\<rparr>)"
| task: "task_step B Q U hosts s x \<Longrightarrow> rt_step G B Q U hosts s (s\<lparr>rt_exec := x\<rparr>)"

end
