(* ===== verification/Session_Acts.thy ===== *)
theory Session_Acts
  imports Runtime
begin

text \<open>
  What a turn of a session does, one act at a time and with its effects: it has an address assigned, makes a
  lease and gives its relay away with it, uses its lease, or loses it. A refinement of the steps of
  \<open>Session\<close>, which leave the effects and the relay out; the invariant of the runtime is kept act by act.
\<close>

section \<open>Acts\<close>

inductive session_act ::
  "'r rng_api \<Rightarrow> buf_api \<Rightarrow> (env \<Rightarrow> bool) \<Rightarrow> chan \<Rightarrow> 'r world \<times> chan option \<times> lease option \<Rightarrow> effect list \<Rightarrow>
     'r world \<times> chan option \<times> lease option \<Rightarrow> bool" for G B P c where
  assign: "service_assign G E w = Some (ap, w') \<Longrightarrow> session_act G B P c (w, r, None) [] (w', r, None)"
| bind: "service_bind E pc port c w = (w', es, Ok l) \<Longrightarrow> session_act G B P c (w, Some c, None) es (w', None, Some l)"
| route: "service_route addr c w = (w', es, Ok l) \<Longrightarrow> session_act G B P c (w, Some c, None) es (w', None, Some l)"
| give_up: "session_act G B P c (w, r, None) [] (w, None, None)"
| send: "P E \<Longrightarrow> lease_send B E l d (net_of w) = (es, res) \<Longrightarrow>
     session_act G B P c (w, r, Some l) es (w, r, Some l)"
| lose: "drop_lease E (Some l) w = (w', es) \<Longrightarrow> session_act G B P c (w, r, Some l) es (w', r, None)"

inductive session_acts ::
  "'r rng_api \<Rightarrow> buf_api \<Rightarrow> (env \<Rightarrow> bool) \<Rightarrow> chan \<Rightarrow> 'r world \<times> chan option \<times> lease option \<Rightarrow> effect list \<Rightarrow>
     'r world \<times> chan option \<times> lease option \<Rightarrow> bool" for G B P c where
  no_more: "session_acts G B P c x [] x"
| more: "session_act G B P c x es y \<Longrightarrow> session_acts G B P c y es' z \<Longrightarrow> session_acts G B P c x (es @ es') z"

lemma acts_one: "session_act G B P c x es y \<Longrightarrow> session_acts G B P c x es y"
  using session_acts.more [OF _ session_acts.no_more] by fastforce

lemma acts_trans:
  "session_acts G B P c x es y \<Longrightarrow> session_acts G B P c y es' z \<Longrightarrow> session_acts G B P c x (es @ es') z"
  by (induction rule: session_acts.induct) (auto intro: session_acts.more)

lemmas act_intros = session_act.intros [THEN acts_one]

section \<open>Turns as acts\<close>

lemma handle_command_acts:
  assumes h: "handle_command G E raw relay_tx w = (w', relay', es, res)" and rel: "relay_tx = None \<or> relay_tx = Some c"
  shows "session_acts G B P c (w, relay_tx, None) es (w', relay', case res of Inl _ \<Rightarrow> None | Inr r \<Rightarrow> new_lease r)"
proof (cases rule: handle_command_cases [of G E raw relay_tx w])
  case (error e)
  with h have e: "res = Err e" "w' = w" "es = []" by auto
  from handle_command_sender [OF h] show ?thesis
    by (auto simp: e intro: session_acts.no_more act_intros(4))
next
  case (refused c' pc port w'' es' e)
  from service_bind_Err [OF refused(2)] refused h show ?thesis by (auto intro: session_acts.no_more)
qed (use h rel in \<open>auto intro: session_acts.no_more act_intros(1-3)\<close>)

lemma lease_send_acts:
  "P E \<Longrightarrow> lease_send B E l d (net_of w) = (es, res) \<Longrightarrow> session_acts G B P c (w, r, Some l) es (w, r, Some l)"
  by (rule act_intros(5))

lemma drop_lease_acts:
  assumes "drop_lease E l w = (w', es)"
  shows "session_acts G B P c (w, r, l) es (w', r, None)"
proof (cases l)
  case None
  with assms show ?thesis by (simp add: drop_lease_def session_acts.no_more)
next
  case (Some l')
  with assms show ?thesis by (auto intro: act_intros(6))
qed

lemma ws_text_acts:
  assumes t: "ws_handle_text G E W st cmd w = (w', st', as, res)" and rel: "ws_relay st = None \<or> ws_relay st = Some c"
  shows "session_acts G B P c (w, ws_relay st, ws_lease st) (effects as) (w', ws_relay st', ws_lease st')"
proof (cases rule: ws_text_cases [of st G E W cmd w])
  case (error w1 relay' es e)
  with t handle_command_acts [OF error(2) rel, of B P] show ?thesis by auto
next
  case (answered w1 relay' es r)
  with t handle_command_acts [OF answered(2) rel, of B P] show ?thesis by auto
next
  case (unsent w1 relay' es r w2 es')
  from handle_command_acts [OF unsent(2) rel, of B P] drop_lease_acts [OF unsent(3)]
  have "session_acts G B P c (w, ws_relay st, None) (es @ es') (w2, relay', None)" by (auto intro: acts_trans)
  with unsent(1,4) t show ?thesis by auto
qed (use t in \<open>auto intro: session_acts.no_more\<close>)

lemma ws_turn_acts:
  assumes t: "ws_turn G B E W ev st w = (w', st', as, res)" and rel: "ws_relay st = None \<or> ws_relay st = Some c"
    and P: "P E"
  shows "session_acts G B P c (w, ws_relay st, ws_lease st) (effects as) (w', ws_relay st', ws_lease st')"
proof (cases "(G, B, E, W, ev, st, w)" rule: ws_turn.cases)
  case (1 G' B' E' W' m st0 w0)
  then have m: "ws_handle_message G B E W m st w = (w', st', as, res)" using t by simp
  show ?thesis
  proof (cases "(G, B, E, W, m, st, w)" rule: ws_handle_message.cases)
    case (1 G'' B'' E'' W'' cmd)
    with m ws_text_acts [of G E W st cmd w w' st' as res, OF _ rel] show ?thesis by simp
  next
    case (2 G'' B'' E'' W'' d)
    with m P show ?thesis
      by (auto simp: ws_handle_datagram_def split: option.splits prod.splits sum.splits
          intro: session_acts.no_more lease_send_acts)
  qed (use m 1 in \<open>auto simp: ws_reply_def wrote_def split: if_splits intro: session_acts.no_more\<close>)
qed (use t in \<open>auto simp: ws_reply_def ws_done_def wrote_def split: if_splits intro: session_acts.no_more\<close>)

lemma wt_relay_stream_acts:
  assumes "wt_relay_stream B E st d w = (w', st', as, res)" and "P E"
  shows "session_acts G B P c (w, wt_relay st, wt_lease st) (effects as) (w', wt_relay st', wt_lease st')"
  using assms by (auto simp: wt_relay_stream_def split: if_splits option.splits prod.splits
      intro: session_acts.no_more lease_send_acts)

lemma wt_commands_acts:
  assumes P: "\<And>k. P (T k)"
  shows "wt_commands G B T W k st w = (w', st', as, res) \<Longrightarrow> wt_relay st = None \<or> wt_relay st = Some c \<Longrightarrow>
    session_acts G B P c (w, wt_relay st, wt_lease st) (effects as) (w', wt_relay st', wt_lease st')"
proof -
  define R where "R = (\<lambda>(k :: nat) (st :: wt_session) (w :: 'a world)
      (w' :: 'a world, st' :: wt_session, as :: wt_out action list, res :: unit result).
     wt_relay st = None \<or> wt_relay st = Some c \<longrightarrow>
     session_acts G B P c (w, wt_relay st, wt_lease st) (effects as) (w', wt_relay st', wt_lease st'))"
  have "R k st w (wt_commands G B T W k st w)"
  proof (induction rule: wt_commands_induct)
    case (leased k st w l)
    obtain w' st' as res where x: "wt_relay_stream B (T k) (st\<lparr>wt_cmdbuf := []\<rparr>) (wt_cmdbuf st) w = (w', st', as, res)"
      by (rule prod_cases4)
    from wt_relay_stream_acts [where P = P and G = G and c = c, OF x P] show ?case unfolding x R_def by simp metis
  next
    case (error k st w n w' relay' es e')
    with handle_command_acts [where P = P and B = B and c = c, OF error(3)] show ?case by (auto simp: R_def)
  next
    case (unsent k st w n w' relay' es r as e')
    with handle_command_acts [where P = P and B = B and c = c, OF unsent(3)] wt_reply_effects [OF unsent(4)]
    show ?case by (auto simp: R_def)
  next
    case (answered k st w n w' relay' es r as w2 st2 as2 res)
    note eff = wt_reply_effects [OF answered(4)]
    show ?case
      unfolding R_def prod.case
    proof
      assume rel: "wt_relay st = None \<or> wt_relay st = Some c"
      have l: "wt_lease (wt_after st n relay' r) = new_lease r" using answered(1) by simp
      have "relay' = None \<or> relay' = Some c" using handle_command_sender [OF answered(3)] rel by auto
      with answered(6) have "session_acts G B P c (w', relay', new_lease r) (effects as2) (w2, wt_relay st2, wt_lease st2)"
        unfolding R_def prod.case l by simp
      with handle_command_acts [where P = P and B = B and c = c, OF answered(3) rel]
      show "session_acts G B P c (w, wt_relay st, wt_lease st) (effects (map Did es @ as @ as2)) (w2, wt_relay st2, wt_lease st2)"
        by (auto simp: answered(1) eff intro: acts_trans)
    qed
  qed (auto simp: R_def intro: session_acts.no_more)
  moreover assume "wt_commands G B T W k st w = (w', st', as, res)" "wt_relay st = None \<or> wt_relay st = Some c"
  ultimately show ?thesis by (auto simp: R_def)
qed

lemma wt_turn_acts:
  assumes t: "wt_turn G B T W ev st w = (w', st', as, res)" and rel: "wt_relay st = None \<or> wt_relay st = Some c"
    and P: "\<And>k. P (T k)"
  shows "session_acts G B P c (w, wt_relay st, wt_lease st) (effects as) (w', wt_relay st', wt_lease st')"
proof (cases ev)
  case (FillBuf r)
  show ?thesis
  proof (cases "\<exists>d. r = Ok d \<and> d \<noteq> []")
    case True
    then obtain d where d: "wt_handle_data G B T W st d w = (w', st', as, res)" using t FillBuf by auto
    show ?thesis
    proof (cases "wt_lease st")
      case None
      from d have "wt_commands G B T W 0 (st\<lparr>wt_cmdbuf := wt_cmdbuf st @ d\<rparr>) w = (w', st', as, res)"
        by (simp add: wt_handle_data_def None)
      from wt_commands_acts [where P = P and c = c, OF P this] rel show ?thesis by simp
    next
      case (Some l)
      with d have "wt_relay_stream B (T 0) st d w = (w', st', as, res)" by (simp add: wt_handle_data_def)
      from wt_relay_stream_acts [where P = P, OF this P] show ?thesis .
    qed
  qed (use t FillBuf in \<open>auto split: sum.splits intro: session_acts.no_more\<close>)
next
  case (ReadDatagram r)
  with t show ?thesis
    by (auto simp: wt_handle_datagram_def split: sum.splits option.splits if_splits prod.splits
        intro: session_acts.no_more lease_send_acts [where P = P, OF P])
next
  case (WtRelay r)
  with t show ?thesis
    by (auto simp: wt_handle_relay_def wrote_def split: option.splits if_splits intro: session_acts.no_more)
qed (use t in \<open>auto split: sum.splits if_splits intro: session_acts.no_more\<close>)

end
