(* ===== verification/Runtime_Inv.thy ===== *)
theory Runtime_Inv
  imports Session_Acts
begin

text \<open>
  The invariant of the runtime: who holds which end of which channel. A relay belongs to one session and
  is given to at most one task; a session that still has its sender has nothing to read; a lease and its
  task hold the two ends of one channel; a bound port has its translator for as long as it is bound;
  and the empty message that wakes a session is there only when its task is gone.
\<close>

section \<open>The invariant\<close>

fun is_bind :: "lease \<Rightarrow> bool" where
  "is_bind (BindLease h) = True"
| "is_bind (ConnectLease h) = False"
| "is_bind (DnsLease h) = False"

fun task_of :: "task \<Rightarrow> lease \<Rightarrow> chan \<Rightarrow> bool" where
  "task_of (TranslateTask rx relay st) l c = (relay = c \<and> (\<exists>h. l = BindLease h \<and> bind_egress h = rx))"
| "task_of (ConnectTask rx relay st) l c = (relay = c \<and> (\<exists>h. l = ConnectLease h \<and> connect_transmit h = rx))"
| "task_of (DnsTask rx relay) l c = (relay = c \<and> (\<exists>h. l = DnsLease h \<and> dns_transmit h = rx))"
| "task_of (FailedTask relay) l c = (relay = c \<and> \<not> is_bind l)"

definition relay_chans :: "conn list \<Rightarrow> task list \<Rightarrow> chan set" where
  "relay_chans C ts = fst ` set C \<union> task_relay ` set ts"

definition input_chans :: "conn list \<Rightarrow> task list \<Rightarrow> chan set" where
  "input_chans C ts = {lease_sender l |c r l. (c, r, Some l) \<in> set C} \<union> {rx. \<exists>t \<in> set ts. task_rx t = Some rx}"

definition chans_ok :: "chan \<Rightarrow> conn list \<Rightarrow> task list \<Rightarrow> bool" where
  "chans_ok n C ts =
     (distinct (map fst C) \<and> distinct (List.map_filter task_rx ts) \<and> distinct (map task_relay ts) \<and>
      relay_chans C ts \<inter> input_chans C ts = {} \<and> (\<forall>c \<in> relay_chans C ts \<union> input_chans C ts. c < n))"

definition served :: "('q \<Rightarrow> bytes list) \<Rightarrow> ('q, 'p) executor \<Rightarrow> chan \<Rightarrow> lease \<Rightarrow> bool" where
  "served items x c l =
     ((\<forall>t \<in> set (ex_tasks x). task_rx t = Some (lease_sender l) \<or> task_relay t = c \<longrightarrow> task_of t l c) \<and>
      (is_bind l \<longrightarrow> (\<exists>t \<in> set (ex_tasks x). task_rx t = Some (lease_sender l))) \<and>
      ([] \<in> set (items (ex_bytes x c)) \<longrightarrow> \<not> is_bind l \<and> c \<notin> task_relay ` set (ex_tasks x)))"

fun conn_ok :: "('q \<Rightarrow> bytes list) \<Rightarrow> ('q, 'p) executor \<Rightarrow> conn \<Rightarrow> bool" where
  "conn_ok items x (c, r, Some l) = (r = None \<and> served items x c l)"
| "conn_ok items x (c, r, None) =
     (r = None \<or> r = Some c \<and> items (ex_bytes x c) = [] \<and> c \<notin> task_relay ` set (ex_tasks x))"

definition routes_ok :: "'r world \<Rightarrow> conn list \<Rightarrow> bool" where
  "routes_ok w C = (\<forall>k c. route_map w k = Some c \<longrightarrow> (\<exists>h. (c, None, Some (BindLease h)) \<in> set C \<and> bind_key h = k))"

definition exec_inv :: "('q \<Rightarrow> bytes list) \<Rightarrow> chan \<Rightarrow> conn list \<Rightarrow> ('q, 'p) executor \<Rightarrow> bool" where
  "exec_inv items n C x = (chans_ok n C (ex_tasks x) \<and> (\<forall>y \<in> set C. conn_ok items x y))"

definition core_inv :: "('q \<Rightarrow> bytes list) \<Rightarrow> 'r world \<Rightarrow> conn list \<Rightarrow> ('q, 'p) executor \<Rightarrow> bool" where
  "core_inv items w C x = (world_inv w \<and> routes_ok w C \<and> exec_inv items (next_chan w) C x)"

definition rt_inv :: "('q \<Rightarrow> bytes list) \<Rightarrow> ('r, 'q, 'p) runtime \<Rightarrow> bool" where
  "rt_inv items s = (sys_inv (rt_sys s) \<and> core_inv items (rt_world s) (conns (rt_slots s)) (rt_exec s))"

section \<open>What keeps the part of the executor\<close>

lemma map_filter_append [simp]: "List.map_filter f (xs @ ys) = List.map_filter f xs @ List.map_filter f ys"
  by (simp add: map_filter_def)

lemma in_map_filter: "y \<in> set (List.map_filter f xs) \<longleftrightarrow> (\<exists>x \<in> set xs. f x = Some y)"
  by (force simp: map_filter_def)

lemma map_filter_Cons [simp]:
  "List.map_filter f (x # xs) = (case f x of None \<Rightarrow> List.map_filter f xs | Some y \<Rightarrow> y # List.map_filter f xs)"
  by (simp add: map_filter_simps)

lemma distinct_fst_eq: "distinct (map fst C) \<Longrightarrow> (c, a) \<in> set C \<Longrightarrow> (c, b) \<in> set C \<Longrightarrow> a = b"
  by (rule eq_key_imp_eq_value)

text \<open>Queues change: nothing new for a session that holds its sender, and no new empty message for one in use.\<close>

lemma exec_inv_queues:
  assumes inv: "exec_inv items n C x" and ts: "ex_tasks x' = ex_tasks x"
    and q: "\<And>c r l. (c, r, l) \<in> set C \<Longrightarrow> items (ex_bytes x' c) = items (ex_bytes x c) \<or>
      r = None \<and> (\<forall>l'. l = Some l' \<longrightarrow> [] \<in> set (items (ex_bytes x' c)) \<longrightarrow> [] \<in> set (items (ex_bytes x c)) \<or>
        \<not> is_bind l' \<and> c \<notin> task_relay ` set (ex_tasks x))"
  shows "exec_inv items n C x'"
proof -
  have "conn_ok items x' y" if y: "y \<in> set C" for y
  proof -
    obtain c r l where [simp]: "y = (c, r, l)" by (cases y)
    have "conn_ok items x (c, r, l)" using inv y by (simp add: exec_inv_def)
    with q [of c r l] y ts show ?thesis by (cases l) (auto simp: served_def)
  qed
  with inv ts show ?thesis by (simp add: exec_inv_def)
qed

lemma chans_ok_mono:
  assumes ok: "chans_ok n C ts" and "distinct (map fst C')" and "fst ` set C' \<subseteq> fst ` set C"
    and "\<And>c r l. (c, r, Some l) \<in> set C' \<Longrightarrow> \<exists>c r. (c, r, Some l) \<in> set C"
    and "distinct (List.map_filter task_rx ts')" and "distinct (map task_relay ts')"
    and "task_relay ` set ts' \<subseteq> task_relay ` set ts" and "\<And>t c. t \<in> set ts' \<Longrightarrow> task_rx t = Some c \<Longrightarrow> \<exists>t \<in> set ts. task_rx t = Some c"
  shows "chans_ok n C' ts'"
proof -
  have "relay_chans C' ts' \<subseteq> relay_chans C ts" using assms(3,7) unfolding relay_chans_def by blast
  moreover have "input_chans C' ts' \<subseteq> input_chans C ts" using assms(4,8) unfolding input_chans_def by blast
  ultimately show ?thesis using ok assms(2,5,6) unfolding chans_ok_def by blast
qed

lemma chans_ok_remove:
  assumes ok: "chans_ok n C (xs @ t # ys)"
  shows "chans_ok n C (xs @ ys)"
  by (rule chans_ok_mono [OF ok]) (use ok in \<open>auto simp: chans_ok_def split: option.splits\<close>)

lemma chans_ok_fail:
  assumes ok: "chans_ok n C (xs @ t # ys)"
  shows "chans_ok n C (xs @ FailedTask (task_relay t) # ys)"
  by (rule chans_ok_mono [OF ok]) (use ok in \<open>auto simp: chans_ok_def split: option.splits\<close>)

lemma exec_inv_remove:
  assumes inv: "exec_inv items n C x" and ts: "ex_tasks x = xs @ t # ys"
    and free: "\<And>c r l. (c, r, Some l) \<in> set C \<Longrightarrow> is_bind l \<Longrightarrow> task_rx t \<noteq> Some (lease_sender l)"
  shows "exec_inv items n C (x\<lparr>ex_tasks := xs @ ys\<rparr>)"
proof -
  have "conn_ok items (x\<lparr>ex_tasks := xs @ ys\<rparr>) y" if y: "y \<in> set C" for y
  proof -
    obtain c r l where [simp]: "y = (c, r, l)" by (cases y)
    have "conn_ok items x (c, r, l)" using inv y by (simp add: exec_inv_def)
    with free [of c r] y ts show ?thesis by (cases l) (auto simp: served_def)
  qed
  moreover have "chans_ok n C (xs @ ys)" using inv ts chans_ok_remove [of n C xs t ys] by (simp add: exec_inv_def)
  ultimately show ?thesis by (simp add: exec_inv_def)
qed

lemma exec_inv_replace:
  assumes inv: "exec_inv items n C x" and ts: "ex_tasks x = xs @ t # ys"
    and same: "task_rx t' = task_rx t" "task_relay t' = task_relay t" "\<And>l c. task_of t l c \<Longrightarrow> task_of t' l c"
  shows "exec_inv items n C (x\<lparr>ex_tasks := xs @ t' # ys\<rparr>)"
proof -
  have "conn_ok items (x\<lparr>ex_tasks := xs @ t' # ys\<rparr>) y" if y: "y \<in> set C" for y
  proof -
    obtain c r l where [simp]: "y = (c, r, l)" by (cases y)
    have "conn_ok items x (c, r, l)" using inv y by (simp add: exec_inv_def)
    with y ts same show ?thesis by (cases l) (auto simp: served_def)
  qed
  moreover have "chans_ok n C (xs @ t' # ys)"
    using inv ts same by (simp add: exec_inv_def chans_ok_def relay_chans_def input_chans_def)
  ultimately show ?thesis by (simp add: exec_inv_def)
qed

text \<open>A service task that fails.\<close>

lemma exec_inv_fail:
  assumes inv: "exec_inv items n C x" and ts: "ex_tasks x = xs @ t # ys"
    and t: "task_relay t = relay" "\<And>l c. task_of t l c \<Longrightarrow> \<not> is_bind l" "task_rx t \<noteq> None"
  shows "exec_inv items n C (x\<lparr>ex_tasks := xs @ FailedTask relay # ys\<rparr>)"
proof -
  have "conn_ok items (x\<lparr>ex_tasks := xs @ FailedTask relay # ys\<rparr>) y" if y: "y \<in> set C" for y
  proof -
    obtain c r l where [simp]: "y = (c, r, l)" by (cases y)
    have "conn_ok items x (c, r, l)" using inv y by (simp add: exec_inv_def)
    with y ts t show ?thesis by (cases l) (auto simp: served_def)
  qed
  moreover have "chans_ok n C (xs @ FailedTask relay # ys)"
    using inv ts t(1) chans_ok_fail [of n C xs t ys] unfolding exec_inv_def by simp
  ultimately show ?thesis by (simp add: exec_inv_def)
qed

text \<open>A lease is made, with its task and the channel between them.\<close>

lemma chans_less:
  assumes "chans_ok n C ts"
  shows "(c, r, l) \<in> set C \<Longrightarrow> c < n" "(c, r, Some l') \<in> set C \<Longrightarrow> lease_sender l' < n"
    "t \<in> set ts \<Longrightarrow> task_relay t < n" "t \<in> set ts \<Longrightarrow> task_rx t = Some rx \<Longrightarrow> rx < n"
proof -
  have lt: "\<And>c. c \<in> relay_chans C ts \<or> c \<in> input_chans C ts \<Longrightarrow> c < n" using assms by (auto simp: chans_ok_def)
  show "(c, r, l) \<in> set C \<Longrightarrow> c < n" by (rule lt) (force simp: relay_chans_def)
  show "(c, r, Some l') \<in> set C \<Longrightarrow> lease_sender l' < n" by (rule lt) (auto simp: input_chans_def)
  show "t \<in> set ts \<Longrightarrow> task_relay t < n" by (rule lt) (auto simp: relay_chans_def)
  show "t \<in> set ts \<Longrightarrow> task_rx t = Some rx \<Longrightarrow> rx < n" by (rule lt) (auto simp: input_chans_def)
qed

lemma chans_ok_others:
  assumes "chans_ok n (xs @ (c, r, l) # ys) ts" and "(c', r', l') \<in> set xs \<union> set ys"
  shows "c' \<noteq> c"
proof -
  from assms(1) have "c \<notin> fst ` set xs" "c \<notin> fst ` set ys" by (auto simp: chans_ok_def)
  with assms(2) show ?thesis by force
qed

lemma chans_ok_spawn:
  assumes ok: "chans_ok n (xs @ (c, r, None) # ys) ts" and c: "c \<notin> task_relay ` set ts"
    and t: "task_rx t = Some n" "task_relay t = c" "lease_sender l = n"
  shows "chans_ok (n + 1) (xs @ (c, r', Some l) # ys) (ts @ [t])"
proof -
  let ?C = "xs @ (c, r, None) # ys" and ?C' = "xs @ (c, r', Some l) # ys"
  have n: "\<forall>c \<in> relay_chans ?C ts \<union> input_chans ?C ts. c < n" and dis: "relay_chans ?C ts \<inter> input_chans ?C ts = {}"
    using ok by (simp_all add: chans_ok_def)
  have rel: "relay_chans ?C' (ts @ [t]) = relay_chans ?C ts" by (auto simp: relay_chans_def t)
  have inp: "input_chans ?C' (ts @ [t]) = insert n (input_chans ?C ts)"
    unfolding input_chans_def using t by (auto simp del: ex_simps)
  have "n \<notin> relay_chans ?C ts" "n \<notin> set (List.map_filter task_rx ts)"
    using n by (auto simp: in_map_filter input_chans_def)
  with ok c t dis n show ?thesis
    unfolding chans_ok_def rel inp by (auto simp: less_Suc_eq)
qed

lemma exec_inv_spawn:
  assumes inv: "exec_inv items n (xs @ (c, Some c, None) # ys) x"
    and t: "task_rx t = Some n" "task_relay t = c" "lease_sender l = n" "task_of t l c"
    and x': "ex_tasks x' = ex_tasks x @ [t]" "\<And>c'. c' \<noteq> n \<Longrightarrow> items (ex_bytes x' c') = items (ex_bytes x c')"
  shows "exec_inv items (n + 1) (xs @ (c, None, Some l) # ys) x'"
proof -
  let ?C = "xs @ (c, Some c, None) # ys"
  have ok: "chans_ok n ?C (ex_tasks x)" and conn: "\<And>y. y \<in> set ?C \<Longrightarrow> conn_ok items x y"
    using inv unfolding exec_inv_def by blast+
  note less = chans_less [OF ok]
  have c: "items (ex_bytes x c) = []" "c \<notin> task_relay ` set (ex_tasks x)" using conn [of "(c, Some c, None)"] by simp_all
  have new: "served items x' c l"
    unfolding served_def
  proof (intro conjI ballI impI)
    fix t'
    assume "t' \<in> set (ex_tasks x')" and or: "task_rx t' = Some (lease_sender l) \<or> task_relay t' = c"
    then consider "t' \<in> set (ex_tasks x)" | "t' = t" using x' by auto
    then show "task_of t' l c"
    proof cases
      case 1
      with less(4) [of t' n] c(2) or t(3) show ?thesis by auto
    qed (use t in simp)
  next
    have "c \<noteq> n" using less(1) [of c "Some c" None] by auto
    then have "items (ex_bytes x' c) = []" using x' c by simp
    then show "[] \<in> set (items (ex_bytes x' c)) \<Longrightarrow> \<not> is_bind l"
      and "[] \<in> set (items (ex_bytes x' c)) \<Longrightarrow> c \<notin> task_relay ` set (ex_tasks x')" by simp_all
  qed (use t x' in auto)
  have old: "conn_ok items x' y" if y: "y \<in> set xs \<union> set ys" for y
  proof -
    obtain c' r' l' where [simp]: "y = (c', r', l')" by (cases y)
    have mem: "(c', r', l') \<in> set ?C" using y by auto
    have neq: "c' \<noteq> c" using chans_ok_others [OF ok] y by simp
    have "conn_ok items x (c', r', l')" using conn mem by blast
    moreover have "items (ex_bytes x' c') = items (ex_bytes x c')" using x'(2) [of c'] less(1) [OF mem] by simp
    moreover have "n \<noteq> lease_sender l2" if "l' = Some l2" for l2 using less(2) [of c' r' l2] mem that by auto
    ultimately show ?thesis using neq t(1,2) x'(1) by (cases l') (auto simp: served_def)
  qed
  from old new chans_ok_spawn [where r' = None, OF ok c(2) t(1-3)] x' show ?thesis by (auto simp: exec_inv_def)
qed

section \<open>Acts keep the invariant\<close>

lemma service_bind_Ok:
  assumes "world_inv w" and "service_bind E pc port c w = (w', es, Ok l)"
  obtains k where "l = BindLease \<lparr>bind_key = k, bind_egress = next_chan w\<rparr>" "es = [SpawnTranslate k (next_chan w) c]"
    "next_chan w' = next_chan w + 1" "route_map w k = None" "route_map w' = (route_map w)(k \<mapsto> c)"
proof -
  obtain k where k: "l = BindLease \<lparr>bind_key = k, bind_egress = next_chan w\<rparr>" "es = [SpawnTranslate k (next_chan w) c]"
    "next_chan w' = next_chan w + 1"
    using assms(2) by (auto simp: service_bind_def network_bind_def Let_def split: if_splits option.splits)
  moreover from service_bind_routes [OF assms] obtain k' where
    "route_map w k' = None" "route_map w' = (route_map w)(k' \<mapsto> c)" "owned c (Some l) = Some (k', c)" by metis
  ultimately show thesis using that by (simp add: owned_def)
qed

lemma service_route_done:
  assumes "service_route addr c w = (w', es, Ok l)"
  shows "w' = w\<lparr>next_chan := next_chan w + 1\<rparr> \<and>
    (es = [SpawnConnect (next_chan w) c] \<and> l = ConnectLease \<lparr>connect_transmit = next_chan w\<rparr> \<or>
     es = [SpawnDns (next_chan w) c] \<and> l = DnsLease \<lparr>dns_transmit = next_chan w\<rparr>)"
  using assms by (auto simp: service_route_def split: if_splits)

lemma service_assign_next:
  "service_assign G E w = Some (ap, w') \<Longrightarrow> next_chan w' = next_chan w"
  by (auto simp: service_assign_def split: option.splits prod.splits)

lemma drop_lease_next [simp]: "next_chan (fst (drop_lease E l w)) = next_chan w"
  by (simp add: drop_lease_def case_prod_beta split: option.split)

lemma drop_lease_effects: "drop_lease E l w = (w', es) \<Longrightarrow> carry_out_all Q U es x = x"
  by (auto simp: drop_lease_def lease_drop_def carry_out_all_def split: option.splits prod.splits)

lemma carry_out_all_simps [simp]:
  "carry_out_all Q U [] x = x" "carry_out_all Q U (e # es) x = carry_out_all Q U es (carry_out Q U e x)"
  "carry_out_all Q U (es @ es') x = carry_out_all Q U es' (carry_out_all Q U es x)"
  by (simp_all add: carry_out_all_def)

lemma executor_simps [simp]:
  "ex_tasks (set_bytes c q x) = ex_tasks x" "ex_tasks (set_udp c p x) = ex_tasks x"
  "ex_tasks (add_task t x) = ex_tasks x @ [t]"
  "ex_bytes (set_bytes c q x) = (ex_bytes x)(c := q)" "ex_bytes (set_udp c p x) = ex_bytes x"
  "ex_bytes (add_task t x) = ex_bytes x" "ex_bytes (replace_task j t x) = ex_bytes x"
  "ex_bytes (remove_task j x) = ex_bytes x"
  "ex_udp (set_bytes c q x) = ex_udp x" "ex_udp (set_udp c p x) = (ex_udp x)(c := p)"
  "ex_udp (add_task t x) = ex_udp x" "ex_udp (replace_task j t x) = ex_udp x" "ex_udp (remove_task j x) = ex_udp x"
  by (simp_all add: set_bytes_def set_udp_def add_task_def replace_task_def remove_task_def)

lemma encode_not_Nil: "buf B \<Longrightarrow> frame_encode B f = Ok raw \<Longrightarrow> raw \<noteq> []"
  using buf.encode_length [of B f raw] by (auto simp: HEADER_LEN_def)

lemma lease_send_effects:
  assumes "buf B" and "lease_send B E l d s = (es, res)"
  obtains "es = []" | k c f where "is_bind l" "hm_get (routes s) k = Some c" "f \<noteq> []" "es = [Send c f]"
  | peer d' where "es = [Egress (lease_sender l) peer d']" | "\<not> is_bind l" "es = [Send (lease_sender l) d]"
proof (cases l)
  case (BindLease h)
  with assms(2) have "es = [] \<or> (\<exists>k c f. hm_get (routes s) k = Some c \<and> (\<exists>g. frame_encode B g = Ok f) \<and> es = [Send c f]) \<or>
      (\<exists>peer d'. es = [Egress (lease_sender l) peer d'])"
    by (auto simp: bind_send_def network_deliver_def egress_send_def chan_send_def Let_def
        split: sum.splits ip_addr.splits if_splits option.splits) metis+
  with that encode_not_Nil [OF assms(1)] BindLease show thesis by (metis is_bind.simps(1))
qed (use assms that in \<open>auto simp: connect_send_def dns_send_def chan_send_def split: if_splits\<close>)

text \<open>A message put on a channel, if it is one that a session reads.\<close>

lemma exec_inv_push:
  assumes Q: "mpsc Q items" and inv: "exec_inv items n C x"
    and c: "\<And>r l. (c, r, l) \<in> set C \<Longrightarrow> r = None \<and> (\<forall>l'. l = Some l' \<longrightarrow> d = [] \<longrightarrow>
      \<not> is_bind l' \<and> c \<notin> task_relay ` set (ex_tasks x))"
  shows "exec_inv items n C (set_bytes c (mpsc_push Q d (ex_bytes x c)) x)"
  by (rule exec_inv_queues [OF inv]) (use c in \<open>auto simp: mpsc.items_push [OF Q]\<close>)

lemma exec_inv_udp: "exec_inv items n C x \<Longrightarrow> exec_inv items n C (set_udp c p x)"
  by (rule exec_inv_queues [where x = x]) auto

text \<open>A session holds less than before.\<close>

lemma exec_inv_less:
  assumes inv: "exec_inv items n (xs @ (c, r, l) # ys) x" and l: "l' = l \<or> l' = None" and r: "r' = None"
  shows "exec_inv items n (xs @ (c, r', l') # ys) x"
proof -
  have ok: "chans_ok n (xs @ (c, r, l) # ys) (ex_tasks x)"
    and conn: "\<And>y. y \<in> set (xs @ (c, r, l) # ys) \<Longrightarrow> conn_ok items x y"
    using inv unfolding exec_inv_def by blast+
  have "chans_ok n (xs @ (c, r', l') # ys) (ex_tasks x)"
  proof (rule chans_ok_mono [OF ok])
    fix c1 r1 l1
    assume "(c1, r1, Some l1) \<in> set (xs @ (c, r', l') # ys)"
    then have "(c1, r1, Some l1) \<in> set xs \<union> set ys \<or> Some l1 = l'" by auto
    then show "\<exists>c2 r2. (c2, r2, Some l1) \<in> set (xs @ (c, r, l) # ys)" using l by auto
  qed (use ok in \<open>auto simp: chans_ok_def\<close>)
  moreover have "conn_ok items x (c, r', l')" using conn [of "(c, r, l)"] l r by (cases l) auto
  ultimately show ?thesis using conn by (auto simp: exec_inv_def)
qed

lemma act_core:
  assumes Q: "mpsc Q items" and B: "buf B" and act: "session_act G B P c (w, r, l) es (w', r', l')"
    and inv: "core_inv items w (xs @ (c, r, l) # ys) x"
  shows "core_inv items w' (xs @ (c, r', l') # ys) (carry_out_all Q U es x)"
proof -
  let ?C = "xs @ (c, r, l) # ys"
  have w: "world_inv w" and routes: "routes_ok w ?C" and ex: "exec_inv items (next_chan w) ?C x"
    using inv by (simp_all add: core_inv_def)
  have ok: "chans_ok (next_chan w) ?C (ex_tasks x)" and conn: "\<And>y. y \<in> set ?C \<Longrightarrow> conn_ok items x y"
    using ex unfolding exec_inv_def by blast+
  have spawn: "core_inv items w' (xs @ (c, None, Some l1) # ys) x'"
    if r: "r = Some c" "l = None" and w': "world_inv w'" "next_chan w' = next_chan w + 1"
      and ro: "routes_ok w' (xs @ (c, None, Some l1) # ys)"
      and t: "task_rx t = Some (next_chan w)" "task_relay t = c" "lease_sender l1 = next_chan w" "task_of t l1 c"
      and x': "ex_tasks x' = ex_tasks x @ [t]" "\<And>c'. c' \<noteq> next_chan w \<Longrightarrow> ex_bytes x' c' = ex_bytes x c'"
    for t l1 x'
    using exec_inv_spawn [where n = "next_chan w" and l = l1 and t = t and x' = x', OF ex [unfolded r]] t x' w' ro
    by (simp add: core_inv_def)
  have others: "routes_ok w' (xs @ (c, None, Some l1) # ys)" if "route_map w' = route_map w" "l = None" for l1
    using routes that by (fastforce simp: routes_ok_def)
  from act show ?thesis
  proof cases
    case (assign E ap)
    from service_assign_inv [OF w assign(5)] service_assign_routes [OF assign(5)] service_assign_next [OF assign(5)]
    show ?thesis using inv assign by (simp add: core_inv_def routes_ok_def)
  next
    case (bind E pc port l1)
    obtain k where k: "l1 = BindLease \<lparr>bind_key = k, bind_egress = next_chan w\<rparr>" "es = [SpawnTranslate k (next_chan w) c]"
      "next_chan w' = next_chan w + 1" "route_map w' = (route_map w)(k \<mapsto> c)"
      using service_bind_Ok [OF w bind(5)] by metis
    have "routes_ok w' (xs @ (c, None, Some l1) # ys)"
      using routes bind k by (fastforce simp: routes_ok_def)
    with spawn [OF bind(1,2) service_bind_inv [OF w bind(5)], of l1 "TranslateTask (next_chan w) c translator_new" "carry_out_all Q U es x"]
    show ?thesis by (simp add: bind k)
  next
    case (route addr l1)
    from service_route_done [OF route(5)] have w': "w' = w\<lparr>next_chan := next_chan w + 1\<rparr>" by blast
    then have ro: "routes_ok w' (xs @ (c, None, Some l1) # ys)" using others route(2) by simp
    note sp = spawn [OF route(1,2) service_route_inv [OF w route(5)] _ ro]
    from service_route_done [OF route(5)] show ?thesis
      using sp [of "ConnectTask (next_chan w) c connect_new" "carry_out_all Q U es x"]
        sp [of "DnsTask (next_chan w) c" "carry_out_all Q U es x"] route by auto
  next
    case give_up
    have "exec_inv items (next_chan w) (xs @ (c, None, None) # ys) x"
      by (rule exec_inv_less [OF ex]) (simp_all add: give_up)
    with inv give_up show ?thesis by (auto simp: core_inv_def routes_ok_def)
  next
    case (lose E l1)
    have w': "w' = fst (drop_lease E (Some l1) w)" using lose(4) by simp
    have "world_inv w'" unfolding w' using w by (rule drop_lease_inv)
    moreover have r: "r = None" using conn [of "(c, r, Some l1)"] by (simp add: lose)
    have "routes_ok w' (xs @ (c, None, None) # ys)"
      unfolding routes_ok_def
    proof (intro allI impI)
      fix k c'
      assume "route_map w' k = Some c'"
      then have k: "k \<notin> fst ` set_option (owned c (Some l1))" and "route_map w k = Some c'"
        unfolding w' drop_lease_routes [OF w, of E "Some l1" c] others_routes_def by (auto simp: restrict_map_def split: if_splits)
      with routes obtain h where h: "(c', None, Some (BindLease h)) \<in> set ?C" "bind_key h = k"
        unfolding routes_ok_def by blast
      have "(c', None, Some (BindLease h)) \<noteq> (c, r, l)"
        using k h(2) by (auto simp: lose owned_def)
      with h show "\<exists>h. (c', None, Some (BindLease h)) \<in> set (xs @ (c, None, None) # ys) \<and> bind_key h = k" by auto
    qed
    moreover have "exec_inv items (next_chan w) (xs @ (c, None, None) # ys) x"
      by (rule exec_inv_less [OF ex]) simp_all
    moreover have "next_chan w' = next_chan w" by (simp add: w')
    ultimately show ?thesis
      using lose(2,3) r unfolding core_inv_def drop_lease_effects [OF lose(4)] by simp
  next
    case (send E l1 d res)
    have "exec_inv items (next_chan w) ?C (carry_out_all Q U es x)"
    proof (cases rule: lease_send_effects [OF B send(6)])
      case (2 k c' f)
      from 2(2) routes obtain h where h: "(c', None, Some (BindLease h)) \<in> set ?C"
        unfolding routes_ok_def route_map_def by blast
      have "r'' = None" if "(c', r'', l'') \<in> set ?C" for r'' l''
        using distinct_fst_eq [of ?C c' "(r'', l'')", OF _ that h] ok unfolding chans_ok_def by simp
      with 2(3) show ?thesis unfolding 2(4) by (auto intro!: exec_inv_push [OF Q ex])
    next
      case 4
      have "lease_sender l1 \<in> input_chans ?C (ex_tasks x)" unfolding input_chans_def send by force
      then have "lease_sender l1 \<notin> relay_chans ?C (ex_tasks x)" using ok unfolding chans_ok_def by blast
      then have "(lease_sender l1, r'', l'') \<notin> set ?C" for r'' l'' unfolding relay_chans_def by force
      with 4(2) exec_inv_push [OF Q ex, of "lease_sender l1" d] show ?thesis by auto
    qed (use ex exec_inv_udp [OF ex] in simp_all)
    with inv send show ?thesis by (simp add: core_inv_def)
  qed
qed

lemma acts_core:
  assumes Q: "mpsc Q items" and B: "buf B"
  shows "session_acts G B P c y es z \<Longrightarrow> core_inv items (fst y) (xs @ (c, snd y) # ys) x \<Longrightarrow>
    core_inv items (fst z) (xs @ (c, snd z) # ys) (carry_out_all Q U es x)"
proof (induction arbitrary: x rule: session_acts.induct)
  case (more y es y' es' z)
  obtain w r l w' r' l' where y: "y = (w, r, l)" "y' = (w', r', l')" by (cases y, cases y')
  from act_core [OF Q B more(1) [unfolded y]] more(4) have "core_inv items (fst y') (xs @ (c, snd y') # ys) (carry_out_all Q U es x)"
    by (simp add: y)
  from more(3) [OF this] show ?case by simp
qed simp

section \<open>The tables of ends and the slots\<close>

lemma conns_simps [simp]:
  "conns [] = []" "conns (xs @ ys) = conns xs @ conns ys"
  "conns (x # xs) = (case conn_of (slot_kind x) of None \<Rightarrow> conns xs | Some y \<Rightarrow> y # conns xs)"
  by (simp_all add: conns_def map_filter_simps split: option.split)

lemma conns_slot:
  assumes "i < length ss" and "conn_of (slot_kind (ss ! i)) = Some y"
  shows "conns ss = conns (take i ss) @ y # conns (drop (Suc i) ss)"
  using slots_split [OF assms(1)] assms(2) by (metis (no_types, lifting) conns_simps(2,3) option.simps(5))

lemma conns_replace:
  assumes "i < length ss" and "conn_of k = Some y"
  shows "conns (replace_slot i ss k) = conns (take i ss) @ y # conns (drop (Suc i) ss)"
  using assms by (simp add: replace_slot_def upd_conv_take_nth_drop)

lemma conns_remove: "conns (remove_slot i ss) = conns (take i ss) @ conns (drop (Suc i) ss)"
  by (simp add: remove_slot_def)

lemma conns_handshake:
  assumes "i < length ss" and "slot_kind (ss ! i) = Handshake"
  shows "conns ss = conns (take i ss) @ conns (drop (Suc i) ss)"
proof -
  have "conns ss = conns (take i ss) @ conns (ss ! i # drop (Suc i) ss)"
    by (subst slots_split [OF assms(1)]) (rule conns_simps(2))
  with assms(2) show ?thesis by simp
qed

lemma in_conns: "y \<in> set (conns ss) \<longleftrightarrow> (\<exists>x \<in> set ss. conn_of (slot_kind x) = Some y)"
  by (simp add: conns_def in_map_filter)

section \<open>Steps keep the invariant\<close>

lemma pollsD:
  assumes "mpsc Q items" and "polls Q b q r q'"
  shows "r = Some d \<Longrightarrow> items q = d # items q'" "r = None \<Longrightarrow> q' = q \<and> items q = [] \<and> \<not> b"
  using assms(2) mpsc.pop_Some [OF assms(1)] mpsc.pop_None [OF assms(1)]
  by (auto simp: polls_def split: option.splits)

lemma core_inv_world:
  assumes "core_inv items w C x" and "world_inv w'" and "route_map w' = route_map w" and "next_chan w' = next_chan w"
  shows "core_inv items w' C x"
  using assms by (simp add: core_inv_def routes_ok_def)

lemma core_inv_new:
  assumes Q: "mpsc Q items" and inv: "core_inv items w (xs @ ys) x" and n: "n = next_chan w"
  shows "core_inv items (w\<lparr>next_chan := n + 1\<rparr>) (xs @ (n, Some n, None) # ys) (set_bytes n (mpsc_new Q) x)"
proof -
  have ok: "chans_ok n (xs @ ys) (ex_tasks x)" and conn: "\<And>y. y \<in> set (xs @ ys) \<Longrightarrow> conn_ok items x y"
    using inv n unfolding core_inv_def exec_inv_def by auto
  note less = chans_less [OF ok]
  have fresh: "n \<notin> fst ` set (xs @ ys)" using less(1) by force
  have task: "n \<notin> task_relay ` set (ex_tasks x)" using less(3) by force
  have rel: "relay_chans (xs @ (n, Some n, None) # ys) (ex_tasks x) = insert n (relay_chans (xs @ ys) (ex_tasks x))"
    by (auto simp: relay_chans_def)
  have inp: "input_chans (xs @ (n, Some n, None) # ys) (ex_tasks x) = input_chans (xs @ ys) (ex_tasks x)"
    by (auto simp: input_chans_def)
  have "n \<notin> input_chans (xs @ ys) (ex_tasks x)" using ok by (auto simp: chans_ok_def)
  with ok fresh have "chans_ok (n + 1) (xs @ (n, Some n, None) # ys) (ex_tasks x)"
    unfolding chans_ok_def rel inp by (auto simp: less_Suc_eq image_Un)
  moreover have "conn_ok items (set_bytes n (mpsc_new Q) x) y" if y: "y \<in> set (xs @ ys)" for y
  proof -
    obtain c r l where [simp]: "y = (c, r, l)" by (cases y)
    have "c \<noteq> n" using less(1) [of c r l] y by auto
    with conn [OF y] show ?thesis by (cases l) (auto simp: served_def)
  qed
  moreover have "conn_ok items (set_bytes n (mpsc_new Q) x) (n, Some n, None)"
    using task by (simp add: mpsc.items_new [OF Q])
  ultimately have "exec_inv items (n + 1) (xs @ (n, Some n, None) # ys) (set_bytes n (mpsc_new Q) x)"
    by (auto simp: exec_inv_def)
  moreover have "routes_ok (w\<lparr>next_chan := n + 1\<rparr>) (xs @ (n, Some n, None) # ys)"
    using inv by (auto simp: core_inv_def routes_ok_def)
  ultimately show ?thesis using inv by (simp add: core_inv_def world_simps)
qed

lemma core_inv_gone:
  assumes "core_inv items w (xs @ (c, r, None) # ys) x"
  shows "core_inv items w (xs @ ys) x"
proof -
  have ok: "chans_ok (next_chan w) (xs @ (c, r, None) # ys) (ex_tasks x)"
    using assms unfolding core_inv_def exec_inv_def by blast
  have "chans_ok (next_chan w) (xs @ ys) (ex_tasks x)"
    by (rule chans_ok_mono [OF ok]) (use ok in \<open>auto simp: chans_ok_def\<close>)
  then show ?thesis using assms by (auto simp: core_inv_def routes_ok_def exec_inv_def)
qed

text \<open>A session reads its relay: only if it has given its sender away.\<close>

lemma core_inv_read:
  assumes Q: "mpsc Q items" and inv: "core_inv items w (xs @ (c, r, l) # ys) x"
    and q: "q = ex_bytes x c \<or> items (ex_bytes x c) = d # items q"
  shows "core_inv items w (xs @ (c, r, l) # ys) (set_bytes c q x)"
proof -
  let ?C = "xs @ (c, r, l) # ys"
  have ex: "exec_inv items (next_chan w) ?C x" using inv by (simp add: core_inv_def)
  have conn: "conn_ok items x (c, r, l)" and d: "distinct (map fst ?C)"
    using ex unfolding exec_inv_def chans_ok_def by auto
  have "exec_inv items (next_chan w) ?C (set_bytes c q x)"
  proof (rule exec_inv_queues [OF ex])
    fix c' r' l'
    assume m: "(c', r', l') \<in> set ?C"
    show "items (ex_bytes (set_bytes c q x) c') = items (ex_bytes x c') \<or>
      r' = None \<and> (\<forall>l2. l' = Some l2 \<longrightarrow> [] \<in> set (items (ex_bytes (set_bytes c q x) c')) \<longrightarrow>
        [] \<in> set (items (ex_bytes x c')) \<or> \<not> is_bind l2 \<and> c' \<notin> task_relay ` set (ex_tasks x))"
    proof (cases "c' = c \<and> q \<noteq> ex_bytes x c")
      case True
      have "(r', l') = (r, l)"
        by (rule distinct_fst_eq [OF d, of c]) (use m True in simp_all)
      with q True conn show ?thesis by (cases l) auto
    qed auto
  qed simp
  with inv show ?thesis by (simp add: core_inv_def)
qed

text \<open>A turn of a session, and one that is its last.\<close>

lemma ready_read:
  assumes Q: "mpsc Q items"
  shows "ws_ready Q s c ev q \<Longrightarrow> \<exists>d. q = ex_bytes (rt_exec s) c \<or> items (ex_bytes (rt_exec s) c) = d # items q"
    and "wt_ready Q s c ev' q \<Longrightarrow> \<exists>d. q = ex_bytes (rt_exec s) c \<or> items (ex_bytes (rt_exec s) c) = d # items q"
proof -
  have p: "polls Q b q0 r q \<Longrightarrow> \<exists>d. q = q0 \<or> items q0 = d # items q" for b q0 r
    using pollsD [OF Q, of b q0 r q] by (cases r) auto
  show "ws_ready Q s c ev q \<Longrightarrow> \<exists>d. q = ex_bytes (rt_exec s) c \<or> items (ex_bytes (rt_exec s) c) = d # items q"
    by (cases ev) (auto dest: p)
  show "wt_ready Q s c ev' q \<Longrightarrow> \<exists>d. q = ex_bytes (rt_exec s) c \<or> items (ex_bytes (rt_exec s) c) = d # items q"
    by (cases ev') (auto dest: p)
qed

lemma turn_core:
  assumes Q: "mpsc Q items" and B: "buf B" and inv: "core_inv items w (conns ss) x"
    and i: "i < length ss" and k: "conn_of (slot_kind (ss ! i)) = Some (c, r, l)"
    and q: "\<exists>d. q = ex_bytes x c \<or> items (ex_bytes x c) = d # items q"
    and acts: "session_acts G B P c (w, r, l) es (w', r', l')"
  shows "core_inv items w' (conns (take i ss) @ (c, r', l') # conns (drop (Suc i) ss))
    (carry_out_all Q U es (set_bytes c q x))"
proof -
  have "core_inv items w (conns (take i ss) @ (c, r, l) # conns (drop (Suc i) ss)) (set_bytes c q x)"
    using q inv unfolding conns_slot [OF i k] by (auto intro: core_inv_read [OF Q])
  with acts_core [OF Q B acts, of "conns (take i ss)" "conns (drop (Suc i) ss)" "set_bytes c q x"]
  show ?thesis by simp
qed

lemma session_end_core:
  assumes Q: "mpsc Q items" and B: "buf B"
    and inv: "core_inv items w (xs @ (c, r, l) # ys) x"
    and fin: "session_end E client l res w = (w', es)"
  shows "core_inv items w' (xs @ ys) (carry_out_all Q U es x)"
proof -
  obtain w1 where w1: "world_inv w1" "route_map w1 = route_map w" "next_chan w1 = next_chan w" "drop_lease E l w1 = (w', es)"
  proof (cases "\<exists>e. res = Err e \<and> unwinds e")
    case True
    with fin inv that [of w] show thesis by (auto simp: session_end_def core_inv_def)
  next
    case False
    let ?w = "fst (service_remove_client client w)"
    have "world_inv ?w" using remove_client_inv [of w client] inv by (simp add: core_inv_def)
    moreover have "route_map ?w = route_map w" "next_chan ?w = next_chan w"
      by (simp_all add: service_remove_client_def route_map_def split: option.split)
    moreover have "drop_lease E l ?w = (w', es)"
      using False fin unfolding session_end_def by (cases res) auto
    ultimately show thesis by (rule that)
  qed
  from core_inv_world [OF inv w1(1-3)]
  have "core_inv items w' (xs @ (c, r, None) # ys) (carry_out_all Q U es x)"
    using acts_core [where xs = xs and ys = ys and x = x, OF Q B drop_lease_acts [OF w1(4)]] by simp
  then show ?thesis by (rule core_inv_gone)
qed

lemma kind_relay:
  assumes "sys_inv s" and "i < length (sys_slots s)" and "conn_of (slot_kind (sys_slots s ! i)) = Some (c, r, l)"
  shows "r = None \<or> r = Some c" "l = None \<longleftrightarrow> r \<noteq> None"
  using sys_slot(1) [OF assms(1,2)] assms(3)
  by (cases "slot_kind (sys_slots s ! i)"; auto simp: ws_inv_def wt_inv_def wt_core_def)+

text \<open>Nothing comes out of the relay of a session that has no lease: what the steps of the system assume.\<close>

lemma idle_relay:
  assumes Q: "mpsc Q items" and inv: "rt_inv items s" and i: "i < length (rt_slots s)"
    and k: "conn_of (slot_kind (rt_slots s ! i)) = Some (c, r, l)"
    and polls: "polls Q (has_sender s c) (ex_bytes (rt_exec s) c) d q"
  shows "l \<noteq> None" "r = None"
proof -
  have mem: "(c, r, l) \<in> set (conns (rt_slots s))" using conns_slot [OF i k] by simp
  have sys: "sys_inv (rt_sys s)" using inv by (simp add: rt_inv_def)
  have ok: "conn_ok items (rt_exec s) (c, r, l)" using inv mem unfolding rt_inv_def core_inv_def exec_inv_def by blast
  have "r = None"
  proof (rule ccontr)
    assume "r \<noteq> None"
    with kind_relay [OF sys i k] have r: "r = Some c" "l = None" by auto
    then have "has_sender s c" using mem unfolding has_sender_def by force
    with pollsD [OF Q polls] ok r show False by (cases d) auto
  qed
  with kind_relay [OF sys i k] show "l \<noteq> None" "r = None" by auto
qed

section \<open>The steps of the tasks\<close>

lemma translate_relays:
  assumes "buf B" and "translate_turn B E relay st ev = (as, res)"
  obtains "relays as = []" | f where "f \<noteq> []" "relays as = [Send relay f]"
proof -
  have "relays as = [] \<or> (\<exists>f g. frame_encode B g = Ok f \<and> relays as = [Send relay f])"
    using assms(2)
    by (cases "(B, E, relay, st, ev)" rule: translate_turn.cases)
      (auto simp: relay_reply_def chan_send_def Let_def split: option.splits if_splits sum.splits prod.splits)
  with that encode_not_Nil [OF assms(1)] show thesis by metis
qed

lemma success_reply_not_Nil: "SUCCESS_REPLY \<noteq> []"
  by (simp add: SUCCESS_REPLY_def bytes_of_def)

lemma connect_relays:
  assumes "connect_turn hosts E relay st ev = (as, res)"
  obtains "to_client as = []" | f where "f \<noteq> []" "to_client as = [Send relay f]"
  using assms success_reply_not_Nil
  by (cases "(hosts, E, relay, st, ev)" rule: connect_turn.cases)
    (auto simp: relay_to_client_def establish_def chan_send_def Let_def split: option.splits if_splits sum.splits prod.splits)

lemma connect_end_relays:
  assumes "connect_turn hosts E relay st ev = (as, res)" and "\<And>st'. res \<noteq> Ok (Some st')"
  shows "to_client as = []"
  using assms
  by (cases "(hosts, E, relay, st, ev)" rule: connect_turn.cases)
    (auto simp: relay_to_client_def establish_def chan_send_def Let_def split: option.splits if_splits sum.splits prod.splits)

lemma dns_relays:
  assumes "dns_run lookup relay [(E, r)] = (es, res)"
  obtains "es = []" | f where "f \<noteq> []" "es = [Send relay f]" "res = Ok Waiting"
  using assms by (cases r) (auto simp: chan_send_def handle_query_def dns_encode_def Let_def split: if_splits sum.splits prod.splits)

lemma tasks_split: "j < length ts \<Longrightarrow> ts ! j = t \<Longrightarrow> ts = take j ts @ t # drop (Suc j) ts"
  using id_take_nth_drop by blast

lemma remove_task_eq: "remove_task j x = x\<lparr>ex_tasks := take j (ex_tasks x) @ drop (Suc j) (ex_tasks x)\<rparr>"
  by (simp add: remove_task_def)

text \<open>The relay of a task that has not ended is read by a session that has given its sender away.\<close>

lemma conn_of_task:
  assumes inv: "exec_inv items n C x" and t: "t \<in> set (ex_tasks x)" and c: "(c, r, l) \<in> set C"
  shows "task_relay t = c \<Longrightarrow> r = None" "task_relay t = c \<Longrightarrow> l = Some l' \<Longrightarrow> task_of t l' c"
    "l = Some l' \<Longrightarrow> task_rx t = Some (lease_sender l') \<Longrightarrow> task_of t l' c"
proof -
  have "conn_ok items x (c, r, l)" using inv c unfolding exec_inv_def by blast
  then show "task_relay t = c \<Longrightarrow> r = None" "task_relay t = c \<Longrightarrow> l = Some l' \<Longrightarrow> task_of t l' c"
    "l = Some l' \<Longrightarrow> task_rx t = Some (lease_sender l') \<Longrightarrow> task_of t l' c"
    using t by (cases l; auto simp: served_def)+
qed

lemma exec_inv_relay:
  assumes Q: "mpsc Q items" and inv: "exec_inv items n C x" and t: "t \<in> set (ex_tasks x)" and f: "f \<noteq> []"
  shows "exec_inv items n C (set_bytes (task_relay t) (mpsc_push Q f (ex_bytes x (task_relay t))) x)"
  by (rule exec_inv_push [OF Q inv]) (use conn_of_task(1) [OF inv t] f in auto)

text \<open>The channel of a task is no session's relay: it may be read.\<close>

lemma exec_inv_input:
  assumes inv: "exec_inv items n C x" and t: "t \<in> set (ex_tasks x)" and rx: "task_rx t = Some rx"
  shows "exec_inv items n C (set_bytes rx q x)"
proof (rule exec_inv_queues [OF inv])
  fix c r l
  assume c: "(c, r, l) \<in> set C"
  have "rx \<in> input_chans C (ex_tasks x)" unfolding input_chans_def using t rx by blast
  moreover have "c \<in> relay_chans C (ex_tasks x)" unfolding relay_chans_def using c by force
  ultimately have "c \<noteq> rx" using inv unfolding exec_inv_def chans_ok_def by blast
  then show "items (ex_bytes (set_bytes rx q x) c) = items (ex_bytes x c) \<or>
    r = None \<and> (\<forall>l'. l = Some l' \<longrightarrow> [] \<in> set (items (ex_bytes (set_bytes rx q x) c)) \<longrightarrow>
      [] \<in> set (items (ex_bytes x c)) \<or> \<not> is_bind l' \<and> c \<notin> task_relay ` set (ex_tasks x))" by simp
qed simp

text \<open>A task at its place in the list goes on, ends, or fails.\<close>

definition service_task :: "task \<Rightarrow> bool" where
  "service_task t = (\<forall>l c. task_of t l c \<longrightarrow> \<not> is_bind l)"

lemma service_task_simps [simp]:
  "service_task (ConnectTask rx relay st)" "service_task (DnsTask rx relay)" "service_task (FailedTask relay)"
  by (auto simp: service_task_def)

lemma task_goes_on:
  assumes inv: "exec_inv items n C x" and j: "j < length (ex_tasks x)"
    and same: "task_rx t = task_rx (ex_tasks x ! j)" "task_relay t = task_relay (ex_tasks x ! j)"
      "\<And>l c. task_of (ex_tasks x ! j) l c \<Longrightarrow> task_of t l c"
  shows "exec_inv items n C (replace_task j t x)" "t \<in> set (ex_tasks (replace_task j t x))"
  using exec_inv_replace [OF inv tasks_split [OF j refl] same] by (simp_all add: replace_task_def)

lemma task_ends:
  assumes inv: "exec_inv items n C x" and j: "j < length (ex_tasks x)"
    and free: "service_task (ex_tasks x ! j) \<or> (\<forall>c r l. (c, r, Some l) \<in> set C \<longrightarrow> is_bind l \<longrightarrow>
      task_rx (ex_tasks x ! j) \<noteq> Some (lease_sender l))"
  shows "exec_inv items n C (remove_task j x)"
proof -
  have t: "ex_tasks x ! j \<in> set (ex_tasks x)" using j by simp
  have "task_rx (ex_tasks x ! j) \<noteq> Some (lease_sender l)" if "(c, r, Some l) \<in> set C" "is_bind l" for c r l
    using free that conn_of_task(3) [OF inv t that(1)] unfolding service_task_def by blast
  from exec_inv_remove [OF inv tasks_split [OF j refl] this] show ?thesis by (simp add: remove_task_def)
qed

lemma task_fails:
  assumes inv: "exec_inv items n C x" and j: "j < length (ex_tasks x)"
    and t: "service_task (ex_tasks x ! j)" "task_rx (ex_tasks x ! j) \<noteq> None"
  shows "exec_inv items n C (replace_task j (FailedTask (task_relay (ex_tasks x ! j))) x)"
  using exec_inv_fail [OF inv tasks_split [OF j refl] refl _ t(2)] t(1)
  unfolding replace_task_def service_task_def by blast

text \<open>What a task sends to its client, if anything, is not empty.\<close>

definition relayed_ok :: "chan \<Rightarrow> effect list \<Rightarrow> bool" where
  "relayed_ok relay es = (es = [] \<or> (\<exists>f. f \<noteq> [] \<and> es = [Send relay f]))"

lemma relayed_ok_turns:
  "buf B \<Longrightarrow> translate_turn B E relay st ev = (as, res) \<Longrightarrow> relayed_ok relay (relays as)"
  "connect_turn hosts E relay cst cev = (as', res') \<Longrightarrow> relayed_ok relay (to_client as')"
  "dns_run lookup relay [(E, r)] = (es, dres) \<Longrightarrow> relayed_ok relay es"
  using translate_relays connect_relays dns_relays unfolding relayed_ok_def by metis+

lemma exec_inv_relayed:
  assumes Q: "mpsc Q items" and inv: "exec_inv items n C x" and t: "t \<in> set (ex_tasks x)"
    and es: "relayed_ok (task_relay t) es"
  shows "exec_inv items n C (carry_out_all Q U es x)"
  using es inv exec_inv_relay [OF Q inv t] by (auto simp: relayed_ok_def)

text \<open>The end of a translator is the end of its lease, or of its session.\<close>

lemma translate_end_relays:
  assumes "translate_turn B E relay st ev = (as, res)" and "\<forall>st'. res \<noteq> Ok (Some st')"
  shows "relays as = []"
  using assms by (cases "(B, E, relay, st, ev)" rule: translate_turn.cases)
    (auto simp: relay_reply_def chan_send_def Let_def split: option.splits if_splits sum.splits prod.splits)

text \<open>The last message of a task that has failed: the session is woken, and no task is left that it could be.\<close>

lemma report_core:
  assumes Q: "mpsc Q items" and inv: "exec_inv items n C x" and j: "j < length (ex_tasks x)"
    and t: "ex_tasks x ! j = FailedTask relay"
  shows "exec_inv items n C (set_bytes relay (mpsc_push Q [] (ex_bytes x relay)) (remove_task j x))"
proof -
  have mem: "FailedTask relay \<in> set (ex_tasks x)" using j t by (metis nth_mem)
  have rem: "exec_inv items n C (remove_task j x)" by (rule task_ends [OF inv j]) (simp add: t)
  have "distinct (map task_relay (take j (ex_tasks x) @ FailedTask relay # drop (Suc j) (ex_tasks x)))"
    using inv tasks_split [OF j t] unfolding exec_inv_def chans_ok_def by metis
  then have gone: "relay \<notin> task_relay ` set (ex_tasks (remove_task j x))" by (auto simp: remove_task_def)
  have "exec_inv items n C (set_bytes relay (mpsc_push Q [] (ex_bytes (remove_task j x) relay)) (remove_task j x))"
    by (rule exec_inv_push [OF Q rem]) (use conn_of_task(1,2) [OF inv mem] gone in force)
  then show ?thesis by simp
qed

lemma translate_end:
  assumes Q: "mpsc U uitems" and inv: "exec_inv items n (conns (rt_slots s)) (rt_exec s)"
    and t: "TranslateTask rx relay st \<in> set (rt_tasks s)" and sees: "sees s E" and ev: "udp_event_ok ev" "udp_ready U s rx ev q"
    and turn: "translate_turn B E relay st ev = (as, res)" and res: "\<forall>st'. res \<noteq> Ok (Some st')"
    and c: "(c, r, Some l) \<in> set (conns (rt_slots s))" and bound: "is_bind l"
  shows "lease_sender l \<noteq> rx"
proof
  assume rx: "lease_sender l = rx"
  have sender: "has_sender s rx" using c rx unfolding has_sender_def by force
  have "task_of (TranslateTask rx relay st) l c" using conn_of_task(3) [OF inv t c] rx by simp
  then have "has_receiver s relay" using c unfolding has_receiver_def by force
  then have send: "send_ok E relay" using sees by (simp add: sees_def)
  show False
  proof (cases ev)
    case (Outgoing r opens)
    with turn res have "r = None" by (cases r) (auto simp: Let_def split: if_splits)
    with ev(2) Outgoing pollsD(2) [OF Q] sender show False by auto
  next
    case (Received fam r bs)
    with turn res send ev(1) show False
      by (auto simp: relay_reply_def chan_send_def split: option.splits if_splits sum.splits prod.splits bool.splits)
  qed
qed

lemma task_step_core:
  assumes Q: "mpsc Q items" and U: "mpsc U uitems" and B: "buf B"
    and inv: "exec_inv items n (conns (rt_slots s)) (rt_exec s)"
    and step: "task_step B Q U hosts s x"
  shows "exec_inv items n (conns (rt_slots s)) x"
  using step
proof cases
  case (translates j rx relay st ev q E as st')
  let ?x = "set_udp rx q (rt_exec s)"
  from task_goes_on [where j = j and t = "TranslateTask rx relay st'", OF exec_inv_udp [OF inv, of rx q]] translates(2,3)
  show ?thesis
    unfolding translates(1)
    by (intro exec_inv_relayed [OF Q, where t = "TranslateTask rx relay st'"])
      (simp_all add: relayed_ok_turns(1) [OF B translates(8)])
next
  case (translate_ends j rx relay st ev q E as res)
  have t: "TranslateTask rx relay st \<in> set (rt_tasks s)" using translate_ends(2,3) by (metis nth_mem)
  note fin = translate_end [OF U inv t translate_ends(7,5,6,8,9)]
  from task_ends [where j = j, OF exec_inv_udp [OF inv, of rx q]] translate_ends(2,3) fin
  show ?thesis unfolding translate_ends(1) translate_end_relays [OF translate_ends(8,9)] by fastforce
next
  case (connects j rx relay st ev q E as st')
  have t: "ConnectTask rx relay st \<in> set (rt_tasks s)" using connects(2,3) by (metis nth_mem)
  from task_goes_on [where j = j and t = "ConnectTask rx relay st'", OF exec_inv_input [OF inv t, of rx q]] connects(2,3)
  show ?thesis
    unfolding connects(1)
    by (intro exec_inv_relayed [OF Q, where t = "ConnectTask rx relay st'"])
      (simp_all add: relayed_ok_turns(2) [OF connects(7)])
next
  case (connect_returns j rx relay st ev q E as)
  have t: "ConnectTask rx relay st \<in> set (rt_tasks s)" using connect_returns(2,3) by (metis nth_mem)
  from task_ends [where j = j, OF exec_inv_input [OF inv t, of rx q]] connect_returns(2,3) connect_end_relays [OF connect_returns(7)]
  show ?thesis unfolding connect_returns(1) by simp
next
  case (connect_fails j rx relay st ev q E as e)
  have t: "ConnectTask rx relay st \<in> set (rt_tasks s)" using connect_fails(2,3) by (metis nth_mem)
  from task_fails [where j = j, OF exec_inv_input [OF inv t, of rx q]] connect_fails(2,3) connect_end_relays [OF connect_fails(7)]
  show ?thesis unfolding connect_fails(1) by simp
next
  case (dns_answers j rx relay r q E lookup es)
  have t: "DnsTask rx relay \<in> set (rt_tasks s)" using dns_answers(2,3) by (metis nth_mem)
  show ?thesis
    unfolding dns_answers(1)
    by (rule exec_inv_relayed [OF Q exec_inv_input [OF inv t], where t = "DnsTask rx relay"])
      (simp_all add: t relayed_ok_turns(3) [OF dns_answers(6)])
next
  case (dns_returns j rx relay r q E lookup es)
  have t: "DnsTask rx relay \<in> set (rt_tasks s)" using dns_returns(2,3) by (metis nth_mem)
  have "es = []" using dns_relays [OF dns_returns(6)] by auto
  with task_ends [where j = j, OF exec_inv_input [OF inv t, of rx q]] dns_returns(2,3) show ?thesis
    unfolding dns_returns(1) by simp
next
  case (dns_fails j rx relay r q E lookup es e)
  have t: "DnsTask rx relay \<in> set (rt_tasks s)" using dns_fails(2,3) by (metis nth_mem)
  have "es = []" using dns_relays [OF dns_fails(6)] by auto
  with task_fails [where j = j, OF exec_inv_input [OF inv t, of rx q]] dns_fails(2,3) show ?thesis
    unfolding dns_fails(1) by simp
next
  case (reports j relay E)
  with report_core [OF Q inv reports(2,3)] task_ends [OF inv reports(2)] show ?thesis by (simp add: chan_send_def)
qed

end
