(* ===== verification/Runtime_Props.thy ===== *)
theory Runtime_Props
  imports Runtime_Inv
begin

text \<open>
  Every step of the runtime keeps its invariant and is a step of the system, or none that the system
  sees. What follows for the tasks and the channels: tasks are the tasks of the leases, a bound port
  does not break, a session is told when its service is gone, and no task outlives its session
  for long.
\<close>

section \<open>The runtime refines the system\<close>

lemma rt_inv_new: "mpsc Q items \<Longrightarrow> rt_inv items (rt_new Q U g)"
  using sys_inv_new [of g]
  by (simp add: rt_inv_def rt_new_def core_inv_def exec_inv_def chans_ok_def routes_ok_def relay_chans_def input_chans_def
      sys_new_def world_inv_new map_filter_simps)
    (simp add: route_map_def world_new_def service_new_def network_new_def)

lemma wt_ready_ok:
  assumes Q: "mpsc Q items" and inv: "rt_inv items s" and i: "i < length (rt_slots s)"
    and k: "slot_kind (rt_slots s ! i) = OnWebTransport c st"
    and ev: "wt_enabled st ev" "wt_outside_ok st ev" "wt_ready Q s c ev q"
  shows "wt_event_ok st ev"
proof (cases ev)
  case (WtRelay r)
  with idle_relay(1) [OF Q inv i, of c "wt_relay st" "wt_lease st" r q] ev(3) k show ?thesis by simp
next
  case (FillBuf r)
  with ev show ?thesis by (cases r) simp_all
next
  case (AcceptBi r)
  with ev show ?thesis by (cases r) simp_all
next
  case (AcceptUni r)
  with ev show ?thesis by (cases r) simp_all
next
  case (ReadDatagram r)
  with ev show ?thesis by (cases r) simp_all
qed

lemma rt_step_sys:
  assumes Q: "mpsc Q items" and inv: "rt_inv items s" and step: "rt_step G B Q U hosts s t"
  shows "rt_sys t = rt_sys s \<or> sys_step G B (rt_sys s) (rt_sys t)"
  using step
proof cases
  case (gone_ws peer w e)
  then show ?thesis by (auto intro: sys_step.gone_ws)
next
  case (accept_ws peer w h)
  then show ?thesis by (auto intro: sys_step.accept_ws)
next
  case (handshake_ws i secure tls upgrade c)
  with sys_step.handshake_ws [OF handshake_ws(2-5)] show ?thesis by simp
next
  case (handshake_fails i secure tls upgrade e E w es)
  then show ?thesis by (auto intro: sys_step.handshake_fails)
next
  case (accept_wt remote w h c)
  with sys_step.accept_wt [OF accept_wt(2-4)] show ?thesis by simp
next
  case (ws_goes_on i c st ev q E W w st' as)
  then show ?thesis by (auto intro: sys_step.ws_goes_on)
next
  case (ws_ends i c st ev q E W w st' as res E' w' es)
  then show ?thesis by (auto intro: sys_step.ws_ends)
next
  case (wt_goes_on i c st ev q T W w st' as)
  with wt_ready_ok [OF Q inv wt_goes_on(2-6)] show ?thesis by (auto intro: sys_step.wt_goes_on)
next
  case (wt_ends i c st ev q T W w st' as e E' w' es)
  with wt_ready_ok [OF Q inv wt_ends(2-6)] show ?thesis by (auto intro: sys_step.wt_ends)
qed simp

lemma core_of_exec:
  "core_inv items w C x \<Longrightarrow> exec_inv items (next_chan w) C x' \<Longrightarrow> core_inv items w C x'"
  by (simp add: core_inv_def)

lemma new_client_core:
  assumes "core_inv items w C x" and "service_new_client remote w = (w', h)"
  shows "core_inv items w' C x" "next_chan w' = next_chan w"
proof -
  have "world_inv w'" using new_client_inv [of w remote] assms by (simp add: core_inv_def)
  moreover have "route_map w' = route_map w" "next_chan w' = next_chan w"
    using assms(2) by (auto simp: service_new_client_def client_new_def route_map_def)
  ultimately show "core_inv items w' C x" "next_chan w' = next_chan w"
    using core_inv_world [OF assms(1)] by auto
qed

theorem rt_step_inv:
  assumes Q: "mpsc Q items" and U: "mpsc U uitems" and B: "buf B"
    and inv: "rt_inv items s" and step: "rt_step G B Q U hosts s t"
  shows "rt_inv items t"
proof -
  have sys: "sys_inv (rt_sys s)" and core: "core_inv items (rt_world s) (conns (rt_slots s)) (rt_exec s)"
    using inv by (simp_all add: rt_inv_def)
  note relay = kind_relay(1) [OF sys]
  have "sys_inv (rt_sys t)" using rt_step_sys [OF Q inv step] sys sys_step_inv [OF sys] by auto
  moreover have "core_inv items (rt_world t) (conns (rt_slots t)) (rt_exec t)"
    using step
  proof cases
    case (gone_ws peer w e)
    with ws_begin_Err [OF gone_ws(2)] core show ?thesis by simp
  next
    case (accept_ws peer w h)
    then obtain remote where "service_new_client remote (rt_world s) = (w, h)" by (auto simp: ws_begin_Ok)
    with new_client_core [OF core] accept_ws(1) show ?thesis by simp
  next
    case (handshake_ws i secure tls upgrade c)
    from core_inv_new [OF Q core [unfolded conns_handshake [OF handshake_ws(2,3)]] handshake_ws(5)]
    show ?thesis unfolding handshake_ws(1) by (simp add: conns_replace [OF handshake_ws(2)] ws_new_def)
  next
    case (handshake_fails i secure tls upgrade e E w es)
    from handshake_fails(6) have w: "w = fst (service_remove_client (slot_client (rt_slots s ! i)) (rt_world s))"
      using handshake_fails(5) by (simp add: session_end_def drop_lease_def)
    have "world_inv w" unfolding w using core by (intro remove_client_inv) (simp add: core_inv_def)
    moreover have "route_map w = route_map (rt_world s)" "next_chan w = next_chan (rt_world s)"
      unfolding w by (simp_all add: service_remove_client_def route_map_def split: option.split)
    ultimately have "core_inv items w (conns (rt_slots s)) (rt_exec s)" by (rule core_inv_world [OF core])
    then show ?thesis
      unfolding handshake_fails(1) conns_handshake [OF handshake_fails(2,3)] by (simp add: conns_remove)
  next
    case (accept_wt remote w h c)
    from core_inv_new [OF Q, of w "conns (rt_slots s)" "[]" "rt_exec s" c] new_client_core [OF core accept_wt(3)] accept_wt(4)
    show ?thesis unfolding accept_wt(1) by (simp add: wt_new_def)
  next
    case (ws_goes_on i c st ev q E W w st' as)
    have k: "conn_of (slot_kind (rt_slots s ! i)) = Some (c, ws_relay st, ws_lease st)" by (simp add: ws_goes_on(3))
    from turn_core [OF Q B core ws_goes_on(2) k ready_read(1) [OF Q ws_goes_on(5)]
        ws_turn_acts [where P = "\<lambda>_. True", OF ws_goes_on(7) relay [OF ws_goes_on(2) k] TrueI]]
    show ?thesis unfolding ws_goes_on(1) by (simp add: conns_replace [OF ws_goes_on(2)])
  next
    case (ws_ends i c st ev q E W w st' as res E' w' es)
    have k: "conn_of (slot_kind (rt_slots s ! i)) = Some (c, ws_relay st, ws_lease st)" by (simp add: ws_ends(3))
    from turn_core [OF Q B core ws_ends(2) k ready_read(1) [OF Q ws_ends(5)]
        ws_turn_acts [where P = "\<lambda>_. True", OF ws_ends(7) relay [OF ws_ends(2) k] TrueI]]
    have "core_inv items w (conns (take i (rt_slots s)) @ (c, ws_relay st', ws_lease st') # conns (drop (Suc i) (rt_slots s)))
        (carry_out_all Q U (effects as) (set_bytes c q (rt_exec s)))" .
    from session_end_core [OF Q B this ws_ends(10)] show ?thesis unfolding ws_ends(1) by (simp add: conns_remove)
  next
    case (wt_goes_on i c st ev q T W w st' as)
    have k: "conn_of (slot_kind (rt_slots s ! i)) = Some (c, wt_relay st, wt_lease st)" by (simp add: wt_goes_on(3))
    from turn_core [OF Q B core wt_goes_on(2) k ready_read(2) [OF Q wt_goes_on(6)]
        wt_turn_acts [where P = "\<lambda>_. True", OF wt_goes_on(8) relay [OF wt_goes_on(2) k] TrueI]]
    show ?thesis unfolding wt_goes_on(1) by (simp add: conns_replace [OF wt_goes_on(2)])
  next
    case (wt_ends i c st ev q T W w st' as e E' w' es)
    have k: "conn_of (slot_kind (rt_slots s ! i)) = Some (c, wt_relay st, wt_lease st)" by (simp add: wt_ends(3))
    from turn_core [OF Q B core wt_ends(2) k ready_read(2) [OF Q wt_ends(6)]
        wt_turn_acts [where P = "\<lambda>_. True", OF wt_ends(8) relay [OF wt_ends(2) k] TrueI]]
    have "core_inv items w (conns (take i (rt_slots s)) @ (c, wt_relay st', wt_lease st') # conns (drop (Suc i) (rt_slots s)))
        (carry_out_all Q U (effects as) (set_bytes c q (rt_exec s)))" .
    from session_end_core [OF Q B this wt_ends(10)] show ?thesis unfolding wt_ends(1) by (simp add: conns_remove)
  next
    case (task x)
    have "exec_inv items (next_chan (rt_world s)) (conns (rt_slots s)) (rt_exec s)" using core by (simp add: core_inv_def)
    from task_step_core [OF Q U B this task(2)] core show ?thesis unfolding task(1) by (simp add: core_inv_def)
  qed
  ultimately show ?thesis by (simp add: rt_inv_def)
qed

text \<open>The libraries the runtime is a parameter of, together.\<close>

locale runtime_apis = bytes: mpsc Q items + udp: mpsc U uitems + buf B
  for Q :: "'q bytes_api" and items :: "'q \<Rightarrow> bytes list" and U :: "'p udp_api"
    and uitems :: "'p \<Rightarrow> (socket_addr \<times> bytes) list" and B :: buf_api

sublocale runtime_apis \<subseteq> rt: simulation "rt_new Q U g" "rt_step G B Q U hosts" "rt_inv items" rt_sys "sys_step G B"
  for G hosts and g :: 'r
proof unfold_locales
  show "rt_inv items (rt_new Q U g)" by (rule rt_inv_new) (rule bytes.mpsc_axioms)
  fix s t :: "('r, 'q, 'p) runtime"
  assume inv: "rt_inv items s" and step: "rt_step G B Q U hosts s t"
  show "rt_inv items t"
    by (rule rt_step_inv [OF bytes.mpsc_axioms udp.mpsc_axioms buf_axioms inv step])
  show "(sys_step G B)\<^sup>*\<^sup>* (rt_sys s) (rt_sys t)"
    using rt_step_sys [OF bytes.mpsc_axioms inv step] by auto
qed

interpretation list_runtime: runtime_apis list_mpsc "\<lambda>q. q" list_mpsc "\<lambda>q. q" be_buf
  by unfold_locales

context runtime_apis
begin

lemma reachable_rt_inv: "(rt_step G B Q U hosts)\<^sup>*\<^sup>* (rt_new Q U g) s \<Longrightarrow> rt_inv items s"
  by (rule rt.reachable_inv)

lemma reachable_rt_sys:
  assumes "(rt_step G B Q U hosts)\<^sup>*\<^sup>* (rt_new Q U g) s"
  shows "(sys_step G B)\<^sup>*\<^sup>* (sys_new g) (rt_sys s)"
  using rt.sim_run [OF assms] by (simp add: rt_new_def)

end

lemmas rt_reachable_inv = runtime_apis.reachable_rt_inv [OF runtime_apis.intro]
lemmas rt_reachable_sys = runtime_apis.reachable_rt_sys [OF runtime_apis.intro]

end
