(* ===== verification/Runtime_Demo.thy ===== *)
theory Runtime_Demo
  imports Runtime_Props Conversations
begin

text \<open>
  Concrete runs of the proxy, for witnesses: one client connects over a WebSocket and binds a port, or
  opens a tunnel to the CONNECT proxy, and what becomes of that.
\<close>

section \<open>What the channels show\<close>

text \<open>The answers of the channels in a state, with the clock at rest.\<close>

definition env_of :: "('r, 'q, 'p) runtime \<Rightarrow> env" where
  "env_of s = \<lparr>send_ok = (\<lambda>c. has_receiver s c \<or> next_chan (rt_world s) \<le> c),
     closed = (\<lambda>c. \<not> (has_receiver s c \<or> next_chan (rt_world s) \<le> c)), clock1 = 0, clock2 = 0\<rparr>"

lemma sees_env_of: "sees s (env_of s)"
  by (simp add: sees_def env_of_def env_ok_def)

lemma sees_env_up: "(\<And>c. c < next_chan (rt_world s) \<Longrightarrow> has_receiver s c) \<Longrightarrow> sees s env_up"
  by (simp add: sees_def env_ok_def) (meson linorder_not_le)

section \<open>A session on its own\<close>

definition demo_client :: client_handle where
  "demo_client = \<lparr>client_id = 1, client_addr = SockV4 9 4000\<rparr>"

definition demo_session :: ws_session where
  "demo_session = \<lparr>ws_relay = None,
     ws_lease = Some (BindLease \<lparr>bind_key = (demo_address, 80), bind_egress = 1\<rparr>)\<rparr>"

definition demo_joined :: "nat world" where
  "demo_joined = demo_world\<lparr>id_counter := 2, service := service_new\<lparr>clients := hm_insert 1 demo_client hm_empty\<rparr>\<rparr>"

type_synonym list_exec = "(bytes list, (socket_addr \<times> bytes) list) executor"
type_synonym list_runtime = "(nat, bytes list, (socket_addr \<times> bytes) list) runtime"

definition demo_rt :: "nat world \<Rightarrow> session_kind \<Rightarrow> list_exec \<Rightarrow> list_runtime" where
  "demo_rt w k x = \<lparr>rt_sys = \<lparr>sys_world = w, sys_slots = [\<lparr>slot_client = demo_client, slot_kind = k\<rparr>], sys_opened = 1\<rparr>, rt_exec = x\<rparr>"

definition demo_idle :: list_exec where
  "demo_idle = \<lparr>ex_tasks = [], ex_bytes = (\<lambda>_. []), ex_udp = (\<lambda>_. [])\<rparr>"

abbreviation demo_step :: "list_runtime \<Rightarrow> list_runtime \<Rightarrow> bool" where
  "demo_step \<equiv> rt_step counter_rng be_buf list_mpsc list_mpsc []"

abbreviation demo_new :: list_runtime where
  "demo_new \<equiv> rt_new list_mpsc list_mpsc 0"

lemma set_bytes_same [simp]: "set_bytes c (ex_bytes x c) x = x"
  by (simp add: set_bytes_def)

lemma set_bytes_nil [simp]: "set_bytes c [] demo_idle = demo_idle"
  by (simp add: set_bytes_def demo_idle_def fun_upd_idem)

lemma demo_reads:
  assumes "ws_turn counter_rng be_buf E (\<lambda>_. True) (WsRead r) st w = (w', st', as, Ok Waiting)" and "ws_event_ok (WsRead r)"
    and "sees (demo_rt w (OnWebSocket c st) x) E"
  shows "demo_step (demo_rt w (OnWebSocket c st) x)
    (demo_rt w' (OnWebSocket c st') (carry_out_all list_mpsc list_mpsc (effects as) x))"
  using rt_step.ws_goes_on [of 0 "demo_rt w (OnWebSocket c st) x" c st "WsRead r" list_mpsc "ex_bytes x c" E] assms
  by (simp add: demo_rt_def replace_slot_def)

lemma demo_accepted:
  "rt_step counter_rng be_buf list_mpsc list_mpsc hosts demo_new (demo_rt demo_joined Handshake demo_idle)"
proof -
  have "service_new_client (SockV4 9 4000) (rt_world demo_new) = (demo_joined, demo_client)"
    by (simp add: service_new_client_def client_new_def rt_new_def sys_new_def demo_joined_def demo_world_def world_new_def
        demo_client_def service_new_def)
  then have "ws_begin (Ok (SockV4 9 4000)) (rt_world demo_new) = (demo_joined, Ok demo_client)" by (simp add: ws_begin_Ok)
  from rt_step.accept_ws [OF _ this] show ?thesis
    by (simp add: rt_new_def sys_new_def demo_rt_def demo_idle_def list_mpsc_def)
qed

lemma demo_shaken:
  "rt_step counter_rng be_buf list_mpsc list_mpsc hosts (demo_rt demo_joined Handshake demo_idle)
    (demo_rt (demo_joined\<lparr>next_chan := 1\<rparr>) (OnWebSocket 0 (ws_new 0)) demo_idle)"
  using rt_step.handshake_ws [of 0 "demo_rt demo_joined Handshake demo_idle" False "Ok ()" "Ok ()" 0 counter_rng be_buf list_mpsc]
  by (simp add: ws_handshake_def replace_slot_def demo_rt_def demo_joined_def demo_world_def world_new_def)
    (simp add: list_mpsc_def)

lemma demo_open:
  "demo_step\<^sup>*\<^sup>* demo_new (demo_rt (demo_joined\<lparr>next_chan := 1\<rparr>) (OnWebSocket 0 (ws_new 0)) demo_idle)"
  using demo_accepted demo_shaken by (meson r_into_rtranclp rtranclp.rtrancl_into_rtrancl)

text \<open>While a session has its relay and no more channels have been made, every channel is up.\<close>

lemma demo_sees:
  "next_chan w = 1 \<Longrightarrow> sees (demo_rt w (OnWebSocket 0 st) x) env_up"
  by (rule sees_env_up) (simp add: demo_rt_def has_receiver_def conns_def map_filter_simps)

section \<open>A bound port\<close>

definition demo_bound_exec :: list_exec where
  "demo_bound_exec = carry_out list_mpsc list_mpsc (SpawnTranslate (demo_address, 80) 1 0) demo_idle"

lemma demo_port:
  "\<exists>w. demo_step\<^sup>*\<^sup>* demo_new (demo_rt w (OnWebSocket 0 demo_session) demo_bound_exec) \<and>
     route_map w (demo_address, 80) = Some 0 \<and> next_chan w = 2"
proof -
  let ?w2 = "demo_joined\<lparr>next_chan := 1\<rparr>"
  let ?w3 = "set_network demo_assigned ?w2\<lparr>rng := 17\<rparr>"
  have "rng ?w2 = 0" "net_of ?w2 = network_new" by (simp_all add: demo_joined_def demo_world_def world_new_def service_new_def)
  then have "service_assign counter_rng env_up ?w2 = Some ((demo_address, demo_passcode), ?w3)"
    by (simp only: service_assign_def demo_assign option.case prod.case)
  then have "ws_turn counter_rng be_buf env_up (\<lambda>_. True) (WsRead (Some (Ok (WsText (bytes_of ''NEWADDR''))))) (ws_new 0) ?w2 =
      (?w3, ws_new 0, [Out (WsSend (WsText (bytes_of (''ADDR '' @ show_ipv6 demo_address @ '' '' @ passcode_fmt demo_passcode))))], Ok Waiting)"
    by (simp add: ws_handle_text_def ws_new_def handle_command_newaddr newaddr_command_def del: bytes_of_append)
  from demo_reads [OF this _ demo_sees] have s3: "demo_step (demo_rt ?w2 (OnWebSocket 0 (ws_new 0)) demo_idle)
      (demo_rt ?w3 (OnWebSocket 0 (ws_new 0)) demo_idle)" by (simp add: carry_out_all_def)
  have bind: "network_bind env_up demo_passcode 80 0 1 demo_assigned = (bound 0 (demo_address, 80) 0 demo_assignment demo_assigned,
      [SpawnTranslate (demo_address, 80) 1 0], Ok \<lparr>bind_key = (demo_address, 80), bind_egress = 1\<rparr>)"
    by (simp add: bind_Ok)
  have "net_of ?w3 = demo_assigned" "next_chan ?w3 = 1" by simp_all
  with bind obtain w where w: "service_bind env_up demo_passcode 80 0 ?w3 =
      (w, [SpawnTranslate (demo_address, 80) 1 0], Ok (BindLease \<lparr>bind_key = (demo_address, 80), bind_egress = 1\<rparr>))"
    "net_of w = bound 0 (demo_address, 80) 0 demo_assignment demo_assigned" "next_chan w = 2"
    by (simp only: service_bind_def) simp
  then have "ws_turn counter_rng be_buf env_up (\<lambda>_. True) (WsRead (Some (Ok (WsText (bind_line (passcode_fmt demo_passcode) 80)))))
      (ws_new 0) ?w3 = (w, demo_session, [Did (SpawnTranslate (demo_address, 80) 1 0), Out (WsSend (WsText (bytes_of ''BIND OK'')))], Ok Waiting)"
    by (simp add: ws_handle_text_def ws_new_def handle_command_bind [OF demo_passcode_wf] demo_session_def)
  from demo_reads [OF this _ demo_sees, of demo_idle] have "demo_step (demo_rt ?w3 (OnWebSocket 0 (ws_new 0)) demo_idle)
      (demo_rt w (OnWebSocket 0 demo_session) demo_bound_exec)" by (simp add: carry_out_all_def demo_bound_exec_def)
  with demo_open s3 have "demo_step\<^sup>*\<^sup>* demo_new (demo_rt w (OnWebSocket 0 demo_session) demo_bound_exec)"
    by (meson rtranclp.rtrancl_into_rtrancl)
  moreover have "route_map w (demo_address, 80) = Some 0" using w(2) by (simp add: route_map_def bound_def)
  ultimately show ?thesis using w(3) by blast
qed

section \<open>A tunnel\<close>

definition demo_tunnel :: ws_session where
  "demo_tunnel = \<lparr>ws_relay = None, ws_lease = Some (ConnectLease \<lparr>connect_transmit = 1\<rparr>)\<rparr>"

definition demo_link :: "nat world" where
  "demo_link = demo_joined\<lparr>next_chan := 2\<rparr>"

definition demo_tunnel_exec :: list_exec where
  "demo_tunnel_exec = \<lparr>ex_tasks = [ConnectTask 1 0 connect_new], ex_bytes = (\<lambda>_. []), ex_udp = (\<lambda>_. [])\<rparr>"

lemma demo_opened: "demo_step\<^sup>*\<^sup>* demo_new (demo_rt demo_link (OnWebSocket 0 demo_tunnel) demo_tunnel_exec)"
proof -
  let ?w = "demo_joined\<lparr>next_chan := 1\<rparr>"
  have "ws_turn counter_rng be_buf env_up (\<lambda>_. True) (WsRead (Some (Ok (WsText (own_service 8080))))) (ws_new 0) ?w =
      (demo_link, demo_tunnel, [Did (SpawnConnect 1 0), Out (WsSend (WsText (bytes_of ''PROXY OK'')))], Ok Waiting)"
    by (subst ws_open_service [where tx = 1 and spawn = "SpawnConnect 1 0"]) (simp_all add: demo_link_def demo_tunnel_def)
  from demo_reads [OF this _ demo_sees, of demo_idle]
  have "demo_step (demo_rt ?w (OnWebSocket 0 (ws_new 0)) demo_idle) (demo_rt demo_link (OnWebSocket 0 demo_tunnel) demo_tunnel_exec)"
    by (simp add: carry_out_all_def demo_tunnel_exec_def demo_idle_def add_task_def set_bytes_def fun_upd_idem list_mpsc_def)
  with demo_open show ?thesis by (rule rtranclp.rtrancl_into_rtrancl)
qed

lemma demo_link_sees:
  "task_rx t = Some 1 \<Longrightarrow> sees (demo_rt demo_link (OnWebSocket 0 st) (demo_tunnel_exec\<lparr>ex_tasks := [t], ex_bytes := q\<rparr>)) env_up"
  by (rule sees_env_up) (auto simp: demo_rt_def demo_link_def has_receiver_def conns_def map_filter_simps less_2_cases_iff dest: less_2_cases)

text \<open>The client goes away: its session ends, and the task of its tunnel is still there.\<close>

lemma demo_orphan:
  "\<exists>s. demo_step\<^sup>*\<^sup>* demo_new s \<and> rt_slots s = [] \<and> rt_tasks s = [ConnectTask 1 0 connect_new]"
proof -
  let ?s = "demo_rt demo_link (OnWebSocket 0 demo_tunnel) demo_tunnel_exec"
  obtain w es where e: "session_end env_up demo_client (ws_lease demo_tunnel) (Err (Bail ''Already closed?'')) demo_link = (w, es)" "es = [DropSender 1]"
    by (cases "session_end env_up demo_client (ws_lease demo_tunnel) (Err (Bail ''Already closed?'')) demo_link")
      (auto simp: session_end_def drop_lease_def demo_tunnel_def lease_drop_def split: prod.splits)
  have "sees ?s env_up" using demo_link_sees [of "ConnectTask 1 0 connect_new" demo_tunnel "\<lambda>_. []"] by (simp add: demo_tunnel_exec_def)
  from rt_step.ws_ends [of 0 ?s 0 demo_tunnel "WsRead None" list_mpsc "ex_bytes demo_tunnel_exec 0" env_up] this e
  have "\<exists>s. demo_step ?s s \<and> rt_slots s = [] \<and> rt_tasks s = [ConnectTask 1 0 connect_new]"
    by (force simp: demo_rt_def remove_slot_def carry_out_all_def demo_tunnel_exec_def)
  with demo_opened show ?thesis by (meson rtranclp.rtrancl_into_rtrancl)
qed

lemma demo_not_allowed: "\<exists>e. connect_turn [] E relay connect_new (FromClient (Some (concat demo_chunks)) c w) = ([], Err e)"
proof -
  have "header_complete (concat demo_chunks)"
    using demo_parse by (cases "header_end (concat demo_chunks)") (simp_all add: header_complete_def parse_header_def)
  then show ?thesis by (simp add: connect_new_def establish_def demo_parse)
qed

text \<open>
  Or it asks for a host that is not allowed: the task fails, says so on the relay, and is gone.
\<close>

lemma demo_broken:
  "\<exists>x. demo_step\<^sup>*\<^sup>* demo_new (demo_rt demo_link (OnWebSocket 0 demo_tunnel) x) \<and> ex_tasks x = [] \<and> ex_bytes x 0 = [[]]"
proof -
  let ?bad = "concat demo_chunks"
  let ?s = "demo_rt demo_link (OnWebSocket 0 demo_tunnel)"
  let ?task = "ConnectTask 1 0 connect_new"
  let ?x = "\<lambda>ts q. demo_tunnel_exec\<lparr>ex_tasks := ts, ex_bytes := q\<rparr>"
  let ?full = "(\<lambda>_. [])(1 := [?bad])"
  have up: "sees (?s (?x [t] q)) env_up" if "task_rx t = Some 1" for t q by (rule demo_link_sees [OF that])
  have "ws_turn counter_rng be_buf env_up (\<lambda>_. True) (WsRead (Some (Ok (WsBinary ?bad)))) demo_tunnel demo_link =
      (demo_link, demo_tunnel, [Did (Send 1 ?bad)], Ok Waiting)"
    by (simp add: ws_handle_datagram_def demo_tunnel_def connect_send_def chan_send_def)
  from demo_reads [OF this _ up [of ?task "\<lambda>_. []"]]
  have s1: "demo_step (?s demo_tunnel_exec) (?s (?x [?task] ?full))"
    by (simp add: carry_out_all_def set_bytes_def list_mpsc_def demo_tunnel_exec_def)
  obtain e where e: "connect_turn [] env_up 0 connect_new (FromClient (Some ?bad) True True) = ([], Err e)"
    using demo_not_allowed by blast
  have s2: "demo_step (?s (?x [?task] ?full)) (?s (?x [FailedTask 0] (\<lambda>_. [])))"
  proof -
    have "connect_ready list_mpsc (?s (?x [?task] ?full)) 1 (FromClient (Some ?bad) True True) []"
      by (simp add: polls_def list_mpsc_def demo_rt_def)
    from rt_step.task [OF task_step.connect_fails [OF _ _ _ this up e, of 0]]
    show ?thesis by (simp add: demo_rt_def carry_out_all_def replace_task_def set_bytes_def demo_tunnel_exec_def fun_upd_idem)
  qed
  let ?f = "?s (?x [FailedTask 0] (\<lambda>_. []))"
  have "fst (chan_send (env_of ?f) 0 []) = [Send 0 []]"
    by (simp add: chan_send_def env_of_def has_receiver_def demo_rt_def conns_def map_filter_simps)
  then have "demo_step ?f (?s (?x [] ((\<lambda>_. [])(0 := [[]]))))"
    using rt_step.task [OF task_step.reports [of 0 ?f 0 "env_of ?f" be_buf list_mpsc list_mpsc "[]"]] sees_env_of [of ?f]
    by (simp add: demo_rt_def carry_out_all_def set_bytes_def list_mpsc_def remove_task_def)
  with demo_opened s1 s2 have "demo_step\<^sup>*\<^sup>* demo_new (?s (?x [] ((\<lambda>_. [])(0 := [[]]))))"
    by (meson rtranclp.rtrancl_into_rtrancl)
  then show ?thesis by (intro exI [of _ "?x [] ((\<lambda>_. [])(0 := [[]]))"]) simp
qed

end
