(* ===== verification/Program.thy ===== *)
theory Program
  imports Startup Runtime_Demo
begin

text \<open>
  The program from its start to its end: the endpoints that \<open>main\<close> has opened and their accept loops
  (\<open>src/main.rs\<close>, \<open>src/websocket/runner.rs\<close>, \<open>src/webtransport/runner.rs\<close>), and the runtime in which the
  sessions they start take their turns. Here a session knows where it comes from: a WebSocket only begins on an
  endpoint for WebSockets, and what \<open>run_client\<close> is given is the TLS stream if the endpoint has a certificate.

  The accept loops run from the moment the last directive is served. Those of earlier directives begin before, and
  all they could do then they can do here as well, since serving a directive does not look at what is shared by sessions.
\<close>

section \<open>Streams\<close>

text \<open>
  What \<open>run_inner\<close> of a WebSocket hands to \<open>run_client\<close>, whose first call upgrades it:
  the stream of the connection (\<open>None\<close>), or one that speaks TLS with a certificate. \<open>tls\<close> and \<open>upgrade\<close> are what the two
  accepts return. The stream and the acceptor are taken out of the runner.
\<close>

definition ws_run_inner ::
  "('cert, 'key) ws_client \<Rightarrow> unit result \<Rightarrow> unit result \<Rightarrow> ('cert, 'key) ws_client \<times> ('cert, 'key) tls_cert option result" where
  "ws_run_inner c tls upgrade =
     (if \<not> client_tcp c then (c, Err (Panic ''called `Option::unwrap()` on a `None` value''))
      else case client_tls c of
        Some t \<Rightarrow> (\<lparr>client_tls = None, client_tcp = False\<rparr>, and_then tls (\<lambda>_. and_then upgrade (\<lambda>_. Ok (Some t))))
      | None \<Rightarrow> (\<lparr>client_tls = None, client_tcp = False\<rparr>, and_then upgrade (\<lambda>_. Ok None)))"

text \<open>It is the handshake of \<open>Web_Socket\<close>, and the stream is the one that was asked for.\<close>

lemma ws_run_inner_new:
  "ws_run_inner (ws_client_new t) tls upgrade =
     (\<lparr>client_tls = None, client_tcp = False\<rparr>, and_then (ws_handshake (t \<noteq> None) tls upgrade) (\<lambda>_. Ok t))"
  by (cases t; cases tls; cases upgrade) (simp_all add: ws_run_inner_def ws_client_new_def ws_handshake_def and_then_def)

text \<open>So neither \<open>take().unwrap()\<close> of it panics: a runner that an accept loop has made fails with the error of one of the two accepts.\<close>

lemma ws_run_inner_errors:
  "ws_run_inner (ws_client_new t) tls upgrade = (c, Err e) \<Longrightarrow> tls = Err e \<or> upgrade = Err e"
  by (cases tls; cases upgrade) (auto simp: ws_run_inner_new ws_handshake_def and_then_def split: if_splits)

section \<open>The program\<close>

text \<open>
  An endpoint with whether its accept loop runs; a session with the endpoint it came from, the runner it has if it is a WebSocket, and the
  stream it got, beside its entry in the runtime; and the task of the service.
\<close>

record ('cert, 'key) origin =
  via :: nat
  runner :: "('cert, 'key) ws_client option"
  stream :: "('cert, 'key) tls_cert option"

record ('cert, 'key, 'r, 'q, 'p) program =
  pg_loops :: "(('cert, 'key) endpoint \<times> bool) list"
  pg_rt :: "('r, 'q, 'p) runtime"
  pg_origins :: "('cert, 'key) origin list"
  pg_service :: Startup.task
  pg_over :: bool

text \<open>\<open>ProxyService::start\<close>: the handle all share, and the task of the service.\<close>

definition service_start :: "proxy_service \<Rightarrow> proxy_service \<times> Startup.task" where
  "service_start s = (s, Startup.service_task)"

definition pg_new ::
  "('cert, 'key) endpoint list \<Rightarrow> 'q bytes_api \<Rightarrow> 'p udp_api \<Rightarrow> 'r \<Rightarrow> ('cert, 'key, 'r, 'q, 'p) program" where
  "pg_new xs Q U g = \<lparr>pg_loops = map (\<lambda>x. (x, True)) xs, pg_rt = rt_new Q U g, pg_origins = [],
     pg_service = snd (service_start service_new), pg_over = False\<rparr>"

lemma pg_new_service: "service (rt_world (pg_rt (pg_new xs Q U g))) = fst (service_start service_new)"
  by (simp add: pg_new_def rt_new_def sys_new_def world_new_def service_start_def)

abbreviation pg_slots :: "('cert, 'key, 'r, 'q, 'p) program \<Rightarrow> session_slot list" where
  "pg_slots p \<equiv> rt_slots (pg_rt p)"

text \<open>The joins of \<open>main\<close>, which wait for the service and then for the loops. When they are done \<open>main\<close> returns, and with it all ends.\<close>

definition pg_joins :: "('cert, 'key, 'r, 'q, 'p) program \<Rightarrow> bool result" where
  "pg_joins p = main_join (pg_service p # map (\<lambda>(x, b). if b then Running else Finished) (pg_loops p))"

text \<open>How far a session has come, and over which transport.\<close>

datatype stage = Shaking | Serving | Transporting

fun stage_of :: "session_kind \<Rightarrow> stage" where
  "stage_of Handshake = Shaking"
| "stage_of (OnWebSocket c st) = Serving"
| "stage_of (OnWebTransport c st) = Transporting"

abbreviation stages :: "session_slot list \<Rightarrow> stage list" where
  "stages ss \<equiv> map (\<lambda>x. stage_of (slot_kind x)) ss"

text \<open>
  A step: an accept loop starts a session or ends, a WebSocket session finishes its handshake, a session or a task takes a turn,
  a session ends, or \<open>main\<close> returns. What the runtime has for a WebSocket connection that is already gone is a turn that leaves no trace; a WebTransport
  request that fails leaves none either.
\<close>

inductive pg_step ::
  "'r rng_api \<Rightarrow> buf_api \<Rightarrow> 'q bytes_api \<Rightarrow> 'p udp_api \<Rightarrow> string list \<Rightarrow>
     ('cert, 'key, 'r, 'q, 'p) program \<Rightarrow> ('cert, 'key, 'r, 'q, 'p) program \<Rightarrow> bool" for G B Q U hosts p where
  loop_ends: "\<not> pg_over p \<Longrightarrow> i < length (pg_loops p) \<Longrightarrow> pg_loops p ! i = (x, True) \<Longrightarrow> accept_turn x accepted = None \<Longrightarrow>
     pg_step G B Q U hosts p (p\<lparr>pg_loops := (pg_loops p)[i := (x, False)]\<rparr>)"
| refused: "\<not> pg_over p \<Longrightarrow> i < length (pg_loops p) \<Longrightarrow> pg_loops p ! i = (x, True) \<Longrightarrow> accept_turn x accepted = Some None \<Longrightarrow>
     pg_step G B Q U hosts p p"
| ws_accepts: "\<not> pg_over p \<Longrightarrow> i < length (pg_loops p) \<Longrightarrow> pg_loops p ! i = (x, True) \<Longrightarrow> accept_turn x accepted = Some (Some c) \<Longrightarrow>
     rt_step G B Q U hosts (pg_rt p) s \<Longrightarrow> rt_slots s = pg_slots p @ [y] \<Longrightarrow> stage_of (slot_kind y) = Shaking \<Longrightarrow>
     pg_step G B Q U hosts p (p\<lparr>pg_rt := s, pg_origins := pg_origins p @ [\<lparr>via = i, runner = Some c, stream = None\<rparr>]\<rparr>)"
| wt_accepts: "\<not> pg_over p \<Longrightarrow> i < length (pg_loops p) \<Longrightarrow> pg_loops p ! i = (x, True) \<Longrightarrow> accept_turn x accepted = Some None \<Longrightarrow>
     x = WebTransport a cert \<Longrightarrow>
     rt_step G B Q U hosts (pg_rt p) s \<Longrightarrow> rt_slots s = pg_slots p @ [y] \<Longrightarrow> stage_of (slot_kind y) = Transporting \<Longrightarrow>
     pg_step G B Q U hosts p (p\<lparr>pg_rt := s, pg_origins := pg_origins p @ [\<lparr>via = i, runner = None, stream = Some cert\<rparr>]\<rparr>)"
| shakes: "\<not> pg_over p \<Longrightarrow> j < length (pg_slots p) \<Longrightarrow> runner (pg_origins p ! j) = Some c \<Longrightarrow>
     ws_run_inner c tls upgrade = (c', Ok y) \<Longrightarrow>
     rt_step G B Q U hosts (pg_rt p) s \<Longrightarrow> stages (pg_slots p) ! j = Shaking \<Longrightarrow> stages (rt_slots s) = (stages (pg_slots p))[j := Serving] \<Longrightarrow>
     pg_step G B Q U hosts p (p\<lparr>pg_rt := s, pg_origins := (pg_origins p)[j := (pg_origins p ! j)\<lparr>runner := Some c', stream := y\<rparr>]\<rparr>)"
| turn: "\<not> pg_over p \<Longrightarrow>
     rt_step G B Q U hosts (pg_rt p) s \<Longrightarrow> stages (rt_slots s) = stages (pg_slots p) \<Longrightarrow>
     pg_step G B Q U hosts p (p\<lparr>pg_rt := s\<rparr>)"
| ends: "\<not> pg_over p \<Longrightarrow> j < length (pg_slots p) \<Longrightarrow>
     rt_step G B Q U hosts (pg_rt p) s \<Longrightarrow> rt_slots s = remove_slot j (pg_slots p) \<Longrightarrow>
     pg_step G B Q U hosts p (p\<lparr>pg_rt := s, pg_origins := take j (pg_origins p) @ drop (Suc j) (pg_origins p)\<rparr>)"
| main_returns: "\<not> pg_over p \<Longrightarrow> pg_joins p \<noteq> Ok False \<Longrightarrow> pg_step G B Q U hosts p (p\<lparr>pg_over := True\<rparr>)"

text \<open>Nothing that the runtime can do is left out: a step of it is one of these.\<close>

lemma rt_step_stages:
  assumes "rt_step G B Q U hosts s s'"
  shows "(\<exists>x. rt_slots s' = rt_slots s @ [x] \<and> stage_of (slot_kind x) \<noteq> Serving) \<or>
    (\<exists>j < length (rt_slots s). stages (rt_slots s) ! j = Shaking \<and> stages (rt_slots s') = (stages (rt_slots s))[j := Serving]) \<or>
    stages (rt_slots s') = stages (rt_slots s) \<or> (\<exists>j < length (rt_slots s). rt_slots s' = remove_slot j (rt_slots s))"
proof -
  have stay: "stages ((rt_slots s)[i := (rt_slots s ! i)\<lparr>slot_kind := k\<rparr>]) = stages (rt_slots s)"
    if "stage_of k = stage_of (slot_kind (rt_slots s ! i))" "i < length (rt_slots s)" for i k
    using that by (simp add: map_update list_update_same_conv)
  show ?thesis
    using assms
  proof cases
    case (handshake_ws i secure tls upgrade c)
    then have "stages (rt_slots s) ! i = Shaking \<and> stages (rt_slots s') = (stages (rt_slots s))[i := Serving]"
      by (simp add: replace_slot_def map_update)
    then show ?thesis using handshake_ws by blast
  next
    case (gone_ws peer w e)
    then show ?thesis by simp
  next
    case (ws_goes_on i c st ev q E W w st' as)
    then have "stages (rt_slots s') = stages (rt_slots s)" using stay [of "OnWebSocket c st'" i] by (simp add: replace_slot_def)
    then show ?thesis by blast
  next
    case (wt_goes_on i c st ev q T W w st' as)
    then have "stages (rt_slots s') = stages (rt_slots s)" using stay [of "OnWebTransport c st'" i] by (simp add: replace_slot_def)
    then show ?thesis by blast
  qed auto
qed

section \<open>Where sessions come from\<close>

text \<open>
  A session is one that its endpoint serves. Up to the handshake its runner is as the accept loop made it, and past the handshake its
  stream is the one the endpoint asks for.
\<close>

fun served_by :: "('cert, 'key) endpoint \<Rightarrow> stage \<Rightarrow> ('cert, 'key) ws_client option \<Rightarrow> ('cert, 'key) tls_cert option \<Rightarrow> bool" where
  "served_by (WebSocket a t) k c y = (k = Shaking \<and> c = Some (ws_client_new t) \<or> k = Serving \<and> y = t)"
| "served_by (WebTransport a t) k c y = (k = Transporting \<and> y = Some t)"

definition origin_ok :: "('cert, 'key) endpoint list \<Rightarrow> ('cert, 'key) origin \<Rightarrow> stage \<Rightarrow> bool" where
  "origin_ok xs o1 k = (via o1 < length xs \<and> served_by (xs ! via o1) k (runner o1) (stream o1))"

definition pg_inv ::
  "('cert, 'key) endpoint list \<Rightarrow> ('cert, 'key, 'r, 'q, 'p) program \<Rightarrow> bool" where
  "pg_inv xs p = (map fst (pg_loops p) = xs \<and> pg_service p = Finished \<and> list_all2 (origin_ok xs) (pg_origins p) (stages (pg_slots p)))"

lemma pg_step_inv:
  assumes "pg_inv xs p" and "pg_step G B Q U hosts p p'"
  shows "pg_inv xs p'"
  using assms(2)
proof cases
  case (loop_ends i x accepted)
  then have "map fst ((pg_loops p)[i := (x, False)]) = map fst (pg_loops p)" by (simp add: map_update list_update_same_conv)
  with assms(1) loop_ends(1) show ?thesis by (simp add: pg_inv_def)
next
  case (ws_accepts i x accepted c s y)
  then have "xs ! i = x" "i < length xs" using assms(1) by (auto simp: pg_inv_def)
  moreover from ws_accepts(5) obtain a t where "x = WebSocket a t" "c = ws_client_new t" by (cases x) (auto split: if_splits)
  ultimately show ?thesis using assms(1) ws_accepts by (auto simp: pg_inv_def origin_ok_def intro: list_all2_appendI)
next
  case (wt_accepts i x accepted a cert s y)
  then have "xs ! i = WebTransport a cert" "i < length xs" using assms(1) by (auto simp: pg_inv_def)
  with assms(1) wt_accepts show ?thesis by (auto simp: pg_inv_def origin_ok_def intro: list_all2_appendI)
next
  case (shakes j c tls upgrade c' y s)
  have all: "list_all2 (origin_ok xs) (pg_origins p) (stages (pg_slots p))" and xs: "map fst (pg_loops p) = xs" "pg_service p = Finished"
    using assms(1) by (simp_all add: pg_inv_def)
  from all shakes(3) have "origin_ok xs (pg_origins p ! j) (stages (pg_slots p) ! j)"
    by (auto simp: list_all2_conv_all_nth)
  with shakes(4,7) obtain a t where x: "xs ! via (pg_origins p ! j) = WebSocket a t" "c = ws_client_new t" "via (pg_origins p ! j) < length xs"
    by (cases "xs ! via (pg_origins p ! j)") (auto simp: origin_ok_def)
  with shakes(5) have "origin_ok xs ((pg_origins p ! j)\<lparr>runner := Some c', stream := y\<rparr>) Serving"
    by (auto simp: origin_ok_def ws_run_inner_new and_then_Ok)
  with all have "list_all2 (origin_ok xs) ((pg_origins p)[j := (pg_origins p ! j)\<lparr>runner := Some c', stream := y\<rparr>]) ((stages (pg_slots p))[j := Serving])"
    by (rule list_all2_update_cong)
  with xs shakes(1,8) show ?thesis by (simp add: pg_inv_def)
next
  case (ends j s)
  have "stages (remove_slot j (pg_slots p)) = take j (stages (pg_slots p)) @ drop (Suc j) (stages (pg_slots p))"
    by (simp add: remove_slot_def take_map drop_map)
  with assms(1) ends show ?thesis
    by (auto simp: pg_inv_def intro!: list_all2_appendI list_all2_takeI list_all2_dropI)
qed (use assms(1) in \<open>simp_all add: pg_inv_def\<close>)

interpretation pg: invariant_system "pg_new xs Q U g" "pg_step G B Q U hosts" "pg_inv xs"
proof
  show "pg_inv xs (pg_new xs Q U g)" 
    by (simp add: pg_inv_def pg_new_def rt_new_def sys_new_def comp_def service_start_def Startup.service_task_def)
qed (rule pg_step_inv)

lemma pg_runtime:
  assumes "(pg_step G B Q U hosts)\<^sup>*\<^sup>* (pg_new xs Q U g) p"
  shows "(rt_step G B Q U hosts)\<^sup>*\<^sup>* (rt_new Q U g) (pg_rt p)"
  using assms
proof (induction rule: rtranclp_induct)
  case (step p p')
  from step(2) have "(rt_step G B Q U hosts)\<^sup>*\<^sup>* (pg_rt p) (pg_rt p')" by cases auto
  with step(3) show ?case by simp
qed (simp add: pg_new_def)

text \<open>An endpoint that was asked for, seen from the session it serves.\<close>

lemma expected_serves:
  assumes "expected_endpoint A P c = Some x" and "served_by x (stage_of k) c0 y"
  shows "case k of
      Handshake \<Rightarrow> protocol c \<in> {''ws'', ''wss''}
    | OnWebSocket _ _ \<Rightarrow> protocol c = ''ws'' \<and> y = None \<or> protocol c = ''wss'' \<and> y \<noteq> None \<and> y = directive_cert A P c
    | OnWebTransport _ _ \<Rightarrow> protocol c = ''wt'' \<and> y \<noteq> None \<and> y = directive_cert A P c"
  using assms by (cases k; cases x) (auto simp: expected_endpoint_def split: if_splits)

section \<open>A concrete run\<close>

text \<open>The program of \<open>demo_start\<close>, to whose second endpoint a client connects with TLS.\<close>

definition demo_endpoints :: "(nat, nat) endpoint list" where
  "demo_endpoints = [WebSocket (SockV4 0 7777) None, WebSocket (SockV4 0 7778) (Some \<lparr>tls_chain = [5], tls_key = 6\<rparr>),
       WebTransport (SockV4 0 7779) \<lparr>tls_chain = [5], tls_key = 6\<rparr>]"

definition demo_program ::
  "list_runtime \<Rightarrow> (nat, nat) origin list \<Rightarrow> (nat, nat, nat, bytes list, (socket_addr \<times> bytes) list) program" where
  "demo_program s ys = \<lparr>pg_loops = map (\<lambda>x. (x, True)) demo_endpoints, pg_rt = s, pg_origins = ys, pg_service = Finished, pg_over = False\<rparr>"

lemma demo_program_up: "\<not> pg_over (demo_program s ys)"
  by (simp add: demo_program_def)

lemma demo_program_run:
  "(pg_step counter_rng be_buf list_mpsc list_mpsc hosts)\<^sup>*\<^sup>* (pg_new demo_endpoints list_mpsc list_mpsc 0)
    (demo_program (demo_rt (demo_joined\<lparr>next_chan := 1\<rparr>) (OnWebSocket 0 (ws_new 0)) demo_idle)
       [\<lparr>via = 1, runner = Some \<lparr>client_tls = None, client_tcp = False\<rparr>, stream = Some \<lparr>tls_chain = [5], tls_key = 6\<rparr>\<rparr>])"
proof -
  let ?p = "demo_program demo_new []"
  let ?q = "demo_program (demo_rt demo_joined Handshake demo_idle) [\<lparr>via = 1, runner = Some (ws_client_new (Some \<lparr>tls_chain = [5], tls_key = 6\<rparr>)), stream = None\<rparr>]"
  have s1: "pg_step counter_rng be_buf list_mpsc list_mpsc hosts ?p ?q"
    using pg_step.ws_accepts [where p = ?p and i = 1 and accepted = True and y = "\<lparr>slot_client = demo_client, slot_kind = Handshake\<rparr>",
        OF demo_program_up, where G = counter_rng and B = be_buf and Q = list_mpsc and U = list_mpsc and hosts = hosts]
      demo_accepted [of hosts]
    by (simp add: demo_program_def demo_endpoints_def demo_rt_def rt_new_def sys_new_def)
  have s2: "pg_step counter_rng be_buf list_mpsc list_mpsc hosts ?q
    (demo_program (demo_rt (demo_joined\<lparr>next_chan := 1\<rparr>) (OnWebSocket 0 (ws_new 0)) demo_idle)
       [\<lparr>via = 1, runner = Some \<lparr>client_tls = None, client_tcp = False\<rparr>, stream = Some \<lparr>tls_chain = [5], tls_key = 6\<rparr>\<rparr>])"
    using pg_step.shakes [where p = ?q and j = 0 and tls = "Ok ()" and upgrade = "Ok ()",
        OF demo_program_up, where G = counter_rng and B = be_buf and Q = list_mpsc and U = list_mpsc and hosts = hosts]
      demo_shaken [of hosts]
    by (simp add: demo_program_def demo_endpoints_def demo_rt_def ws_run_inner_new ws_handshake_def)
  have new: "pg_new demo_endpoints list_mpsc list_mpsc 0 = ?p" by (simp add: pg_new_def demo_program_def service_start_def Startup.service_task_def)
  show ?thesis unfolding new by (rule rtranclp.rtrancl_into_rtrancl, rule r_into_rtranclp, rule s1, rule s2)
qed

section \<open>Properties\<close>

text \<open>C2. The whole program does what its configuration says. Once it has started, and whatever its clients do: every session came in
  through the endpoint of a \<open>serve\<close> directive and speaks that directive's protocol; one that is past its handshake has no plain
  stream unless the directive is \<open>ws\<close>, and otherwise one encrypted with the certificate the directive asks for; and
  all that the sessions and their tasks have done is a run of the runtime for the hosts the file allows, so that what is
  shown of such runs holds for the program.\<close>

theorem program_serves_as_configured:
  assumes start: "main_start A installed opens path (process_new e) = (P, xs, Ok ())"
    and conf: "config_build A path = Ok v" "try_deserialize A v = Ok st" and hosts: "connect_allowed P = Ok hosts"
    and run: "(pg_step G B Q U hosts)\<^sup>*\<^sup>* (pg_new xs Q U g) p"
  shows "length (pg_origins p) = length (pg_slots p) \<and>
    (\<forall>j < length (pg_slots p). let i = via (pg_origins p ! j); y = stream (pg_origins p ! j) in
       i < length (serve st) \<and>
       (case slot_kind (pg_slots p ! j) of
          Handshake \<Rightarrow> protocol (serve st ! i) \<in> {''ws'', ''wss''}
        | OnWebSocket _ _ \<Rightarrow> protocol (serve st ! i) = ''ws'' \<and> y = None \<or>
            protocol (serve st ! i) = ''wss'' \<and> y \<noteq> None \<and> y = directive_cert A P (serve st ! i)
        | OnWebTransport _ _ \<Rightarrow> protocol (serve st ! i) = ''wt'' \<and> y \<noteq> None \<and> y = directive_cert A P (serve st ! i))) \<and>
    (rt_step G B Q U (allowed_hosts (http_proxy st)))\<^sup>*\<^sup>* (rt_new Q U g) (pg_rt p)"
proof -
  from endpoints_expected [OF start conf] have xs: "map Some xs = map (expected_endpoint A P) (serve st)"
    and set: "settings_get P = Ok st" by simp_all
  have "hosts = allowed_hosts (http_proxy st)" using hosts set by (simp add: connect_allowed_def)
  with pg_runtime [OF run] have rt: "(rt_step G B Q U (allowed_hosts (http_proxy st)))\<^sup>*\<^sup>* (rt_new Q U g) (pg_rt p)" by simp
  have all: "list_all2 (origin_ok xs) (pg_origins p) (stages (pg_slots p))" using pg.reachable_inv [OF run] by (simp add: pg_inv_def)
  have len: "length xs = length (serve st)" using xs by (metis length_map)
  have "via (pg_origins p ! j) < length (serve st) \<and>
      expected_endpoint A P (serve st ! via (pg_origins p ! j)) = Some (xs ! via (pg_origins p ! j)) \<and>
      served_by (xs ! via (pg_origins p ! j)) (stage_of (slot_kind (pg_slots p ! j))) (runner (pg_origins p ! j)) (stream (pg_origins p ! j))"
    if "j < length (pg_slots p)" for j
    using all that len xs by (auto simp: list_all2_conv_all_nth origin_ok_def) (metis len nth_map)
  with expected_serves have "let i = via (pg_origins p ! j); y = stream (pg_origins p ! j) in
       i < length (serve st) \<and>
       (case slot_kind (pg_slots p ! j) of
          Handshake \<Rightarrow> protocol (serve st ! i) \<in> {''ws'', ''wss''}
        | OnWebSocket _ _ \<Rightarrow> protocol (serve st ! i) = ''ws'' \<and> y = None \<or>
            protocol (serve st ! i) = ''wss'' \<and> y \<noteq> None \<and> y = directive_cert A P (serve st ! i)
        | OnWebTransport _ _ \<Rightarrow> protocol (serve st ! i) = ''wt'' \<and> y \<noteq> None \<and> y = directive_cert A P (serve st ! i))"
    if "j < length (pg_slots p)" for j
    unfolding Let_def using that by blast
  moreover have "length (pg_origins p) = length (pg_slots p)" using all by (auto dest: list_all2_lengthD)
  ultimately show ?thesis using rt by blast
qed

theorem program_serves_as_configured_witness:
  "\<exists>p. (pg_step counter_rng be_buf list_mpsc list_mpsc [''a.b''])\<^sup>*\<^sup>* (pg_new demo_endpoints list_mpsc list_mpsc 0) p \<and>
    length (pg_slots p) = 1 \<and> protocol (serve demo_settings ! via (pg_origins p ! 0)) = ''wss'' \<and> stream (pg_origins p ! 0) \<noteq> None"
proof -
  note start = demo_start [folded demo_endpoints_def]
  have conf: "config_build (demo_crates demo_settings) ''settings.toml'' = Ok ()" "try_deserialize (demo_crates demo_settings) () = Ok demo_settings"
    by (simp_all add: demo_crates_def)
  have hosts: "connect_allowed \<lparr>SETTINGS = Some demo_settings, SELFCERT = Some \<lparr>tls_chain = [5], tls_key = 6\<rparr>, entropy = 7\<rparr> = Ok [''a.b'']"
    by (simp add: connect_allowed_def settings_get_def demo_settings_def)
  note run = demo_program_run [of "[''a.b'']"]
  from program_serves_as_configured [OF start conf hosts run] run show ?thesis
    by (intro exI conjI) (assumption, auto simp: demo_program_def demo_rt_def demo_settings_def)
qed

end
