(* ===== verification/Lifetimes.thy ===== *)
theory Lifetimes
  imports Runtime_Demo
begin

text \<open>
  What the invariant of the runtime says of the tasks: how long they live, what they and their sessions
  can rely on, and how they end. Every state spoken of here is one that a run of the proxy can reach.
\<close>

section \<open>Who can still send on a channel\<close>

lemma rt_inv_parts:
  assumes "rt_inv items s"
  shows "sys_inv (rt_sys s)" "routes_ok (rt_world s) (conns (rt_slots s))"
    "exec_inv items (next_chan (rt_world s)) (conns (rt_slots s)) (rt_exec s)"
    "chans_ok (next_chan (rt_world s)) (conns (rt_slots s)) (rt_tasks s)"
    "y \<in> set (conns (rt_slots s)) \<Longrightarrow> conn_ok items (rt_exec s) y"
  using assms unfolding rt_inv_def core_inv_def exec_inv_def by blast+

lemma input_not_relay:
  assumes inv: "rt_inv items s" and c: "c \<in> input_chans (conns (rt_slots s)) (rt_tasks s)"
  shows "c \<notin> fst ` set (conns (rt_slots s))" "c \<notin> task_relay ` set (rt_tasks s)"
    "c \<notin> ran (route_map (rt_world s))" "(c', Some c, l) \<notin> set (conns (rt_slots s))"
proof -
  have no: "c \<notin> relay_chans (conns (rt_slots s)) (rt_tasks s)"
    using rt_inv_parts(4) [OF inv] c unfolding chans_ok_def by blast
  then show fst: "c \<notin> fst ` set (conns (rt_slots s))" and "c \<notin> task_relay ` set (rt_tasks s)"
    unfolding relay_chans_def by blast+
  show "c \<notin> ran (route_map (rt_world s))"
  proof
    assume "c \<in> ran (route_map (rt_world s))"
    then obtain k where "route_map (rt_world s) k = Some c" unfolding ran_def by blast
    then obtain h where "(c, None, Some (BindLease h)) \<in> set (conns (rt_slots s))"
      using rt_inv_parts(2) [OF inv] unfolding routes_ok_def by blast
    with fst show False by force
  qed
  show "(c', Some c, l) \<notin> set (conns (rt_slots s))"
  proof
    assume m: "(c', Some c, l) \<in> set (conns (rt_slots s))"
    with rt_inv_parts(5) [OF inv m] have "c' = c" by (cases l) auto
    with m fst show False by force
  qed
qed

text \<open>The input of a task is open as long as a session holds the lease it was made for.\<close>

lemma task_sender:
  assumes inv: "rt_inv items s" and t: "t \<in> set (rt_tasks s)" and rx: "task_rx t = Some rx"
  shows "has_sender s rx \<longleftrightarrow> (\<exists>c l. (c, None, Some l) \<in> set (conns (rt_slots s)) \<and> task_of t l c)"
proof -
  have "rx \<in> input_chans (conns (rt_slots s)) (rt_tasks s)" unfolding input_chans_def using t rx by blast
  note no = input_not_relay [OF inv this]
  show ?thesis
  proof
    assume "has_sender s rx"
    then obtain c r l where m: "(c, r, l) \<in> set (conns (rt_slots s))" "map_option lease_sender l = Some rx"
      using no unfolding has_sender_def by blast
    then obtain l' where l: "l = Some l'" "lease_sender l' = rx" by auto
    with rt_inv_parts(5) [OF inv m(1)] have "r = None" by simp
    moreover have "task_of t l' c" using conn_of_task(3) [OF rt_inv_parts(3) [OF inv] t m(1) l(1)] rx l(2) by simp
    ultimately show "\<exists>c l. (c, None, Some l) \<in> set (conns (rt_slots s)) \<and> task_of t l c" using m l by blast
  next
    assume "\<exists>c l. (c, None, Some l) \<in> set (conns (rt_slots s)) \<and> task_of t l c"
    then obtain c l where m: "(c, None, Some l) \<in> set (conns (rt_slots s))" "task_of t l c" by blast
    then have "lease_sender l = rx" using rx by (cases t) auto
    with m(1) show "has_sender s rx" unfolding has_sender_def by force
  qed
qed

lemma conn_relay_None:
  assumes "rt_inv items s" and "(c, r, Some l) \<in> set (conns (rt_slots s))"
  shows "r = None" "served items (rt_exec s) c l"
  using rt_inv_parts(5) [OF assms] by simp_all

lemma conn_unique:
  assumes "rt_inv items s" and "(c, a) \<in> set (conns (rt_slots s))" and "(c, b) \<in> set (conns (rt_slots s))"
  shows "a = b"
  using rt_inv_parts(4) [OF assms(1)] assms(2,3) unfolding chans_ok_def by (blast intro: distinct_fst_eq)

text \<open>The relay of a session with a lease: its senders are the task of the lease and the route of a bound port.\<close>

lemma relay_sender:
  assumes inv: "rt_inv items s" and m: "(c, None, Some l) \<in> set (conns (rt_slots s))"
  shows "has_sender s c \<longleftrightarrow> c \<in> task_relay ` set (rt_tasks s) \<or> c \<in> ran (route_map (rt_world s))"
proof -
  have relay: "c \<in> relay_chans (conns (rt_slots s)) (rt_tasks s)" unfolding relay_chans_def using m by force
  have "\<not> (r' = Some c \<or> map_option lease_sender l' = Some c)" if m': "(c', r', l') \<in> set (conns (rt_slots s))" for c' r' l'
  proof
    assume "r' = Some c \<or> map_option lease_sender l' = Some c"
    then show False
    proof
      assume r': "r' = Some c"
      with rt_inv_parts(5) [OF inv m'] have "c' = c" by (cases l') auto
      with conn_unique [OF inv m] m' r' show False by blast
    next
      assume "map_option lease_sender l' = Some c"
      then obtain l2 where "l' = Some l2" "lease_sender l2 = c" by auto
      with m' have "c \<in> input_chans (conns (rt_slots s)) (rt_tasks s)" unfolding input_chans_def by blast
      with relay rt_inv_parts(4) [OF inv] show False unfolding chans_ok_def by blast
    qed
  qed
  then show ?thesis unfolding has_sender_def by blast
qed

section \<open>Tasks and leases\<close>

text \<open>C4. The tasks of the proxy are the tasks of its leases. Every route leads to a session whose lease has a translator
  running, with the two ends of one channel in the lease and in the translator; and the channel of a task is open exactly as
  long as a session holds the lease the task was made for. No two tasks read the same channel, or write to the
  same session.\<close>

theorem tasks_are_the_leases:
  assumes "mpsc Q items" "mpsc U uitems" "buf B" and "(rt_step G B Q U hosts)\<^sup>*\<^sup>* (rt_new Q U g) s"
  shows "(\<forall>k c. route_map (rt_world s) k = Some c \<longrightarrow> (\<exists>h st. (c, None, Some (BindLease h)) \<in> set (conns (rt_slots s)) \<and>
      bind_key h = k \<and> TranslateTask (bind_egress h) c st \<in> set (rt_tasks s))) \<and>
    (\<forall>t rx. t \<in> set (rt_tasks s) \<longrightarrow> task_rx t = Some rx \<longrightarrow>
      (has_sender s rx \<longleftrightarrow> (\<exists>c l. (c, None, Some l) \<in> set (conns (rt_slots s)) \<and> task_of t l c))) \<and>
    distinct (List.map_filter task_rx (rt_tasks s)) \<and> distinct (map task_relay (rt_tasks s))"
proof (intro conjI allI impI)
  note inv = rt_reachable_inv [OF assms(1-4)]
  fix k c
  assume "route_map (rt_world s) k = Some c"
  then obtain h where h: "(c, None, Some (BindLease h)) \<in> set (conns (rt_slots s))" "bind_key h = k"
    using rt_inv_parts(2) [OF inv] unfolding routes_ok_def by blast
  from conn_relay_None(2) [OF inv h(1)] obtain t where
    t: "t \<in> set (rt_tasks s)" "task_rx t = Some (bind_egress h)" unfolding served_def by auto
  then have "task_of t (BindLease h) c" using conn_relay_None(2) [OF inv h(1)] unfolding served_def by simp
  then obtain st where "t = TranslateTask (bind_egress h) c st" by (cases t) auto
  with h t(1) show "\<exists>h st. (c, None, Some (BindLease h)) \<in> set (conns (rt_slots s)) \<and>
      bind_key h = k \<and> TranslateTask (bind_egress h) c st \<in> set (rt_tasks s)" by blast
next
  note inv = rt_reachable_inv [OF assms(1-4)]
  fix t rx
  assume "t \<in> set (rt_tasks s)" "task_rx t = Some rx"
  then show "has_sender s rx \<longleftrightarrow> (\<exists>c l. (c, None, Some l) \<in> set (conns (rt_slots s)) \<and> task_of t l c)"
    by (rule task_sender [OF inv])
next
  note inv = rt_reachable_inv [OF assms(1-4)]
  show "distinct (List.map_filter task_rx (rt_tasks s))" "distinct (map task_relay (rt_tasks s))"
    using rt_inv_parts(4) [OF inv] by (simp_all add: chans_ok_def)
qed

theorem tasks_are_the_leases_witness:
  "\<exists>s st. demo_step\<^sup>*\<^sup>* demo_new s \<and> conns (rt_slots s) = [(0, None, ws_lease demo_session)] \<and>
    TranslateTask 1 0 st \<in> set (rt_tasks s) \<and> has_sender s 1"
proof -
  obtain w where w: "demo_step\<^sup>*\<^sup>* demo_new (demo_rt w (OnWebSocket 0 demo_session) demo_bound_exec)"
    "route_map w (demo_address, 80) = Some 0" using demo_port by blast
  let ?s = "demo_rt w (OnWebSocket 0 demo_session) demo_bound_exec"
  have c: "conns (rt_slots ?s) = [(0, None, Some (BindLease \<lparr>bind_key = (demo_address, 80), bind_egress = 1\<rparr>))]"
    by (simp add: demo_rt_def conns_def map_filter_simps demo_session_def)
  note leases = tasks_are_the_leases [OF list_queue.mpsc_axioms list_queue.mpsc_axioms be.buf_axioms w(1)]
  have "route_map (rt_world ?s) (demo_address, 80) = Some 0" using w(2) by (simp add: demo_rt_def)
  with conjunct1 [OF leases] obtain h st where "(0, None, Some (BindLease h)) \<in> set (conns (rt_slots ?s))"
    "TranslateTask (bind_egress h) 0 st \<in> set (rt_tasks ?s)" by blast
  then have t: "TranslateTask 1 0 st \<in> set (rt_tasks ?s)" unfolding c by simp
  moreover have "task_of (TranslateTask 1 0 st) (BindLease \<lparr>bind_key = (demo_address, 80), bind_egress = 1\<rparr>) 0" by simp
  then have "has_sender ?s 1"
    using conjunct1 [OF conjunct2 [OF leases], rule_format, OF t, of 1] unfolding c by simp
  ultimately show ?thesis using w(1) c by (intro exI [of _ ?s] exI [of _ st]) (simp add: demo_session_def)
qed

section \<open>A bound port does not break\<close>

text \<open>C5. A bound port stays live until its client goes away, as its lease claims: the channel to its translator never
  closes, so that sending never fails for want of it, and the session's relay never ends nor brings the empty
  message that would end the session; whatever it brings has something in it.\<close>

theorem bound_port_stays_live:
  assumes "mpsc Q items" "mpsc U uitems" "buf B" and "(rt_step G B Q U hosts)\<^sup>*\<^sup>* (rt_new Q U g) s"
    and "i < length (rt_slots s)" and "conn_of (slot_kind (rt_slots s ! i)) = Some (c, r, Some (BindLease h))" and "sees s E"
  shows "send_ok E (bind_egress h) \<and> bind_is_live E h \<and> has_sender s c \<and>
    (\<forall>d q. polls Q (has_sender s c) (ex_bytes (rt_exec s) c) d q \<longrightarrow> (\<exists>f. d = Some f \<and> f \<noteq> []))"
proof -
  note inv = rt_reachable_inv [OF assms(1-4)]
  have m: "(c, r, Some (BindLease h)) \<in> set (conns (rt_slots s))" using conns_slot [OF assms(5,6)] by simp
  note [simp] = conn_relay_None(1) [OF inv m] and served = conn_relay_None(2) [OF inv m]
  from served obtain t where t: "t \<in> set (rt_tasks s)" "task_rx t = Some (bind_egress h)" unfolding served_def by auto
  with served have of: "task_of t (BindLease h) c" unfolding served_def by simp
  have "has_receiver s (bind_egress h)" using t unfolding has_receiver_def by force
  moreover have "task_relay t = c" using of by (cases t) auto
  then have "has_sender s c" using relay_sender [OF inv, of c "BindLease h"] m t(1) by auto
  moreover have "[] \<notin> set (items (ex_bytes (rt_exec s) c))" using served unfolding served_def by auto
  ultimately show ?thesis
    using assms(7) pollsD [OF assms(1)] unfolding sees_def bind_is_live_def
    by (metis list.set_intros(1) not_None_eq)
qed

theorem bound_port_stays_live_witness:
  "\<exists>s :: list_runtime. demo_step\<^sup>*\<^sup>* demo_new s \<and> rt_slots s = [\<lparr>slot_client = demo_client, slot_kind = OnWebSocket 0 demo_session\<rparr>] \<and>
    send_ok (env_of s) 1 \<and> has_sender s 0"
proof -
  obtain w where w: "demo_step\<^sup>*\<^sup>* demo_new (demo_rt w (OnWebSocket 0 demo_session) demo_bound_exec)" using demo_port by blast
  let ?s = "demo_rt w (OnWebSocket 0 demo_session) demo_bound_exec"
  have "0 < length (rt_slots ?s)"
    "conn_of (slot_kind (rt_slots ?s ! 0)) = Some (0, None, Some (BindLease \<lparr>bind_key = (demo_address, 80), bind_egress = 1\<rparr>))"
    by (simp_all add: demo_rt_def demo_session_def)
  from bound_port_stays_live [OF list_queue.mpsc_axioms list_queue.mpsc_axioms be.buf_axioms w this sees_env_of] w show ?thesis
    by (intro exI [of _ ?s]) (simp add: demo_rt_def)
qed

section \<open>The end of a service is noticed\<close>

text \<open>A channel with no sender can always be read: there is a message, or the end.\<close>

lemma polls_closed: "\<not> sender \<Longrightarrow> \<exists>d q'. polls Q sender q d q'"
  by (cases "mpsc_pop Q q") (auto simp: polls_def)

text \<open>What a session does with the end of its relay, or with the empty message once its lease has ended.\<close>

lemma relay_end_ends:
  assumes "r = None \<or> r = Some [] \<and> lease_ended E l"
  shows "ws_lease st = l \<Longrightarrow> snd (snd (snd (ws_turn G B E W (WsRelay r) st w))) \<noteq> Ok Waiting"
    and "wt_lease wst = l \<Longrightarrow> \<exists>e. snd (snd (snd (wt_turn G B (\<lambda>_. E) W (WtRelay r) wst w))) = Err e"
  using assms by (auto simp: ws_done_def wrote_def wt_handle_relay_def split: if_splits)

lemma service_gone_ended:
  assumes inv: "rt_inv items s" and m: "(c, None, Some l) \<in> set (conns (rt_slots s))"
    and l: "\<not> is_bind l" "\<not> has_receiver s (lease_sender l)" and E: "sees s E"
  shows "lease_ended E (Some l)"
proof -
  have "lease_sender l < next_chan (rt_world s)" by (rule chans_less(2) [OF rt_inv_parts(4) [OF inv] m])
  with l(2) E have "closed E (lease_sender l)" unfolding sees_def env_ok_def by auto
  with l(1) show ?thesis by (cases l) (simp_all add: lease_ended_def connect_is_live_def dns_is_live_def)
qed

lemma service_gone_relay:
  assumes inv: "rt_inv items s" and m: "(c, None, Some l) \<in> set (conns (rt_slots s))"
    and l: "\<not> is_bind l" "\<not> has_receiver s (lease_sender l)"
  shows "has_sender s c \<longleftrightarrow> FailedTask c \<in> set (rt_tasks s)"
proof -
  note served = conn_relay_None(2) [OF inv m]
  have "c \<notin> ran (route_map (rt_world s))"
  proof
    assume "c \<in> ran (route_map (rt_world s))"
    then obtain k where "route_map (rt_world s) k = Some c" unfolding ran_def by blast
    then obtain h where "(c, None, Some (BindLease h)) \<in> set (conns (rt_slots s))"
      using rt_inv_parts(2) [OF inv] unfolding routes_ok_def by blast
    from conn_unique [OF inv this m] l(1) show False by auto
  qed
  moreover have "t = FailedTask c" if t: "t \<in> set (rt_tasks s)" "task_relay t = c" for t
  proof -
    have "task_of t l c" using served t unfolding served_def by blast
    moreover have "task_rx t \<noteq> Some (lease_sender l)" using l(2) t(1) unfolding has_receiver_def by force
    ultimately show ?thesis by (cases t) auto
  qed
  ultimately show ?thesis unfolding relay_sender [OF inv m] by force
qed

text \<open>C13. When the task of a service has ended, in whatever way, its session is told. Unless the task has yet to send
  its last message, the session is never left waiting on its relay: it can be read, and every read either takes a
  message that the service had sent before, of which there are then fewer, or ends the session.\<close>

theorem service_end_is_noticed:
  assumes "mpsc Q items" "mpsc U uitems" "buf B" and "(rt_step G B Q U hosts)\<^sup>*\<^sup>* (rt_new Q U g) s"
    and "i < length (rt_slots s)" and "conn_of (slot_kind (rt_slots s ! i)) = Some (c, r, Some l)"
    and "\<not> is_bind l" and "\<not> has_receiver s (lease_sender l)" and "sees s E"
  shows "(FailedTask c \<in> set (rt_tasks s) \<or> (\<exists>d q. polls Q (has_sender s c) (ex_bytes (rt_exec s) c) d q)) \<and>
    (\<forall>d q. polls Q (has_sender s c) (ex_bytes (rt_exec s) c) d q \<longrightarrow>
      (\<exists>f. d = Some f \<and> f \<noteq> []) \<and> length (items q) < length (items (ex_bytes (rt_exec s) c)) \<or>
      (\<forall>W st. slot_kind (rt_slots s ! i) = OnWebSocket c st \<longrightarrow>
         snd (snd (snd (ws_turn G B E W (WsRelay d) st (rt_world s)))) \<noteq> Ok Waiting) \<and>
      (\<forall>W st. slot_kind (rt_slots s ! i) = OnWebTransport c st \<longrightarrow>
         (\<exists>e. snd (snd (snd (wt_turn G B (\<lambda>_. E) W (WtRelay d) st (rt_world s)))) = Err e)))"
proof (intro conjI allI impI)
  note inv = rt_reachable_inv [OF assms(1-4)]
  have m: "(c, None, Some l) \<in> set (conns (rt_slots s))"
    using conns_slot [OF assms(5,6)] conn_relay_None(1) [OF inv, of c r l] by simp
  show "FailedTask c \<in> set (rt_tasks s) \<or> (\<exists>d q. polls Q (has_sender s c) (ex_bytes (rt_exec s) c) d q)"
    using service_gone_relay [OF inv m assms(7,8)] polls_closed by metis
  fix d q
  assume p: "polls Q (has_sender s c) (ex_bytes (rt_exec s) c) d q"
  have ended: "lease_ended E (Some l)" by (rule service_gone_ended [OF inv m assms(7-9)])
  show "(\<exists>f. d = Some f \<and> f \<noteq> []) \<and> length (items q) < length (items (ex_bytes (rt_exec s) c)) \<or>
      (\<forall>W st. slot_kind (rt_slots s ! i) = OnWebSocket c st \<longrightarrow>
         snd (snd (snd (ws_turn G B E W (WsRelay d) st (rt_world s)))) \<noteq> Ok Waiting) \<and>
      (\<forall>W st. slot_kind (rt_slots s ! i) = OnWebTransport c st \<longrightarrow>
         (\<exists>e. snd (snd (snd (wt_turn G B (\<lambda>_. E) W (WtRelay d) st (rt_world s)))) = Err e))"
  proof (cases "d = None \<or> d = Some []")
    case True
    with ended have "d = None \<or> d = Some [] \<and> lease_ended E (Some l)" by blast
    note fin = relay_end_ends [OF this]
    show ?thesis
    proof (intro disjI2 conjI allI impI)
      fix W st
      assume "slot_kind (rt_slots s ! i) = OnWebSocket c st"
      with assms(6) show "snd (snd (snd (ws_turn G B E W (WsRelay d) st (rt_world s)))) \<noteq> Ok Waiting"
        by (intro fin(1)) simp
    next
      fix W st
      assume "slot_kind (rt_slots s ! i) = OnWebTransport c st"
      with assms(6) show "\<exists>e. snd (snd (snd (wt_turn G B (\<lambda>_. E) W (WtRelay d) st (rt_world s)))) = Err e"
        by (intro fin(2)) simp
    qed
  next
    case False
    with pollsD(1) [OF assms(1) p] show ?thesis by auto
  qed
qed

theorem service_end_is_noticed_witness:
  "\<exists>s :: list_runtime. demo_step\<^sup>*\<^sup>* demo_new s \<and> rt_tasks s = [] \<and> polls list_mpsc (has_sender s 0) (ex_bytes (rt_exec s) 0) (Some []) [] \<and>
    snd (snd (snd (ws_turn counter_rng be_buf (env_of s) (\<lambda>_. True) (WsRelay (Some [])) demo_tunnel (rt_world s)))) \<noteq> Ok Waiting"
proof -
  obtain x where x: "demo_step\<^sup>*\<^sup>* demo_new (demo_rt demo_link (OnWebSocket 0 demo_tunnel) x)" "ex_tasks x = []" "ex_bytes x 0 = [[]]"
    using demo_broken by blast
  let ?s = "demo_rt demo_link (OnWebSocket 0 demo_tunnel) x"
  have "0 < length (rt_slots ?s)"
    "conn_of (slot_kind (rt_slots ?s ! 0)) = Some (0, None, Some (ConnectLease \<lparr>connect_transmit = 1\<rparr>))"
    by (simp_all add: demo_rt_def demo_tunnel_def)
  moreover have "\<not> has_receiver ?s (lease_sender (ConnectLease \<lparr>connect_transmit = 1\<rparr>))"
    using x(2) by (simp add: has_receiver_def demo_rt_def conns_def map_filter_simps)
  moreover have p: "polls list_mpsc (has_sender ?s 0) (ex_bytes (rt_exec ?s) 0) (Some []) []"
    using x(3) by (simp add: polls_def list_mpsc_def demo_rt_def)
  ultimately have "snd (snd (snd (ws_turn counter_rng be_buf (env_of ?s) (\<lambda>_. True) (WsRelay (Some [])) demo_tunnel (rt_world ?s)))) \<noteq> Ok Waiting"
    using service_end_is_noticed [OF list_queue.mpsc_axioms list_queue.mpsc_axioms be.buf_axioms x(1) _ _ _ _ sees_env_of, of 0 0 None]
    by (fastforce simp: demo_rt_def simp del: ws_turn.simps)
  with x p show ?thesis by (intro exI [of _ ?s]) (simp add: demo_rt_def del: ws_turn.simps)
qed

section \<open>Tasks end with their sessions\<close>

text \<open>What a task still has to do once nobody sends to it: read what is queued, see the end, and report a failure.\<close>

fun pending :: "('q \<Rightarrow> bytes list) \<Rightarrow> ('p \<Rightarrow> (socket_addr \<times> bytes) list) \<Rightarrow> ('q, 'p) executor \<Rightarrow> task \<Rightarrow> nat" where
  "pending items uitems x (TranslateTask rx relay st) = 2 + length (uitems (ex_udp x rx))"
| "pending items uitems x (ConnectTask rx relay st) = 2 + length (items (ex_bytes x rx))"
| "pending items uitems x (DnsTask rx relay) = 2 + length (items (ex_bytes x rx))"
| "pending items uitems x (FailedTask relay) = 1"

definition work :: "('q \<Rightarrow> bytes list) \<Rightarrow> ('p \<Rightarrow> (socket_addr \<times> bytes) list) \<Rightarrow> ('q, 'p) executor \<Rightarrow> nat" where
  "work items uitems x = sum_list (map (pending items uitems x) (ex_tasks x))"

lemma pending_pos: "0 < pending items uitems x t"
  by (cases t) simp_all

lemma pending_tasks [simp]: "pending items uitems (x\<lparr>ex_tasks := ts\<rparr>) = pending items uitems x"
proof
  show "pending items uitems (x\<lparr>ex_tasks := ts\<rparr>) t = pending items uitems x t" for t by (cases t) simp_all
qed

lemma pending_read:
  "length (items q) \<le> length (items (ex_bytes x c)) \<Longrightarrow> pending items uitems (set_bytes c q x) t \<le> pending items uitems x t"
  "length (uitems p) \<le> length (uitems (ex_udp x c)) \<Longrightarrow> pending items uitems (set_udp c p x) t \<le> pending items uitems x t"
  by (cases t; simp)+

lemma work_split:
  assumes "j < length (ex_tasks x)"
  shows "work items uitems x = sum_list (map (pending items uitems x) (take j (ex_tasks x))) +
    pending items uitems x (ex_tasks x ! j) + sum_list (map (pending items uitems x) (drop (Suc j) (ex_tasks x)))"
proof -
  have "map (pending items uitems x) (ex_tasks x) = map (pending items uitems x) (take j (ex_tasks x)) @
      pending items uitems x (ex_tasks x ! j) # map (pending items uitems x) (drop (Suc j) (ex_tasks x))"
    using id_take_nth_drop [OF assms] by (metis list.simps(9) map_append)
  then show ?thesis by (simp add: work_def)
qed

lemma work_turn:
  assumes j: "j < length (ex_tasks x)" and ts: "ex_tasks x1 = ex_tasks x"
    and less: "\<And>t. pending items uitems x1 t \<le> pending items uitems x t"
  shows "pending items uitems x1 t < pending items uitems x (ex_tasks x ! j) \<Longrightarrow> work items uitems (replace_task j t x1) < work items uitems x"
    and "work items uitems (remove_task j x1) < work items uitems x"
proof -
  have le: "sum_list (map (pending items uitems x1) ts) \<le> sum_list (map (pending items uitems x) ts)" for ts
    by (rule sum_list_mono) (rule less)
  note le = le [of "take j (ex_tasks x)"] le [of "drop (Suc j) (ex_tasks x)"]
  show "pending items uitems x1 t < pending items uitems x (ex_tasks x ! j) \<Longrightarrow>
      work items uitems (replace_task j t x1) < work items uitems x"
    unfolding work_split [OF j] using le by (simp add: work_def replace_task_def ts)
  show "work items uitems (remove_task j x1) < work items uitems x"
    unfolding work_split [OF j] using le pending_pos [of items uitems x "ex_tasks x ! j"]
    by (simp add: work_def remove_task_def ts)
qed

text \<open>Turns of tasks whose session is gone: nothing can be relayed any more.\<close>

lemma orphan_translates:
  assumes "buf B" and no: "\<not> send_ok E relay" and ev: "udp_event_ok ev" and turn: "translate_turn B E relay st ev = (as, Ok (Some st'))"
  shows "relays as = []" "(\<exists>p opens. ev = Outgoing (Some p) opens) \<or> (\<exists>fam bs. ev = Received fam None bs)"
proof -
  have enc: "\<exists>raw. frame_encode B (frame_to_peer peer (take len bs)) = Ok raw" if "len \<le> MAX_DATAGRAM" for peer len bs
    using that by (auto simp: buf.encode_eq [OF assms(1)] MAX_DATAGRAM_def)
  have "relays as = [] \<and> ((\<exists>p opens. ev = Outgoing (Some p) opens) \<or> (\<exists>fam bs. ev = Received fam None bs))"
  proof (cases ev)
    case (Outgoing r opens)
    with turn show ?thesis by (cases r) (auto simp: Let_def split: if_splits)
  next
    case (Received fam r bs)
    show ?thesis
    proof (cases r)
      case None
      with turn Received show ?thesis by (auto simp: relay_reply_def)
    next
      case (Some lp)
      obtain len peer where r: "r = Some (len, peer)" using Some by (cases lp) simp
      with ev Received have len: "len \<le> MAX_DATAGRAM" "length bs = MAX_DATAGRAM" by simp_all
      from enc [OF len(1)] obtain raw where "frame_encode B (frame_to_peer peer (take len bs)) = Ok raw" by blast
      then have "relay_reply B E r bs relay = ([], Ok False)"
        using no len by (simp add: relay_reply_def r chan_send_def)
      with turn Received show ?thesis by simp
    qed
  qed
  then show "relays as = []" "(\<exists>p opens. ev = Outgoing (Some p) opens) \<or> (\<exists>fam bs. ev = Received fam None bs)" by blast+
qed

lemma orphan_connects:
  assumes no: "\<not> send_ok E relay" and turn: "connect_turn hosts E relay st ev = (as, Ok (Some st'))"
  shows "to_client as = []" "\<exists>d c_ok w_ok. ev = FromClient (Some d) c_ok w_ok"
proof -
  have "to_client as = [] \<and> (\<exists>d c_ok w_ok. ev = FromClient (Some d) c_ok w_ok)"
    using turn no by (cases "(hosts, E, relay, st, ev)" rule: connect_turn.cases)
      (auto simp: relay_to_client_def establish_def chan_send_def Let_def split: option.splits if_splits sum.splits prod.splits)
  then show "to_client as = []" "\<exists>d c_ok w_ok. ev = FromClient (Some d) c_ok w_ok" by blast+
qed

lemma orphan_no_send:
  assumes inv: "rt_inv items s" and idle: "rt_slots s = []" and t: "t \<in> set (rt_tasks s)" and E: "sees s E"
  shows "\<not> send_ok E (task_relay t)"
proof -
  have rel: "task_relay t \<in> relay_chans (conns (rt_slots s)) (rt_tasks s)" using t by (simp add: relay_chans_def)
  then have "task_relay t \<notin> input_chans (conns (rt_slots s)) (rt_tasks s)" "task_relay t < next_chan (rt_world s)"
    using rt_inv_parts(4) [OF inv] unfolding chans_ok_def by blast+
  then have "\<not> has_receiver s (task_relay t)" unfolding has_receiver_def input_chans_def by (auto simp: idle)
  with E \<open>task_relay t < _\<close> show ?thesis by (simp add: sees_def)
qed

lemma polls_length:
  assumes "mpsc Q items" and "polls Q b q r q'"
  shows "length (items q') \<le> length (items q)" "r = Some d \<Longrightarrow> length (items q') < length (items q)"
proof -
  show less: "r = Some d \<Longrightarrow> length (items q') < length (items q)" for d
    using pollsD(1) [OF assms, of d] by simp
  show "length (items q') \<le> length (items q)"
  proof (cases r)
    case None
    from pollsD(2) [OF assms None] show ?thesis by simp
  next
    case (Some d)
    from less [OF this] show ?thesis by simp
  qed
qed

text \<open>The turn of a translator in which the read of one of its sockets fails: nothing is relayed and no channel changes.\<close>

definition failed_read :: "buf_api \<Rightarrow> ('r, 'q, 'p) runtime \<Rightarrow> ('q, 'p) executor \<Rightarrow> bool" where
  "failed_read B s x = (\<exists>j rx relay st st' E fam bs as. j < length (rt_tasks s) \<and> rt_tasks s ! j = TranslateTask rx relay st \<and>
     translate_enabled st (Received fam None bs) \<and> translate_turn B E relay st (Received fam None bs) = (as, Ok (Some st')) \<and>
     relays as = [] \<and> x = replace_task j (TranslateTask rx relay st') (rt_exec s))"

lemma orphan_step:
  assumes Q: "mpsc Q items" and U: "mpsc U uitems" and B: "buf B" and inv: "rt_inv items s" and idle: "rt_slots s = []"
    and step: "task_step B Q U hosts s x"
  shows "work items uitems x < work items uitems (rt_exec s) \<or> failed_read B s x"
  using step
proof cases
  case (translates j rx relay st ev q E as st')
  have no: "\<not> send_ok E relay"
    using orphan_no_send [OF inv idle nth_mem [OF translates(2)] translates(7)] translates(3) by simp
  note orphan_translates [OF B no translates(5,8)]
  then show ?thesis
  proof (elim disjE exE)
    fix p opens
    assume r: "relays as = []" and "ev = Outgoing (Some p) opens"
    with translates(6) have "polls U (has_sender s rx) (ex_udp (rt_exec s) rx) (Some p) q" by simp
    from polls_length [OF U this] work_turn(1) [OF translates(2), of "set_udp rx q (rt_exec s)" items uitems "TranslateTask rx relay st'"]
      pending_read(2) [of uitems q "rt_exec s" rx items] translates(3) r
    show ?thesis unfolding translates(1) by simp
  next
    fix fam bs
    assume r: "relays as = []" and "ev = Received fam None bs"
    with translates(6) have "set_udp rx q (rt_exec s) = rt_exec s" by (simp add: set_udp_def)
    moreover have "translate_enabled st (Received fam None bs)" "translate_turn B E relay st (Received fam None bs) = (as, Ok (Some st'))"
      using translates(4,8) \<open>ev = _\<close> by simp_all
    ultimately have "failed_read B s x"
      unfolding failed_read_def using translates(1-3) r by (intro exI conjI) (assumption | simp)+
    then show ?thesis by simp
  qed
next
  case (translate_ends j rx relay st ev q E as res)
  from translate_ends(6) have "length (uitems q) \<le> length (uitems (ex_udp (rt_exec s) rx))"
    by (cases ev) (auto dest: polls_length(1) [OF U])
  from work_turn(2) [OF translate_ends(2), of "set_udp rx q (rt_exec s)" items uitems] pending_read(2) [OF this]
  show ?thesis unfolding translate_ends(1) translate_end_relays [OF translate_ends(8,9)] by simp
next
  case (connects j rx relay st ev q E as st')
  have no: "\<not> send_ok E relay"
    using orphan_no_send [OF inv idle nth_mem [OF connects(2)] connects(6)] connects(3) by simp
  from orphan_connects(2) [OF no connects(7)] connects(5)
  obtain d where "polls Q (has_sender s rx) (ex_bytes (rt_exec s) rx) (Some d) q" by auto
  from polls_length [OF Q this] work_turn(1) [OF connects(2), of "set_bytes rx q (rt_exec s)" items uitems "ConnectTask rx relay st'"]
    pending_read(1) [of items q "rt_exec s" rx uitems] connects(3) orphan_connects(1) [OF no connects(7)]
  show ?thesis unfolding connects(1) by simp
next
  case (connect_returns j rx relay st ev q E as)
  from connect_returns(5) have "length (items q) \<le> length (items (ex_bytes (rt_exec s) rx))"
    by (cases ev) (auto dest: polls_length(1) [OF Q])
  from work_turn(2) [OF connect_returns(2), of "set_bytes rx q (rt_exec s)" items uitems] pending_read(1) [OF this]
    connect_end_relays [OF connect_returns(7)]
  show ?thesis unfolding connect_returns(1) by simp
next
  case (connect_fails j rx relay st ev q E as e)
  from connect_fails(5) have "length (items q) \<le> length (items (ex_bytes (rt_exec s) rx))"
    by (cases ev) (auto dest: polls_length(1) [OF Q])
  from work_turn(1) [OF connect_fails(2), of "set_bytes rx q (rt_exec s)" items uitems "FailedTask relay"] pending_read(1) [OF this]
    connect_end_relays [OF connect_fails(7)] connect_fails(3)
  show ?thesis unfolding connect_fails(1) by simp
next
  case (dns_answers j rx relay r q E lookup es)
  have no: "\<not> send_ok E relay"
    using orphan_no_send [OF inv idle nth_mem [OF dns_answers(2)] dns_answers(5)] dns_answers(3) by simp
  with dns_answers(6) show ?thesis by (cases r) (simp_all add: chan_send_def)
next
  case (dns_returns j rx relay r q E lookup es)
  have "es = []" using dns_relays [OF dns_returns(6)] by auto
  with work_turn(2) [OF dns_returns(2), of "set_bytes rx q (rt_exec s)" items uitems]
    pending_read(1) [OF polls_length(1) [OF Q dns_returns(4)]]
  show ?thesis unfolding dns_returns(1) by simp
next
  case (dns_fails j rx relay r q E lookup es e)
  have "es = []" using dns_relays [OF dns_fails(6)] by auto
  with work_turn(1) [OF dns_fails(2), of "set_bytes rx q (rt_exec s)" items uitems "FailedTask relay"]
    pending_read(1) [OF polls_length(1) [OF Q dns_fails(4)]] dns_fails(3)
  show ?thesis unfolding dns_fails(1) by simp
next
  case (reports j relay E)
  have "\<not> send_ok E relay"
    using orphan_no_send [OF inv idle nth_mem [OF reports(2)] reports(4)] reports(3) by simp
  with work_turn(2) [OF reports(2), of "rt_exec s" items uitems] show ?thesis
    unfolding reports(1) by (simp add: chan_send_def)
qed

text \<open>And there is always a turn to take, one that brings the end nearer.\<close>

lemma progress_translate:
  assumes U: "mpsc U uitems" and j: "j < length (rt_tasks s)" and t: "rt_tasks s ! j = TranslateTask rx relay st"
    and closed: "\<not> has_sender s rx"
  shows "\<exists>x. task_step B Q U hosts s x \<and> work items uitems x < work items uitems (rt_exec s)"
proof -
  obtain d q where p: "polls U (has_sender s rx) (ex_udp (rt_exec s) rx) d q"
    using polls_closed [OF closed, of U] by blast
  let ?x = "set_udp rx q (rt_exec s)" and ?ev = "Outgoing d True"
  obtain as res where turn: "translate_turn B (env_of s) relay st ?ev = (as, res)" by fastforce
  have ev: "translate_enabled st ?ev" "udp_event_ok ?ev" "udp_ready U s rx ?ev q" using p by simp_all
  note less = work_turn [OF j, of ?x items uitems] pending_read(2) [OF polls_length(1) [OF U p]]
  show ?thesis
  proof (cases d)
    case None
    then have res: "\<forall>st'. res \<noteq> Ok (Some st')" using turn by auto
    from task_step.translate_ends [OF j t ev sees_env_of turn res] less(2,3) show ?thesis
      unfolding translate_end_relays [OF turn res] by auto
  next
    case (Some y)
    then obtain st' where st': "res = Ok (Some st')" "relays as = []"
      using turn by (cases y) (auto simp: Let_def split: if_splits)
    from task_step.translates [OF j t ev sees_env_of turn [unfolded st'(1)]] less(1,3) st'(2) t polls_length(2) [OF U p Some]
    show ?thesis by fastforce
  qed
qed

lemma progress_connect:
  assumes Q: "mpsc Q items" and j: "j < length (rt_tasks s)" and t: "rt_tasks s ! j = ConnectTask rx relay st"
    and closed: "\<not> has_sender s rx" and no: "\<not> send_ok (env_of s) relay"
  shows "\<exists>x. task_step B Q U hosts s x \<and> work items uitems x < work items uitems (rt_exec s)"
proof -
  obtain d q where p: "polls Q (has_sender s rx) (ex_bytes (rt_exec s) rx) d q"
    using polls_closed [OF closed, of Q] by blast
  let ?x = "set_bytes rx q (rt_exec s)" and ?ev = "FromClient d True True"
  obtain as res where turn: "connect_turn hosts (env_of s) relay st ?ev = (as, res)" by fastforce
  have ev: "connect_enabled st ?ev" "connect_ready Q s rx ?ev q" using p by simp_all
  note less = work_turn [OF j, of ?x items uitems] pending_read(1) [OF polls_length(1) [OF Q p]]
  consider (fails) e where "res = Err e" | (returns) "res = Ok None" | (goes_on) st' where "res = Ok (Some st')"
    by (metis not_None_eq sum.exhaust)
  then show ?thesis
  proof cases
    case fails
    note turn = turn [unfolded fails]
    from task_step.connect_fails [OF j t ev sees_env_of turn] less(1,3) connect_end_relays [OF turn] t show ?thesis by fastforce
  next
    case returns
    note turn = turn [unfolded returns]
    from task_step.connect_returns [OF j t ev sees_env_of turn] less(2,3) connect_end_relays [OF turn] show ?thesis by fastforce
  next
    case goes_on
    note turn = turn [unfolded goes_on]
    from orphan_connects [OF no turn] obtain d' where "d = Some d'" "to_client as = []" by auto
    with task_step.connects [OF j t ev sees_env_of turn] less(1,3) t polls_length(2) [OF Q p] show ?thesis by fastforce
  qed
qed

lemma progress_dns:
  assumes Q: "mpsc Q items" and j: "j < length (rt_tasks s)" and t: "rt_tasks s ! j = DnsTask rx relay"
    and closed: "\<not> has_sender s rx" and no: "\<not> send_ok (env_of s) relay"
  shows "\<exists>x. task_step B Q U hosts s x \<and> work items uitems x < work items uitems (rt_exec s)"
proof -
  obtain d q where p: "polls Q (has_sender s rx) (ex_bytes (rt_exec s) rx) d q"
    using polls_closed [OF closed, of Q] by blast
  note less = work_turn [OF j, of "set_bytes rx q (rt_exec s)" items uitems] pending_read(1) [OF polls_length(1) [OF Q p]]
  show ?thesis
  proof (cases d)
    case None
    then have turn: "dns_run (\<lambda>_. None) relay [(env_of s, d)] = ([], Ok Returned)" by simp
    from task_step.dns_returns [OF j t p sees_env_of turn] less(2,3) show ?thesis by fastforce
  next
    case (Some y)
    then have turn: "dns_run (\<lambda>_. None) relay [(env_of s, d)] = ([], Err External)" using no by (simp add: chan_send_def)
    from task_step.dns_fails [OF j t p sees_env_of turn] less(1,3) t show ?thesis by fastforce
  qed
qed

lemma orphan_progress:
  assumes Q: "mpsc Q items" and U: "mpsc U uitems" and inv: "rt_inv items s" and idle: "rt_slots s = []"
    and some: "rt_tasks s \<noteq> []"
  shows "\<exists>x. task_step B Q U hosts s x \<and> work items uitems x < work items uitems (rt_exec s)"
proof -
  have j: "0 < length (rt_tasks s)" using some by simp
  have closed: "\<not> has_sender s rx" if "task_rx (rt_tasks s ! 0) = Some rx" for rx
    using task_sender [OF inv nth_mem [OF j] that] by (simp add: idle)
  have no: "\<not> send_ok (env_of s) (task_relay (rt_tasks s ! 0))"
    by (rule orphan_no_send [OF inv idle nth_mem [OF j] sees_env_of])
  show ?thesis
  proof (cases "rt_tasks s ! 0")
    case (TranslateTask rx relay st)
    with progress_translate [OF U j TranslateTask] closed show ?thesis by simp
  next
    case (ConnectTask rx relay st)
    with progress_connect [OF Q j ConnectTask] closed no show ?thesis by simp
  next
    case (DnsTask rx relay)
    with progress_dns [OF Q j DnsTask] closed no show ?thesis by simp
  next
    case (FailedTask relay)
    with task_step.reports [OF j FailedTask sees_env_of, of B Q U hosts] no work_turn(2) [OF j, of "rt_exec s" items uitems]
    show ?thesis by (auto simp: chan_send_def)
  qed
qed

text \<open>C14. No task outlives its session for long. Once the last session has ended, and until another connection is accepted,
  every turn of a task brings its end nearer (there is less in its channel, or it is done), except a read of a socket
  that fails; there always is such a turn while a task is left; and so the proxy comes to a state with
  no task at all, its tables as they were.\<close>

theorem tasks_end_with_their_sessions:
  assumes "mpsc Q items" "mpsc U uitems" "buf B" and "(rt_step G B Q U hosts)\<^sup>*\<^sup>* (rt_new Q U g) s" and "rt_slots s = []"
  shows "(\<forall>x. task_step B Q U hosts s x \<longrightarrow> work items uitems x < work items uitems (rt_exec s) \<or> failed_read B s x) \<and>
    (rt_tasks s \<noteq> [] \<longrightarrow> (\<exists>x. task_step B Q U hosts s x \<and> work items uitems x < work items uitems (rt_exec s))) \<and>
    (\<exists>t. (rt_step G B Q U hosts)\<^sup>*\<^sup>* s t \<and> rt_sys t = rt_sys s \<and> rt_tasks t = [])"
proof (intro conjI allI impI)
  note inv = rt_reachable_inv [OF assms(1-4)]
  show "work items uitems x < work items uitems (rt_exec s) \<or> failed_read B s x" if "task_step B Q U hosts s x" for x
    by (rule orphan_step [OF assms(1-3) inv assms(5) that])
  show "\<exists>x. task_step B Q U hosts s x \<and> work items uitems x < work items uitems (rt_exec s)" if "rt_tasks s \<noteq> []"
    by (rule orphan_progress [OF assms(1,2) inv assms(5) that])
  show "\<exists>t. (rt_step G B Q U hosts)\<^sup>*\<^sup>* s t \<and> rt_sys t = rt_sys s \<and> rt_tasks t = []"
    using inv assms(5)
  proof (induction "work items uitems (rt_exec s)" arbitrary: s rule: less_induct)
    case less
    show ?case
    proof (cases "rt_tasks s = []")
      case False
      from orphan_progress [OF assms(1,2) less(2,3) False] obtain x
        where x: "task_step B Q U hosts s x" "work items uitems x < work items uitems (rt_exec s)" by blast
      let ?s = "s\<lparr>rt_exec := x\<rparr>"
      have step: "rt_step G B Q U hosts s ?s" by (rule rt_step.task [OF x(1)])
      have "rt_inv items ?s" by (rule rt_step_inv [OF assms(1-3) less(2) step])
      from less(1) [OF _ this] x(2) less(3) obtain t
        where "(rt_step G B Q U hosts)\<^sup>*\<^sup>* ?s t" "rt_sys t = rt_sys ?s" "rt_tasks t = []" by auto
      with step show ?thesis by (intro exI [of _ t]) (simp add: converse_rtranclp_into_rtranclp)
    qed auto
  qed
qed

theorem tasks_end_with_their_sessions_witness:
  "\<exists>s t :: list_runtime. demo_step\<^sup>*\<^sup>* demo_new s \<and> rt_slots s = [] \<and> rt_tasks s = [ConnectTask 1 0 connect_new] \<and>
    demo_step\<^sup>*\<^sup>* s t \<and> rt_tasks t = []"
  using demo_orphan tasks_end_with_their_sessions [OF list_queue.mpsc_axioms list_queue.mpsc_axioms be.buf_axioms,
      where G = counter_rng and g = 0 and hosts = "[]"] by blast

section \<open>Turns that do not panic\<close>

lemma task_turn_errors:
  assumes "buf B"
  shows "udp_event_ok ev \<Longrightarrow> translate_turn B E relay st ev = (as, tres) \<Longrightarrow> is_ok tres"
    and "connect_turn hosts E relay cst cev = (cas, Err e) \<Longrightarrow> \<not> unwinds e"
    and "dns_run lookup relay qs = (es, Err e) \<Longrightarrow> \<not> unwinds e"
proof -
  show "is_ok tres" if "udp_event_ok ev" "translate_turn B E relay st ev = (as, tres)"
    using that by (cases "(B, E, relay, st, ev)" rule: translate_turn.cases)
      (auto simp: relay_reply_def Let_def split: option.splits if_splits sum.splits prod.splits bool.splits)
  have parse: "\<not> unwinds e" if "parse_header b = Err e" for b e
    using that by (auto simp: parse_header_def Let_def split: option.splits if_splits)
  show "\<not> unwinds e" if "connect_turn hosts E relay cst cev = (cas, Err e)"
    using that by (cases "(hosts, E, relay, cst, cev)" rule: connect_turn.cases)
      (auto simp: relay_to_client_def establish_def chan_send_def Let_def parse split: option.splits if_splits sum.splits prod.splits)
  show "\<not> unwinds e" if "dns_run lookup relay qs = (es, Err e)"
    using that by (induction lookup relay qs arbitrary: es rule: dns_run.induct) (auto simp: chan_send_def split: if_splits prod.splits)
qed

end
