(* ===== verification/Locks.thy ===== *)
theory Locks
  imports Service
begin

text \<open>
  The two mutexes of the proxy and what is done under them: the one around \<open>ProxyService\<close>
  (\<open>src/service/service.rs\<close>) and the one around \<open>NetworkState\<close> (\<open>src/service/net/network.rs\<close>).
  Sessions run on several threads, so the operations they ask for interleave statement by statement.
  Here every operation is the list of its statements, locks included, and any number of sessions
  run them at once. Elsewhere an operation is one step; this theory shows that it may be.
\<close>

section \<open>Statements\<close>

datatype lock = ServiceLock | NetworkLock

text \<open>What each mutex guards; the counter of client numbers goes with the table that it numbers.\<close>

type_synonym service_data = "u64 \<times> (u64, client_handle) hmap"
type_synonym 'r network_data = "network_state \<times> 'r"

datatype outcome =
    Joined client_handle
  | Removed "unit result"
  | Assigned ipv6 passcode
  | Bound "bind_handler result"
  | Routed "lease result"
  | Unbound
  | Delivered "chan option"

text \<open>The local variables of an operation. The outcome is there once it has returned, early or not.\<close>

record locals =
  lv_client :: client_handle
  lv_address :: ipv6
  lv_passcode :: passcode
  lv_assignment :: assignment
  lv_out :: "outcome option"

definition locals_new :: locals where
  "locals_new = \<lparr>lv_client = \<lparr>client_id = 0, client_addr = SockV4 0 0\<rparr>, lv_address = 0, lv_passcode = Passcode '''',
     lv_assignment = \<lparr>passcode = Passcode '''', binds = 0, touched = 0\<rparr>, lv_out = None\<rparr>"

text \<open>
  A statement: taking a lock, dropping its guard, or reading and writing what it guards. A statement on the
  network may be one turn of a loop, and then says whether there is to be another; \<open>None\<close> is a
  draw that does not return.
\<close>

datatype 'r stmt =
    Acquire lock
  | Release lock
  | OnService "locals \<Rightarrow> service_data \<Rightarrow> locals \<times> service_data"
  | OnNetwork "locals \<Rightarrow> 'r network_data \<Rightarrow> (locals \<times> 'r network_data \<times> bool) option"

type_synonym 'r code = "'r stmt list"

definition with_lock :: "lock \<Rightarrow> 'r code \<Rightarrow> 'r code" where
  "with_lock l body = Acquire l # body @ [Release l]"

text \<open>Statements that are skipped once the operation has returned.\<close>

definition on_service :: "(locals \<Rightarrow> service_data \<Rightarrow> locals \<times> service_data) \<Rightarrow> 'r stmt" where
  "on_service f = OnService (\<lambda>l d. if lv_out l \<noteq> None then (l, d) else f l d)"

definition on_network :: "(locals \<Rightarrow> network_state \<Rightarrow> locals \<times> network_state) \<Rightarrow> 'r stmt" where
  "on_network f = OnNetwork (\<lambda>l (s, r). if lv_out l \<noteq> None then Some (l, (s, r), False)
     else (case f l s of (l, s) \<Rightarrow> Some (l, (s, r), False)))"

definition returns :: "outcome \<Rightarrow> locals \<Rightarrow> locals" where
  "returns x l = l\<lparr>lv_out := Some x\<rparr>"

section \<open>The operations of the network\<close>

text \<open>One turn of the loop of \<open>assign\<close>: a draw, and whether it is taken.\<close>

definition assign_draw :: "'r rng_api \<Rightarrow> locals \<Rightarrow> 'r network_data \<Rightarrow> (locals \<times> 'r network_data \<times> bool) option" where
  "assign_draw G l d =
     (case d of (s, r) \<Rightarrow>
        (case random_address G r of None \<Rightarrow> None
         | Some (address, r1) \<Rightarrow>
             (case passcode_new G r1 of None \<Rightarrow> None
              | Some (pc, r2) \<Rightarrow>
                  Some (l\<lparr>lv_address := address, lv_passcode := pc\<rparr>, (s, r2),
                    hm_get (by_address s) address \<noteq> None \<or> hm_get (by_passcode s) pc \<noteq> None))))"

definition locked_assign :: "'r rng_api \<Rightarrow> env \<Rightarrow> 'r code" where
  "locked_assign G E = with_lock NetworkLock
    [on_network (\<lambda>l s. (l, expire (clock1 E) s)),
     OnNetwork (assign_draw G),
     on_network (\<lambda>l s. (l, s\<lparr>by_address := hm_insert (lv_address l)
       \<lparr>passcode = lv_passcode l, binds = 0, touched = clock2 E\<rparr> (by_address s)\<rparr>)),
     on_network (\<lambda>l s. (l, s\<lparr>by_passcode := hm_insert (lv_passcode l) (lv_address l) (by_passcode s)\<rparr>)),
     on_network (\<lambda>l s. (returns (Assigned (lv_address l) (lv_passcode l)) l, s))]"

definition locked_bind :: "env \<Rightarrow> passcode \<Rightarrow> u16 \<Rightarrow> chan \<Rightarrow> chan \<Rightarrow> 'r code" where
  "locked_bind E pc port relay egress =
    (if port = 0 then [on_service (\<lambda>l d. (returns (Bound (Err (Bail ''Cannot bind port 0''))) l, d))]
     else with_lock NetworkLock
      [on_network (\<lambda>l s. (case hm_get (by_passcode s) pc of
           None \<Rightarrow> (returns (Bound (Err (Bail ''Unknown or expired passcode''))) l, s)
         | Some address \<Rightarrow> (l\<lparr>lv_address := address\<rparr>, s))),
       on_network (\<lambda>l s. (if hm_get (routes s) (lv_address l, port) \<noteq> None
         then (returns (Bound (Err (Bail (''Port '' @ show_dec (unat port) @ '' is already bound on '' @ show_ipv6 (lv_address l))))) l, s)
         else (l, s))),
       on_network (\<lambda>l s. (case hm_get (by_address s) (lv_address l) of
           None \<Rightarrow> (returns (Bound (Err (Bail ''Assignment is missing''))) l, s)
         | Some a \<Rightarrow> (l\<lparr>lv_assignment := a\<rparr>, s))),
       on_network (\<lambda>l s. (l, s\<lparr>by_address := hm_insert (lv_address l)
         ((lv_assignment l)\<lparr>binds := binds (lv_assignment l) + 1, touched := clock1 E\<rparr>) (by_address s)\<rparr>)),
       on_network (\<lambda>l s. (l, s\<lparr>routes := hm_insert (lv_address l, port) relay (routes s)\<rparr>)),
       on_network (\<lambda>l s. (returns (Bound (Ok \<lparr>bind_key = (lv_address l, port), bind_egress = egress\<rparr>)) l, s))])"

definition locked_unbind :: "env \<Rightarrow> route_key \<Rightarrow> 'r code" where
  "locked_unbind E key = with_lock NetworkLock
    [on_network (\<lambda>l s. (if hm_get (routes s) key = None then returns Unbound l else l, s\<lparr>routes := hm_remove key (routes s)\<rparr>)),
     on_network (\<lambda>l s. (returns Unbound l, case hm_get (by_address s) (fst key) of
         None \<Rightarrow> s
       | Some a \<Rightarrow> s\<lparr>by_address := hm_insert (fst key) (a\<lparr>binds := binds a - 1, touched := clock1 E\<rparr>) (by_address s)\<rparr>))]"

text \<open>\<open>deliver\<close> sends on the route it finds before it drops the guard; the outcome is that route.\<close>

definition locked_deliver :: "route_key \<Rightarrow> 'r code" where
  "locked_deliver to = with_lock NetworkLock [on_network (\<lambda>l s. (returns (Delivered (hm_get (routes s) to)) l, s))]"

section \<open>The operations of the service\<close>

definition handle_new_client :: "socket_addr \<Rightarrow> 'r code" where
  "handle_new_client remote = with_lock ServiceLock
    [on_service (\<lambda>l (n, m). (l\<lparr>lv_client := \<lparr>client_id = n, client_addr = remote\<rparr>\<rparr>, (n + 1, m))),
     on_service (\<lambda>l (n, m). (returns (Joined (lv_client l)) l, (n, hm_insert (client_id (lv_client l)) (lv_client l) m)))]"

definition handle_remove_client :: "client_handle \<Rightarrow> 'r code" where
  "handle_remove_client h = with_lock ServiceLock
    [on_service (\<lambda>l (n, m). case hm_get m (client_id h) of
         Some _ \<Rightarrow> (returns (Removed (Ok ())) l, (n, hm_remove (client_id h) m))
       | None \<Rightarrow> (returns (Removed (Err (Panic ''Integrity error, removed invalid client''))) l, (n, m)))]"

definition handle_assign :: "'r rng_api \<Rightarrow> env \<Rightarrow> 'r code" where
  "handle_assign G E = with_lock ServiceLock (locked_assign G E)"

definition handle_bind :: "env \<Rightarrow> passcode \<Rightarrow> u16 \<Rightarrow> chan \<Rightarrow> chan \<Rightarrow> 'r code" where
  "handle_bind E pc port relay egress = with_lock ServiceLock (locked_bind E pc port relay egress)"

definition handle_route :: "socket_addr \<Rightarrow> chan \<Rightarrow> chan \<Rightarrow> 'r code" where
  "handle_route addr relay tx = with_lock ServiceLock
    [on_service (\<lambda>l d. (returns (Routed
       (if addr = CONNECT_PROXY then and_then (connect_into_lease (connect_proxy_new relay) tx) (\<lambda>(es, h). Ok (ConnectLease h))
        else if addr = DNS_PROXY then and_then (dns_into_lease (dns_proxy_new relay) tx) (\<lambda>(es, h). Ok (DnsLease h))
        else Err (Bail ''Only the proxy's own services can be reached with PROXY''))) l, d))]"

text \<open>
  What a session may ask for. Binding goes through the service, like assigning; unbinding and delivering are
  done by a lease, which has the network at hand. The channel an operation makes is named by its caller.
\<close>

datatype request =
    NewClient socket_addr
  | RemoveClient client_handle
  | Assign env
  | Bind env passcode u16 chan chan
  | Route socket_addr chan chan
  | Unbind env route_key
  | Deliver route_key

fun code_of :: "'r rng_api \<Rightarrow> request \<Rightarrow> 'r code" where
  "code_of G (NewClient remote) = handle_new_client remote"
| "code_of G (RemoveClient h) = handle_remove_client h"
| "code_of G (Assign E) = handle_assign G E"
| "code_of G (Bind E pc port relay egress) = handle_bind E pc port relay egress"
| "code_of G (Route addr relay tx) = handle_route addr relay tx"
| "code_of G (Unbind E key) = locked_unbind E key"
| "code_of G (Deliver to) = locked_deliver to"

section \<open>Threads\<close>

text \<open>A session is idle, or in the middle of a request with the statements that are left.\<close>

datatype 'r thread = Idle | Busy request locals "'r code"

datatype call = Asks nat request | Answers nat outcome

record 'r machine =
  m_service :: service_data
  m_network :: "'r network_data"
  m_owner :: "lock \<Rightarrow> nat option"
  m_threads :: "'r thread list"
  m_calls :: "call list"

definition set_thread :: "nat \<Rightarrow> 'r thread \<Rightarrow> 'r machine \<Rightarrow> 'r machine" where
  "set_thread i t M = M\<lparr>m_threads := (m_threads M)[i := t]\<rparr>"

definition log_call :: "call \<Rightarrow> 'r machine \<Rightarrow> 'r machine" where
  "log_call c M = M\<lparr>m_calls := m_calls M @ [c]\<rparr>"

text \<open>One statement of one session. A session waits for a lock that is taken.\<close>

inductive turn :: "nat \<Rightarrow> 'r machine \<Rightarrow> 'r machine \<Rightarrow> bool" for i M where
  acquires: "i < length (m_threads M) \<Longrightarrow> m_threads M ! i = Busy req l (Acquire k # p) \<Longrightarrow> m_owner M k = None \<Longrightarrow>
     turn i M (set_thread i (Busy req l p) (M\<lparr>m_owner := (m_owner M)(k := Some i)\<rparr>))"
| releases: "i < length (m_threads M) \<Longrightarrow> m_threads M ! i = Busy req l (Release k # p) \<Longrightarrow>
     turn i M (set_thread i (Busy req l p) (M\<lparr>m_owner := (m_owner M)(k := None)\<rparr>))"
| on_service: "i < length (m_threads M) \<Longrightarrow> m_threads M ! i = Busy req l (OnService f # p) \<Longrightarrow> f l (m_service M) = (l', d) \<Longrightarrow>
     turn i M (set_thread i (Busy req l' p) (M\<lparr>m_service := d\<rparr>))"
| on_network: "i < length (m_threads M) \<Longrightarrow> m_threads M ! i = Busy req l (OnNetwork f # p) \<Longrightarrow>
     f l (m_network M) = Some (l', d, again) \<Longrightarrow>
     turn i M (set_thread i (Busy req l' (if again then OnNetwork f # p else p)) (M\<lparr>m_network := d\<rparr>))"

inductive lock_step :: "'r rng_api \<Rightarrow> 'r machine \<Rightarrow> 'r machine \<Rightarrow> bool" for G M where
  call: "i < length (m_threads M) \<Longrightarrow> m_threads M ! i = Idle \<Longrightarrow>
     lock_step G M (log_call (Asks i req) (set_thread i (Busy req locals_new (code_of G req)) M))"
| turn: "turn i M M' \<Longrightarrow> lock_step G M M'"
| return: "i < length (m_threads M) \<Longrightarrow> m_threads M ! i = Busy req l [] \<Longrightarrow> lv_out l = Some x \<Longrightarrow>
     lock_step G M (log_call (Answers i x) (set_thread i Idle M))"

text \<open>Any number of sessions, all idle, over a world.\<close>

definition service_part :: "'r world \<Rightarrow> service_data" where
  "service_part w = (id_counter w, clients (service w))"

definition network_part :: "'r world \<Rightarrow> 'r network_data" where
  "network_part w = (net_of w, rng w)"

definition machine_new :: "'r world \<Rightarrow> nat \<Rightarrow> 'r machine" where
  "machine_new w n = \<lparr>m_service = service_part w, m_network = network_part w, m_owner = (\<lambda>_. None),
     m_threads = replicate n Idle, m_calls = []\<rparr>"

section \<open>Operations in one step\<close>

text \<open>What the operations are elsewhere in the development: functions of the world.\<close>

fun atomically :: "'r rng_api \<Rightarrow> request \<Rightarrow> 'r world \<Rightarrow> ('r world \<times> outcome) option" where
  "atomically G (NewClient remote) w = (case service_new_client remote w of (w, h) \<Rightarrow> Some (w, Joined h))"
| "atomically G (RemoveClient h) w = (case service_remove_client h w of (w, r) \<Rightarrow> Some (w, Removed r))"
| "atomically G (Assign E) w = map_option (\<lambda>((address, pc), w). (w, Assigned address pc)) (service_assign G E w)"
| "atomically G (Bind E pc port relay egress) w =
     (case network_bind E pc port relay egress (net_of w) of (s, es, r) \<Rightarrow> Some (set_network s w, Bound r))"
| "atomically G (Route addr relay tx) w =
     Some (w, Routed (snd (snd (service_route addr relay (w\<lparr>next_chan := tx\<rparr>)))))"
| "atomically G (Unbind E key) w = Some (set_network (network_unbind E key (net_of w)) w, Unbound)"
| "atomically G (Deliver to) w = Some (w, Delivered (hm_get (routes (net_of w)) to))"

text \<open>The machine in which a request is carried out in one step, some time between its call and its return.\<close>

datatype phase = Resting | Asked request | Answered outcome

record 'r atomic =
  a_world :: "'r world"
  a_phases :: "phase list"
  a_calls :: "call list"

inductive atomic_step :: "'r rng_api \<Rightarrow> 'r atomic \<Rightarrow> 'r atomic \<Rightarrow> bool" for G A where
  asks: "i < length (a_phases A) \<Longrightarrow> a_phases A ! i = Resting \<Longrightarrow>
     atomic_step G A (A\<lparr>a_phases := (a_phases A)[i := Asked req], a_calls := a_calls A @ [Asks i req]\<rparr>)"
| happens: "i < length (a_phases A) \<Longrightarrow> a_phases A ! i = Asked req \<Longrightarrow> atomically G req (a_world A) = Some (w, x) \<Longrightarrow>
     atomic_step G A (A\<lparr>a_phases := (a_phases A)[i := Answered x], a_world := w\<rparr>)"
| returns: "i < length (a_phases A) \<Longrightarrow> a_phases A ! i = Answered x \<Longrightarrow>
     atomic_step G A (A\<lparr>a_phases := (a_phases A)[i := Resting], a_calls := a_calls A @ [Answers i x]\<rparr>)"

definition atomic_new :: "'r world \<Rightarrow> nat \<Rightarrow> 'r atomic" where
  "atomic_new w n = \<lparr>a_world = w, a_phases = replicate n Resting, a_calls = []\<rparr>"

section \<open>A section under a lock\<close>

fun is_service :: "'r stmt \<Rightarrow> bool" where
  "is_service (OnService f) = True"
| "is_service _ = False"

fun is_network :: "'r stmt \<Rightarrow> bool" where
  "is_network (OnNetwork f) = True"
| "is_network _ = False"

inductive on_svc :: "'r code \<times> locals \<times> service_data \<Rightarrow> 'r code \<times> locals \<times> service_data \<Rightarrow> bool" where
  "on_svc (OnService f # p, l, d) (p, f l d)"

inductive on_net :: "'r code \<times> locals \<times> 'r network_data \<Rightarrow> 'r code \<times> locals \<times> 'r network_data \<Rightarrow> bool" where
  "f l d = Some (l', d', again) \<Longrightarrow> on_net (OnNetwork f # p, l, d) (if again then OnNetwork f # p else p, l', d')"

inductive_simps on_svc_Cons [simp]: "on_svc (OnService f # p, l, d) y"
inductive_simps on_svc_Nil [simp]: "on_svc ([], l, d) y"
inductive_simps on_net_Cons: "on_net (OnNetwork f # p, l, d) y"
inductive_simps on_net_Nil [simp]: "on_net ([], l, d) y"

lemma svc_done [simp]: "on_svc\<^sup>*\<^sup>* ([], l, d) y \<longleftrightarrow> y = ([], l, d)"
  by (auto elim: converse_rtranclpE)

lemma net_done [simp]: "on_net\<^sup>*\<^sup>* ([], l, d) y \<longleftrightarrow> y = ([], l, d)"
  by (auto elim: converse_rtranclpE)

lemma svc_runs [simp]:
  "on_svc\<^sup>*\<^sup>* (on_service f # p, l, d) ([], l', d') \<longleftrightarrow>
     on_svc\<^sup>*\<^sup>* (p, if lv_out l \<noteq> None then (l, d) else f l d) ([], l', d')"
proof
  assume "on_svc\<^sup>*\<^sup>* (on_service f # p, l, d) ([], l', d')"
  then show "on_svc\<^sup>*\<^sup>* (p, if lv_out l \<noteq> None then (l, d) else f l d) ([], l', d')"
    by (cases rule: converse_rtranclpE) (auto simp: on_service_def)
next
  assume "on_svc\<^sup>*\<^sup>* (p, if lv_out l \<noteq> None then (l, d) else f l d) ([], l', d')"
  then show "on_svc\<^sup>*\<^sup>* (on_service f # p, l, d) ([], l', d')"
    by (rule converse_rtranclp_into_rtranclp [rotated]) (auto simp: on_service_def)
qed

lemma net_runs [simp]:
  "on_net\<^sup>*\<^sup>* (on_network f # p, l, (s, r)) ([], l', d') \<longleftrightarrow>
     (if lv_out l \<noteq> None then on_net\<^sup>*\<^sup>* (p, l, (s, r)) ([], l', d')
      else on_net\<^sup>*\<^sup>* (p, fst (f l s), (snd (f l s), r)) ([], l', d'))" (is "?lhs = ?rhs")
proof
  assume ?lhs
  then show ?rhs
    by (cases rule: converse_rtranclpE) (auto simp: on_network_def on_net_Cons split: if_splits prod.splits)
next
  have "on_net (on_network f # p, l, (s, r)) (if lv_out l \<noteq> None then (p, l, (s, r)) else (p, fst (f l s), (snd (f l s), r)))"
    by (auto simp: on_network_def on_net_Cons split: prod.split)
  moreover assume ?rhs
  ultimately show ?lhs by (auto intro: converse_rtranclp_into_rtranclp split: if_splits)
qed

lemma draws_run:
  assumes "on_net\<^sup>*\<^sup>* (OnNetwork (assign_draw G) # p, l, (s, r)) ([], l', d')"
  shows "\<exists>a pc r2. assign_loop G now r s = Some ((a, pc), r2, assigned now a pc s) \<and>
    on_net\<^sup>*\<^sup>* (p, l\<lparr>lv_address := a, lv_passcode := pc\<rparr>, (s, r2)) ([], l', d')"
  using assms
proof (induction "(OnNetwork (assign_draw G) # p, l, (s, r))" arbitrary: l r rule: converse_rtranclp_induct)
  case (step y)
  from step(1) obtain a pc r2 used where draw: "draw_pair G r = Some ((a, pc), r2)" "used = (\<not> unused s a pc)"
    and y: "y = (if used then OnNetwork (assign_draw G) # p else p, l\<lparr>lv_address := a, lv_passcode := pc\<rparr>, (s, r2))"
    by (fastforce simp: on_net_Cons assign_draw_def draw_pair_def unused_def split: option.splits prod.splits)
  show ?case
  proof (cases used)
    case True
    with y have "y = (OnNetwork (assign_draw G) # p, l\<lparr>lv_address := a, lv_passcode := pc\<rparr>, (s, r2))" by simp
    from step(3) [OF this] obtain a' pc' r3 where "assign_loop G now r2 s = Some ((a', pc'), r3, assigned now a' pc' s)"
      "on_net\<^sup>*\<^sup>* (p, l\<lparr>lv_address := a', lv_passcode := pc'\<rparr>, (s, r3)) ([], l', d')" by auto
    with draw True show ?thesis by (subst assign_loop_draw) simp
  next
    case False
    with draw y step(2) show ?thesis by (subst assign_loop_draw) simp
  qed
qed

lemmas code_defs = handle_new_client_def handle_remove_client_def handle_assign_def handle_bind_def handle_route_def
  locked_assign_def locked_bind_def locked_unbind_def locked_deliver_def

lemma with_lock_eq [simp]: "with_lock k p = with_lock k' p' \<longleftrightarrow> k = k' \<and> p = p'"
  by (auto simp: with_lock_def)

lemma locals_new_out [simp]: "lv_out locals_new = None"
  by (simp add: locals_new_def)

lemma returns_simps [simp]: "lv_out (returns x l) = Some x" "lv_client (returns x l) = lv_client l"
  by (simp_all add: returns_def)

lemma parts_set_network [simp]:
  "service_part (set_network s w) = service_part w" "network_part (set_network s w) = (s, rng w)"
  "service_part (w\<lparr>rng := r\<rparr>) = service_part w" "network_part (w\<lparr>rng := r\<rparr>) = (net_of w, r)"
  by (simp_all add: service_part_def network_part_def)

text \<open>A section that has run to its end has done what the operation does in one step.\<close>

lemma hm_remove_absent: "hm_get m k = None \<Longrightarrow> hm_remove k m = m"
  by (simp add: hm_get_def hm_remove_def map_of_eq_None_iff delete_id)

lemma with_lock_Cons: "with_lock k us = Acquire k # us @ [Release k]"
  by (simp add: with_lock_def)

lemma service_section_done:
  assumes "code_of G req = with_lock ServiceLock us" and "list_all is_service us"
    and "on_svc\<^sup>*\<^sup>* (us, locals_new, service_part w) ([], l, d)"
  shows "\<exists>w' x. atomically G req w = Some (w', x) \<and> lv_out l = Some x \<and> service_part w' = d \<and> network_part w' = network_part w"
proof (cases req)
  case (NewClient remote)
  with assms show ?thesis
    by (auto simp: code_defs service_new_client_def client_new_def service_part_def network_part_def)
next
  case (RemoveClient h)
  with assms show ?thesis
    by (cases "hm_get (clients (service w)) (client_id h)")
      (auto simp: code_defs service_remove_client_def service_part_def network_part_def)
next
  case (Assign E)
  with assms show ?thesis by (auto simp: code_defs with_lock_Cons)
next
  case (Bind E pc port relay egress)
  with assms show ?thesis
    by (auto simp: code_defs with_lock_Cons network_bind_def network_part_def split: if_splits)
next
  case (Route addr relay tx)
  with assms show ?thesis
    by (auto simp: code_defs service_route_def)
qed (use assms(1) in \<open>auto simp: code_defs\<close>)

lemma network_section_done:
  assumes "code_of G req = with_lock NetworkLock us \<or> code_of G req = with_lock ServiceLock (with_lock NetworkLock us)"
    and "on_net\<^sup>*\<^sup>* (us, locals_new, network_part w) ([], l, d)"
  shows "\<exists>w' x. atomically G req w = Some (w', x) \<and> lv_out l = Some x \<and> network_part w' = d \<and> service_part w' = service_part w"
proof (cases req)
  case (Assign E)
  with assms have "on_net\<^sup>*\<^sup>* (tl (butlast (locked_assign G E)), locals_new, (net_of w, rng w)) ([], l, d)"
    by (auto simp: handle_assign_def locked_assign_def with_lock_Cons network_part_def)
  then have "on_net\<^sup>*\<^sup>* (OnNetwork (assign_draw G) # drop 2 (tl (butlast (locked_assign G E))), locals_new, (expire (clock1 E) (net_of w), rng w)) ([], l, d)"
    by (simp add: locked_assign_def with_lock_Cons)
  from draws_run [OF this, of "clock2 E"] show ?thesis
    using Assign by (auto simp: locked_assign_def with_lock_Cons service_assign_def network_assign_def assigned_def)
next
  case (Bind E pc port relay egress)
  with assms show ?thesis
    by (auto simp: code_defs with_lock_Cons network_bind_def network_part_def Let_def split: if_splits option.splits)
next
  case (Unbind E key)
  with assms show ?thesis
    by (auto simp: code_defs with_lock_Cons network_unbind_def network_part_def hm_remove_absent split: if_splits option.splits)
next
  case (Deliver to)
  with assms show ?thesis by (auto simp: code_defs network_part_def)
qed (use assms(1) in \<open>auto simp: code_defs with_lock_Cons on_service_def\<close>)

end
