(* ===== verification/Lock_Props.thy ===== *)
theory Lock_Props
  imports Locks Session
begin

text \<open>
  Sessions that run their operations statement by statement, in any interleaving, cannot be told from
  sessions whose operations happen in one step: for every run there is a run of the atomic machine with
  the same calls and the same answers in the same order. Nor do they wait for each other for ever.
\<close>

section \<open>Where an operation stands\<close>

text \<open>The locks held by a session that has these statements left.\<close>

fun held :: "lock \<Rightarrow> 'r code \<Rightarrow> bool" where
  "held k [] = False"
| "held k (Acquire k' # p) = (k' \<noteq> k \<and> held k p)"
| "held k (Release k' # p) = (k' = k \<or> held k p)"
| "held k (OnService f # p) = held k p"
| "held k (OnNetwork f # p) = held k p"

inductive progress ::
  "'r rng_api \<Rightarrow> service_data \<Rightarrow> 'r network_data \<Rightarrow> 'r world \<Rightarrow> request \<Rightarrow> locals \<Rightarrow> 'r code \<Rightarrow> phase \<Rightarrow> bool"
  for G sd nd w req where
  asked: "progress G sd nd w req locals_new (code_of G req) (Asked req)"
| entered: "code_of G req = with_lock ServiceLock (with_lock NetworkLock us) \<Longrightarrow> list_all is_network us \<Longrightarrow> sd = service_part w \<Longrightarrow>
     progress G sd nd w req locals_new (with_lock NetworkLock us @ [Release ServiceLock]) (Asked req)"
| in_service: "code_of G req = with_lock ServiceLock us \<Longrightarrow> list_all is_service us \<Longrightarrow>
     on_svc\<^sup>*\<^sup>* (us, locals_new, service_part w) (us', l, sd) \<Longrightarrow>
     progress G sd nd w req l (us' @ [Release ServiceLock]) (Asked req)"
| in_network: "code_of G req = with_lock NetworkLock us \<Longrightarrow> list_all is_network us \<Longrightarrow>
     on_net\<^sup>*\<^sup>* (us, locals_new, network_part w) (us', l, nd) \<Longrightarrow>
     progress G sd nd w req l (us' @ [Release NetworkLock]) (Asked req)"
| in_both: "code_of G req = with_lock ServiceLock (with_lock NetworkLock us) \<Longrightarrow> list_all is_network us \<Longrightarrow> sd = service_part w \<Longrightarrow>
     on_net\<^sup>*\<^sup>* (us, locals_new, network_part w) (us', l, nd) \<Longrightarrow>
     progress G sd nd w req l (us' @ [Release NetworkLock, Release ServiceLock]) (Asked req)"
| leaving: "lv_out l = Some x \<Longrightarrow> sd = service_part w \<Longrightarrow> progress G sd nd w req l [Release ServiceLock] (Answered x)"
| answered: "lv_out l = Some x \<Longrightarrow> progress G sd nd w req l [] (Answered x)"

text \<open>The code of every request has one of three shapes.\<close>

lemma code_shapes:
  obtains (service) us where "code_of G req = with_lock ServiceLock us" "list_all is_service us"
    | (network) us where "code_of G req = with_lock NetworkLock us" "list_all is_network us"
    | (both) us where "code_of G req = with_lock ServiceLock (with_lock NetworkLock us)" "list_all is_network us"
proof (cases req)
  case (Bind E pc port relay egress)
  with service [of "locked_bind E pc port relay egress"] both that show thesis
    by (cases "port = 0") (auto simp: code_defs on_service_def on_network_def)
qed (use service network both in \<open>auto simp: code_defs on_service_def on_network_def\<close>)

lemma on_svc_service:
  assumes "on_svc\<^sup>*\<^sup>* (us, l, d) (us', l', d')" and "list_all is_service us"
  shows "list_all is_service us'"
  using assms by (induction "(us', l', d')" arbitrary: us' l' d' rule: rtranclp_induct) (auto elim!: on_svc.cases)

lemma on_net_network:
  assumes "on_net\<^sup>*\<^sup>* (us, l, d) (us', l', d')" and "list_all is_network us"
  shows "list_all is_network us'"
  using assms by (induction "(us', l', d')" arbitrary: us' l' d' rule: rtranclp_induct)
    (auto elim!: on_net.cases split: if_splits)

lemma held_body [simp]:
  "list_all is_service us \<Longrightarrow> held k (us @ p) = held k p"
  "list_all is_network us \<Longrightarrow> held k (us @ p) = held k p"
  by (induction us) (auto elim!: is_service.elims is_network.elims)

lemma held_code [simp]: "\<not> held k (code_of G req)"
  by (cases rule: code_shapes [of G req]) (cases k; simp add: with_lock_def)+

lemma not_service [simp]: "\<not> is_service (Acquire k)" "\<not> is_service (Release k)" "\<not> is_service (OnNetwork f)"
  by simp_all

lemma body_Cons:
  "list_all is_service us \<Longrightarrow> us @ Release k # q = c # p \<Longrightarrow> us = [] \<and> c = Release k \<and> p = q \<or> (\<exists>us'. us = c # us' \<and> p = us' @ Release k # q)"
  "list_all is_network us \<Longrightarrow> us @ Release k # q = c # p \<Longrightarrow> us = [] \<and> c = Release k \<and> p = q \<or> (\<exists>us'. us = c # us' \<and> p = us' @ Release k # q)"
  by (cases us; auto)+

text \<open>What an operation has done stays as it is while others work on what it has not locked.\<close>

lemma progress_cong:
  assumes "progress G sd nd w req l p ph"
    and "held ServiceLock p \<Longrightarrow> sd' = sd \<and> service_part w' = service_part w"
    and "held NetworkLock p \<Longrightarrow> nd' = nd \<and> network_part w' = network_part w"
  shows "progress G sd' nd' w' req l p ph"
  using assms(1)
proof cases
  case asked
  then show ?thesis by (simp add: progress.asked)
next
  case (entered us)
  with assms(2) show ?thesis by (auto simp: with_lock_def intro!: progress.entered [unfolded with_lock_def, simplified])
next
  case (in_service us us')
  with on_svc_service [OF in_service(5,4)] assms(2) show ?thesis by (auto intro: progress.in_service)
next
  case (in_network us us')
  with on_net_network [OF in_network(5,4)] assms(3) show ?thesis by (auto intro: progress.in_network)
next
  case (in_both us us')
  with on_net_network [OF in_both(6,4)] assms(2,3) show ?thesis by (auto intro: progress.in_both)
next
  case (leaving x)
  with assms(2) show ?thesis by (auto intro: progress.leaving)
next
  case (answered x)
  then show ?thesis by (simp add: progress.answered)
qed

text \<open>The turns of the operation itself.\<close>

lemma progress_acquire:
  assumes "progress G sd nd w req l (Acquire k # p) ph"
    and "k = ServiceLock \<Longrightarrow> sd = service_part w" and "k = NetworkLock \<Longrightarrow> nd = network_part w"
  shows "progress G sd nd w req l p ph \<and> held k p"
  using assms(1)
proof cases
  case asked
  show ?thesis
  proof (cases rule: code_shapes [of G req])
    case (service us)
    with asked assms(2) progress.in_service [OF service, of w us locals_new sd nd] show ?thesis
      by (auto simp: with_lock_def)
  next
    case (network us)
    with asked assms(3) progress.in_network [OF network, of w us locals_new nd sd] show ?thesis
      by (auto simp: with_lock_def)
  next
    case (both us)
    with asked assms(2) progress.entered [OF both(1), of sd w nd] show ?thesis
      by (auto simp: with_lock_def)
  qed
next
  case (entered us)
  with assms(3) progress.in_both [OF entered(4-6), of us locals_new nd] show ?thesis by (auto simp: with_lock_def)
next
  case (in_service us us')
  with body_Cons(1) [OF on_svc_service [OF in_service(5,4)] in_service(1) [symmetric]] on_svc_service [OF in_service(5,4)] show ?thesis by auto
next
  case (in_network us us')
  with body_Cons(2) [OF on_net_network [OF in_network(5,4)] in_network(1) [symmetric]] on_net_network [OF in_network(5,4)] show ?thesis by auto
next
  case (in_both us us')
  with body_Cons(2) [OF on_net_network [OF in_both(6,4)] in_both(1) [symmetric]] on_net_network [OF in_both(6,4)] show ?thesis by auto
qed

lemma code_starts: "code_of G req \<noteq> Release k # p" "code_of G req \<noteq> OnService f # p" "code_of G req \<noteq> OnNetwork g # p" "code_of G req \<noteq> []"
  by (cases rule: code_shapes [of G req]; simp add: with_lock_def)+

text \<open>Dropping a guard ends the operation, or its section, at which it happens in the atomic machine.\<close>

lemma progress_release:
  assumes "progress G sd nd w req l (Release k # p) ph"
  obtains (left) "k = ServiceLock" "sd = service_part w" "progress G sd nd w req l p ph" "\<not> held ServiceLock p" "\<not> held NetworkLock p"
    | (happens) w' x where "ph = Asked req" "atomically G req w = Some (w', x)" "progress G sd nd w' req l p (Answered x)" "\<not> held k p"
        "k = ServiceLock \<Longrightarrow> service_part w' = sd \<and> network_part w' = network_part w"
        "k = NetworkLock \<Longrightarrow> network_part w' = nd \<and> service_part w' = service_part w"
  using assms
proof cases
  case asked
  with code_starts(1) [of G req k p] show thesis by metis
next
  case (entered us)
  then show thesis by (simp add: with_lock_def)
next
  case (in_service us us')
  from body_Cons(1) [OF on_svc_service [OF in_service(5,4)] in_service(1) [symmetric]] on_svc_service [OF in_service(5,4)]
  have "us' = []" "k = ServiceLock" "p = []" by auto
  with in_service(5) have run: "on_svc\<^sup>*\<^sup>* (us, locals_new, service_part w) ([], l, sd)" by simp
  from service_section_done [OF in_service(3,4) run] obtain w' x
    where "atomically G req w = Some (w', x)" "lv_out l = Some x" "service_part w' = sd" "network_part w' = network_part w" by blast
  with happens [of w' x] in_service(2) \<open>k = _\<close> \<open>p = _\<close> show thesis by (simp add: progress.answered)
next
  case (in_network us us')
  from body_Cons(2) [OF on_net_network [OF in_network(5,4)] in_network(1) [symmetric]] on_net_network [OF in_network(5,4)]
  have "us' = []" "k = NetworkLock" "p = []" by auto
  with in_network(5) have run: "on_net\<^sup>*\<^sup>* (us, locals_new, network_part w) ([], l, nd)" by simp
  from network_section_done [OF disjI1 [OF in_network(3)] run] obtain w' x
    where "atomically G req w = Some (w', x)" "lv_out l = Some x" "network_part w' = nd" "service_part w' = service_part w" by blast
  with happens [of w' x] in_network(2) \<open>k = _\<close> \<open>p = _\<close> show thesis by (simp add: progress.answered)
next
  case (in_both us us')
  from body_Cons(2) [OF on_net_network [OF in_both(6,4)] in_both(1) [symmetric]] on_net_network [OF in_both(6,4)]
  have "us' = []" "k = NetworkLock" "p = [Release ServiceLock]" by auto
  with in_both(6) have run: "on_net\<^sup>*\<^sup>* (us, locals_new, network_part w) ([], l, nd)" by simp
  from network_section_done [OF disjI2 [OF in_both(3)] run] obtain w' x
    where "atomically G req w = Some (w', x)" "lv_out l = Some x" "network_part w' = nd" "service_part w' = service_part w" by blast
  with happens [of w' x] in_both(2,5) \<open>k = _\<close> \<open>p = _\<close> show thesis by (simp add: progress.leaving)
next
  case (leaving x)
  with left show thesis by (simp add: progress.answered)
qed

lemma progress_service:
  assumes "progress G sd nd w req l (OnService f # p) ph" and "f l sd = (l', sd')"
  shows "progress G sd' nd w req l' p ph \<and> held ServiceLock p"
  using assms(1)
proof cases
  case asked
  with code_starts(2) [of G req f p] show ?thesis by metis
next
  case (entered us)
  then show ?thesis by (simp add: with_lock_def)
next
  case (in_service us us')
  note body = on_svc_service [OF in_service(5,4)]
  from body_Cons(1) [OF body in_service(1) [symmetric]] obtain us2 where us2: "us' = OnService f # us2" "p = us2 @ [Release ServiceLock]" by auto
  with assms(2) in_service(5) have "on_svc\<^sup>*\<^sup>* (us, locals_new, service_part w) (us2, l', sd')"
    by (auto intro: rtranclp.rtrancl_into_rtrancl)
  with progress.in_service [OF in_service(3,4) this] us2 in_service(2) body show ?thesis by simp
next
  case (in_network us us')
  from body_Cons(2) [OF on_net_network [OF in_network(5,4)] in_network(1) [symmetric]] on_net_network [OF in_network(5,4)]
  show ?thesis by auto
next
  case (in_both us us')
  from body_Cons(2) [OF on_net_network [OF in_both(6,4)] in_both(1) [symmetric]] on_net_network [OF in_both(6,4)]
  show ?thesis by auto
qed

lemma progress_network:
  assumes "progress G sd nd w req l (OnNetwork f # p) ph" and "f l nd = Some (l', nd', again)"
  shows "progress G sd nd' w req l' (if again then OnNetwork f # p else p) ph \<and> held NetworkLock p"
  using assms(1)
proof cases
  case asked
  with code_starts(3) [of G req f p] show ?thesis by metis
next
  case (entered us)
  then show ?thesis by (simp add: with_lock_def)
next
  case (in_service us us')
  from body_Cons(1) [OF on_svc_service [OF in_service(5,4)] in_service(1) [symmetric]] on_svc_service [OF in_service(5,4)]
  show ?thesis by auto
next
  case (in_network us us')
  note body = on_net_network [OF in_network(5,4)]
  from body_Cons(2) [OF body in_network(1) [symmetric]] obtain us2 where us2: "us' = OnNetwork f # us2" "p = us2 @ [Release NetworkLock]" by auto
  with in_network(5) on_net.intros [where f = f and p = us2, OF assms(2)]
  have "on_net\<^sup>*\<^sup>* (us, locals_new, network_part w) (if again then OnNetwork f # us2 else us2, l', nd')"
    by (auto intro: rtranclp.rtrancl_into_rtrancl)
  with progress.in_network [OF in_network(3,4) this, of sd] us2 in_network(2) body show ?thesis by (cases again) simp_all
next
  case (in_both us us')
  note body = on_net_network [OF in_both(6,4)]
  from body_Cons(2) [OF body in_both(1) [symmetric]] obtain us2 where us2: "us' = OnNetwork f # us2" "p = us2 @ [Release NetworkLock, Release ServiceLock]" by auto
  with in_both(6) on_net.intros [where f = f and p = us2, OF assms(2)]
  have "on_net\<^sup>*\<^sup>* (us, locals_new, network_part w) (if again then OnNetwork f # us2 else us2, l', nd')"
    by (auto intro: rtranclp.rtrancl_into_rtrancl)
  with progress.in_both [OF in_both(3-5) this] us2 in_both(2) body show ?thesis by (cases again) simp_all
qed

lemma progress_network_held:
  assumes "progress G sd nd w req l (OnNetwork f # p) ph"
  shows "held NetworkLock p"
  using assms
proof cases
  case asked
  with code_starts(3) show ?thesis by metis
next
  case (entered us)
  then show ?thesis by (simp add: with_lock_def)
next
  case (in_service us us')
  from body_Cons(1) [OF on_svc_service [OF in_service(5,4)] in_service(1) [symmetric]] on_svc_service [OF in_service(5,4)]
  show ?thesis by auto
next
  case (in_network us us')
  from body_Cons(2) [OF on_net_network [OF in_network(5,4)] in_network(1) [symmetric]] on_net_network [OF in_network(5,4)]
  show ?thesis by auto
next
  case (in_both us us')
  from body_Cons(2) [OF on_net_network [OF in_both(6,4)] in_both(1) [symmetric]] on_net_network [OF in_both(6,4)]
  show ?thesis by auto
qed

lemma progress_return:
  assumes "progress G sd nd w req l [] ph"
  shows "\<exists>x. ph = Answered x \<and> lv_out l = Some x"
  using assms by cases (use code_starts(4) [of G req] in \<open>auto simp: with_lock_def\<close>)

section \<open>A run with locks and a run in single steps\<close>

text \<open>A simulation that is a relation: every concrete step is matched by steps of the specification.\<close>

locale forward_simulation =
  fixes init :: 's and step :: "'s \<Rightarrow> 's \<Rightarrow> bool" and ainit :: 'a and astep :: "'a \<Rightarrow> 'a \<Rightarrow> bool" and rel :: "'s \<Rightarrow> 'a \<Rightarrow> bool"
  assumes rel_init: "rel init ainit"
    and rel_step: "rel s a \<Longrightarrow> step s t \<Longrightarrow> \<exists>b. astep\<^sup>*\<^sup>* a b \<and> rel t b"
begin

lemma run_matched: "step\<^sup>*\<^sup>* init s \<Longrightarrow> \<exists>a. astep\<^sup>*\<^sup>* ainit a \<and> rel s a"
proof (induction rule: rtranclp_induct)
  case base
  from rel_init show ?case by blast
next
  case (step s t)
  then obtain a b where "astep\<^sup>*\<^sup>* ainit a" "astep\<^sup>*\<^sup>* a b" "rel t b" using rel_step by meson
  then show ?case by (meson rtranclp_trans)
qed

end

fun thread_ok :: "'r rng_api \<Rightarrow> 'r machine \<Rightarrow> 'r world \<Rightarrow> nat \<Rightarrow> 'r thread \<Rightarrow> phase \<Rightarrow> bool" where
  "thread_ok G M w i Idle ph = (ph = Resting \<and> (\<forall>k. m_owner M k \<noteq> Some i))"
| "thread_ok G M w i (Busy req l p) ph =
     (progress G (m_service M) (m_network M) w req l p ph \<and> (\<forall>k. m_owner M k = Some i \<longleftrightarrow> held k p))"

definition matches :: "'r rng_api \<Rightarrow> 'r machine \<Rightarrow> 'r atomic \<Rightarrow> bool" where
  "matches G M A =
     (length (a_phases A) = length (m_threads M) \<and> m_calls M = a_calls A \<and>
      (m_owner M ServiceLock = None \<longrightarrow> m_service M = service_part (a_world A)) \<and>
      (m_owner M NetworkLock = None \<longrightarrow> m_network M = network_part (a_world A)) \<and>
      (\<forall>k i. m_owner M k = Some i \<longrightarrow> i < length (m_threads M)) \<and>
      (\<forall>i < length (m_threads M). thread_ok G M (a_world A) i (m_threads M ! i) (a_phases A ! i)))"

lemma thread_ok_cong:
  assumes "thread_ok G M w j t ph" and "\<And>k. m_owner M' k = Some j \<longleftrightarrow> m_owner M k = Some j"
    and "m_owner M ServiceLock = Some j \<Longrightarrow> m_service M' = m_service M \<and> service_part w' = service_part w"
    and "m_owner M NetworkLock = Some j \<Longrightarrow> m_network M' = m_network M \<and> network_part w' = network_part w"
  shows "thread_ok G M' w' j t ph"
  using assms by (cases t) (auto intro: progress_cong)

lemma matches_change:
  assumes m: "matches G M A" and i: "i < length (m_threads M)"
    and new: "m_threads M' = (m_threads M)[i := t]" "a_phases A' = (a_phases A)[i := ph]" "m_calls M' = a_calls A'"
      "thread_ok G M' (a_world A') i t ph"
    and owner: "\<And>k j. j \<noteq> i \<Longrightarrow> m_owner M' k = Some j \<longleftrightarrow> m_owner M k = Some j"
    and svc: "m_service M' = m_service M \<and> service_part (a_world A') = service_part (a_world A) \<or>
      m_owner M ServiceLock = Some i \<and> (m_owner M' ServiceLock = None \<longrightarrow> m_service M' = service_part (a_world A'))"
    and net: "m_network M' = m_network M \<and> network_part (a_world A') = network_part (a_world A) \<or>
      m_owner M NetworkLock = Some i \<and> (m_owner M' NetworkLock = None \<longrightarrow> m_network M' = network_part (a_world A'))"
    and freed: "m_owner M ServiceLock = Some i \<Longrightarrow> m_owner M' ServiceLock = None \<Longrightarrow> m_service M' = service_part (a_world A')"
      "m_owner M NetworkLock = Some i \<Longrightarrow> m_owner M' NetworkLock = None \<Longrightarrow> m_network M' = network_part (a_world A')"
  shows "matches G M' A'"
proof -
  have len: "length (a_phases A) = length (m_threads M)" using m by (simp add: matches_def)
  have ok: "thread_ok G M (a_world A) j (m_threads M ! j) (a_phases A ! j)" if "j < length (m_threads M)" for j
    using m that by (simp add: matches_def)
  have "thread_ok G M' (a_world A') j (m_threads M ! j) (a_phases A ! j)" if "j < length (m_threads M)" "j \<noteq> i" for j
    by (rule thread_ok_cong [OF ok [OF that(1)] owner [OF that(2)]]) (use that(2) svc net in auto)
  then have threads: "\<forall>j < length (m_threads M'). thread_ok G M' (a_world A') j (m_threads M' ! j) (a_phases A' ! j)"
    using new i len by (simp add: nth_list_update)
  have none: "m_owner M k = None \<or> m_owner M k = Some i" if "m_owner M' k = None" for k
    using owner [of _ k] that by (metis not_None_eq option.distinct(1))
  have "m_service M' = service_part (a_world A')" if "m_owner M' ServiceLock = None"
    using none [OF that] svc freed(1) that m unfolding matches_def by auto
  moreover have "m_network M' = network_part (a_world A')" if "m_owner M' NetworkLock = None"
    using none [OF that] net freed(2) that m unfolding matches_def by auto
  moreover have "j < length (m_threads M')" if "m_owner M' k = Some j" for k j
    using that owner [of j k] i m unfolding matches_def new(1) by (cases "j = i") auto
  ultimately show ?thesis using len new threads by (simp add: matches_def)
qed

lemma set_thread_simps [simp]:
  "m_threads (set_thread i t M) = (m_threads M)[i := t]" "m_service (set_thread i t M) = m_service M"
  "m_network (set_thread i t M) = m_network M" "m_owner (set_thread i t M) = m_owner M" "m_calls (set_thread i t M) = m_calls M"
  by (simp_all add: set_thread_def)

lemma log_call_simps [simp]:
  "m_threads (log_call c M) = m_threads M" "m_service (log_call c M) = m_service M"
  "m_network (log_call c M) = m_network M" "m_owner (log_call c M) = m_owner M" "m_calls (log_call c M) = m_calls M @ [c]"
  by (simp_all add: log_call_def)

lemma matches_thread:
  assumes "matches G M A" and "i < length (m_threads M)" and "m_threads M ! i = t"
  shows "thread_ok G M (a_world A) i t (a_phases A ! i)" "i < length (a_phases A)"
  using assms by (auto simp: matches_def)

lemma matches_calls: "matches G M A \<Longrightarrow> m_calls M = a_calls A"
  by (simp add: matches_def)

lemma matches_free:
  "matches G M A \<Longrightarrow> m_owner M ServiceLock = None \<Longrightarrow> m_service M = service_part (a_world A)"
  "matches G M A \<Longrightarrow> m_owner M NetworkLock = None \<Longrightarrow> m_network M = network_part (a_world A)"
  by (simp_all add: matches_def)

lemma turn_matched:
  assumes m: "matches G M A" and turn: "turn i M M'"
  shows "\<exists>A'. (atomic_step G)\<^sup>*\<^sup>* A A' \<and> matches G M' A'"
  using turn
proof cases
  case (acquires req l k p)
  note th = matches_thread [OF m acquires(2,3), simplified]
  from progress_acquire [of G "m_service M" "m_network M" "a_world A" req l k p "a_phases A ! i"] th(1) matches_free [OF m] acquires(4)
  have p: "progress G (m_service M) (m_network M) (a_world A) req l p (a_phases A ! i)" "held k p" by blast+
  have own: "m_owner M k' = Some i \<longleftrightarrow> k' \<noteq> k \<and> held k' p" for k' using th(1) by auto
  have "matches G M' A"
    unfolding acquires(1)
    by (rule matches_change [OF m acquires(2), where t = "Busy req l p" and ph = "a_phases A ! i"])
      (simp_all add: matches_calls [OF m] matches_free [OF m] acquires(4) p own)
  then show ?thesis by blast
next
  case (releases req l k p)
  note th = matches_thread [OF m releases(2,3), simplified]
  have own: "m_owner M k' = Some i \<longleftrightarrow> k' = k \<or> held k' p" for k' using th(1) by auto
  have other: "j \<noteq> i \<Longrightarrow> m_owner M k \<noteq> Some j" for j using own [of k] by auto
  from th(1) have "progress G (m_service M) (m_network M) (a_world A) req l (Release k # p) (a_phases A ! i)" by simp
  then show ?thesis
  proof (cases rule: progress_release)
    case left
    then have none: "\<not> held k' p" for k' by (cases k') simp_all
    have "matches G M' A"
      unfolding releases(1)
      by (rule matches_change [OF m releases(2), where t = "Busy req l p" and ph = "a_phases A ! i"])
        (simp_all add: matches_calls [OF m] left(1,3) left(2) [symmetric] own none other [unfolded left(1)])
    then show ?thesis by blast
  next
    case (happens w' x)
    let ?A = "A\<lparr>a_phases := (a_phases A)[i := Answered x], a_world := w'\<rparr>"
    have "matches G M' ?A"
      unfolding releases(1)
    proof (rule matches_change [OF m releases(2), where t = "Busy req l p" and ph = "Answered x"])
      let ?M = "set_thread i (Busy req l p) (M\<lparr>m_owner := (m_owner M)(k := None)\<rparr>)"
      show "thread_ok G ?M (a_world ?A) i (Busy req l p) (Answered x)" using happens(3,4) by (simp add: own)
      show "m_owner ?M k' = Some j \<longleftrightarrow> m_owner M k' = Some j" if "j \<noteq> i" for k' j using other [OF that] by simp
      show "m_service ?M = m_service M \<and> service_part (a_world ?A) = service_part (a_world A) \<or>
        m_owner M ServiceLock = Some i \<and> (m_owner ?M ServiceLock = None \<longrightarrow> m_service ?M = service_part (a_world ?A))"
        using happens(5,6) own [of ServiceLock] by (cases k) auto
      show "m_network ?M = m_network M \<and> network_part (a_world ?A) = network_part (a_world A) \<or>
        m_owner M NetworkLock = Some i \<and> (m_owner ?M NetworkLock = None \<longrightarrow> m_network ?M = network_part (a_world ?A))"
        using happens(5,6) own [of NetworkLock] by (cases k) auto
      show "m_service ?M = service_part (a_world ?A)" if "m_owner M ServiceLock = Some i" "m_owner ?M ServiceLock = None"
        using that happens(5) by (cases k) auto
      show "m_network ?M = network_part (a_world ?A)" if "m_owner M NetworkLock = Some i" "m_owner ?M NetworkLock = None"
        using that happens(6) by (cases k) auto
    qed (simp_all add: matches_calls [OF m])
    moreover have "atomic_step G A ?A" by (rule atomic_step.happens [OF th(2) happens(1,2)])
    ultimately show ?thesis by blast
  qed
next
  case (on_service req l f p l' d)
  note th = matches_thread [OF m on_service(2,3), simplified]
  with progress_service [where f = f, OF _ on_service(4)]
  have p: "progress G d (m_network M) (a_world A) req l' p (a_phases A ! i)" "held ServiceLock p" by blast+
  with th(1) have own: "m_owner M ServiceLock = Some i" "\<And>k. m_owner M k = Some i \<longleftrightarrow> held k p" by auto
  have "matches G M' A"
    unfolding on_service(1)
    by (rule matches_change [OF m on_service(2), where t = "Busy req l' p" and ph = "a_phases A ! i"])
      (simp_all add: matches_calls [OF m] own(1), simp_all add: p own(2) [symmetric])
  then show ?thesis by blast
next
  case (on_network req l f p l' d again)
  define p' where "p' = (if again then OnNetwork f # p else p)"
  note th = matches_thread [OF m on_network(2,3), simplified]
  with progress_network [where f = f, OF _ on_network(4)]
  have p: "progress G (m_service M) d (a_world A) req l' p' (a_phases A ! i)" "held NetworkLock p" unfolding p'_def by blast+
  with th(1) have own: "m_owner M NetworkLock = Some i" "\<And>k. m_owner M k = Some i \<longleftrightarrow> held k p'" by (auto simp: p'_def)
  have "matches G M' A"
    unfolding on_network(1) p'_def [symmetric]
    by (rule matches_change [OF m on_network(2), where t = "Busy req l' p'" and ph = "a_phases A ! i"])
      (simp_all add: matches_calls [OF m] own(1), simp_all add: p own(2) [symmetric])
  then show ?thesis by blast
qed

lemma step_matched:
  assumes m: "matches G M A" and step: "lock_step G M M'"
  shows "\<exists>A'. (atomic_step G)\<^sup>*\<^sup>* A A' \<and> matches G M' A'"
  using step
proof cases
  case (call i req)
  note th = matches_thread [OF m call(2,3), simplified]
  let ?A = "A\<lparr>a_phases := (a_phases A)[i := Asked req], a_calls := a_calls A @ [Asks i req]\<rparr>"
  have "matches G M' ?A"
    by (rule matches_change [OF m call(2), where t = "Busy req locals_new (code_of G req)" and ph = "Asked req"])
      (use call(1) matches_calls [OF m] th progress.asked [of G "m_service M" "m_network M"] in auto)
  with atomic_step.asks [OF th(2)] th(1) show ?thesis by blast
next
  case (turn i)
  show ?thesis by (rule turn_matched [OF m turn])
next
  case (return i req l x)
  note th = matches_thread [OF m return(2,3), simplified]
  with progress_return return(4) have ph: "a_phases A ! i = Answered x" by fastforce
  let ?A = "A\<lparr>a_phases := (a_phases A)[i := Resting], a_calls := a_calls A @ [Answers i x]\<rparr>"
  have "matches G M' ?A"
    by (rule matches_change [OF m return(2), where t = Idle and ph = Resting])
      (use return(1) matches_calls [OF m] th in auto)
  with atomic_step.returns [OF th(2) ph] show ?thesis by blast
qed

interpretation locks: forward_simulation "machine_new w n" "lock_step G" "atomic_new w n" "atomic_step G" "matches G"
  for w :: "'r world" and n and G
proof unfold_locales
  show "matches G (machine_new w n) (atomic_new w n)"
    by (auto simp: matches_def machine_new_def atomic_new_def)
qed (rule step_matched)

section \<open>Statements that return\<close>

text \<open>All but the draw of \<open>assign\<close> return, at the first attempt.\<close>

fun prompt :: "'r stmt \<Rightarrow> bool" where
  "prompt (OnNetwork f) = (\<forall>l d. \<exists>l' d'. f l d = Some (l', d', False))"
| "prompt _ = True"

lemma prompt_network [simp]: "prompt (on_network f)"
  by (auto simp: on_network_def split: prod.split)

lemma prompt_service [simp]: "prompt (on_service f)"
  by (simp add: on_service_def)

lemma prompt_code: "\<forall>E. req \<noteq> Assign E \<Longrightarrow> list_all prompt (code_of G req)"
  by (cases req) (simp_all add: code_defs with_lock_def)

lemma sure_code: "list_all (\<lambda>c. prompt c \<or> c = OnNetwork (assign_draw G)) (code_of G req)"
proof (cases req)
  case (Assign E)
  then show ?thesis by (simp add: code_defs with_lock_def del: prompt.simps(1))
next
  case (Bind E pc port relay egress)
  with prompt_code [of req G] show ?thesis by (auto simp: list_all_iff)
qed (use prompt_code [of req G] in \<open>auto simp: list_all_iff\<close>)

definition all_threads :: "(request \<Rightarrow> locals \<Rightarrow> 'r code \<Rightarrow> bool) \<Rightarrow> 'r machine \<Rightarrow> bool" where
  "all_threads P M = (\<forall>i < length (m_threads M). \<forall>req l p. m_threads M ! i = Busy req l p \<longrightarrow> P req l p)"

definition stmts_ok :: "'r rng_api \<Rightarrow> request \<Rightarrow> locals \<Rightarrow> 'r code \<Rightarrow> bool" where
  "stmts_ok G req l p = (list_all (\<lambda>c. prompt c \<or> c = OnNetwork (assign_draw G)) p \<and> ((\<forall>E. req \<noteq> Assign E) \<longrightarrow> list_all prompt p))"

lemma stmts_ok_tl: "stmts_ok G req l (c # p) \<Longrightarrow> stmts_ok G req l' p"
  by (simp add: stmts_ok_def)

lemma all_threads_update:
  assumes "all_threads P M" and "m_threads M' = (m_threads M)[i := t]" and "\<And>req l p. t = Busy req l p \<Longrightarrow> P req l p"
  shows "all_threads P M'"
  using assms unfolding all_threads_def by (metis length_list_update nth_list_update_eq nth_list_update_neq)

lemma lock_step_stmts:
  assumes ok: "all_threads (stmts_ok G) M" and step: "lock_step G M M'"
  shows "all_threads (stmts_ok G) M'"
proof -
  have now: "stmts_ok G req l p" if "i < length (m_threads M)" "m_threads M ! i = Busy req l p" for i req l p
    using ok that by (auto simp: all_threads_def)
  from step show ?thesis
  proof cases
    case (call i req)
    show ?thesis
      by (rule all_threads_update [OF ok, where i = i and t = "Busy req locals_new (code_of G req)"])
        (use call(1) sure_code prompt_code in \<open>auto simp: stmts_ok_def\<close>)
  next
    case (turn i)
    then show ?thesis
    proof cases
      case (acquires req l k p)
      show ?thesis
        by (rule all_threads_update [OF ok, where i = i and t = "Busy req l p"])
          (use acquires(1) stmts_ok_tl [OF now [OF acquires(2,3)]] in auto)
    next
      case (releases req l k p)
      show ?thesis
        by (rule all_threads_update [OF ok, where i = i and t = "Busy req l p"])
          (use releases(1) stmts_ok_tl [OF now [OF releases(2,3)]] in auto)
    next
      case (on_service req l f p l' d)
      show ?thesis
        by (rule all_threads_update [OF ok, where i = i and t = "Busy req l' p"])
          (use on_service(1) stmts_ok_tl [OF now [OF on_service(2,3)]] in auto)
    next
      case (on_network req l f p l' d again)
      have "stmts_ok G req l' (if again then OnNetwork f # p else p)"
        using now [OF on_network(2,3)] stmts_ok_tl [OF now [OF on_network(2,3)]] by (simp add: stmts_ok_def)
      then show ?thesis
        by (intro all_threads_update [OF ok, where i = i and t = "Busy req l' (if again then OnNetwork f # p else p)"])
          (use on_network(1) in auto)
    qed
  next
    case (return i req l x)
    show ?thesis by (rule all_threads_update [OF ok, where i = i and t = Idle]) (use return(1) in auto)
  qed
qed

lemma reachable_stmts: "(lock_step G)\<^sup>*\<^sup>* (machine_new w n) M \<Longrightarrow> all_threads (stmts_ok G) M"
proof (induction rule: rtranclp_induct)
  case base
  show ?case by (simp add: all_threads_def machine_new_def)
next
  case (step M M')
  then show ?case by (blast intro: lock_step_stmts)
qed

section \<open>Someone can always go on\<close>

text \<open>A session that has returned, can take a turn, or is in a draw that does not return.\<close>

definition can_go_on :: "'r rng_api \<Rightarrow> nat \<Rightarrow> 'r machine \<Rightarrow> bool" where
  "can_go_on G i M =
     (case m_threads M ! i of
        Idle \<Rightarrow> False
      | Busy req l p \<Rightarrow> p = [] \<and> lv_out l \<noteq> None \<or> (\<exists>M'. turn i M M') \<or>
          (\<exists>q. p = OnNetwork (assign_draw G) # q \<and> assign_draw G l (m_network M) = None))"

lemma section_goes_on:
  assumes i: "i < length (m_threads M)" and t: "m_threads M ! i = Busy req l p" and ok: "stmts_ok G req l p"
    and p: "p = us @ Release k # q" and body: "list_all is_service us \<or> list_all is_network us"
  shows "can_go_on G i M"
proof (cases us)
  case Nil
  with turn.releases [OF i] t p show ?thesis by (auto simp: can_go_on_def)
next
  case (Cons c us')
  show ?thesis
  proof (cases c)
    case (OnService f)
    obtain l' d where "f l (m_service M) = (l', d)" by (cases "f l (m_service M)")
    with turn.on_service [where f = f, OF i _ this] t p Cons OnService show ?thesis by (auto simp: can_go_on_def)
  next
    case (OnNetwork f)
    show ?thesis
    proof (cases "f l (m_network M)")
      case None
      then have "\<not> prompt (OnNetwork f)" by (metis option.distinct(1) prompt.simps(1))
      then have "f = assign_draw G" using ok by (simp add: stmts_ok_def p Cons OnNetwork del: prompt.simps)
      with None t p Cons OnNetwork show ?thesis by (simp add: can_go_on_def)
    next
      case (Some x)
      obtain l' d again where "x = (l', d, again)" by (cases x)
      with Some turn.on_network [where i = i and M = M, OF i _, of req l f "us' @ Release k # q" l' d again] t p Cons OnNetwork
      show ?thesis by (auto simp: can_go_on_def)
    qed
  qed (use body Cons in auto)
qed

lemma acquire_goes_on:
  "i < length (m_threads M) \<Longrightarrow> m_threads M ! i = Busy req l (Acquire k # p) \<Longrightarrow> m_owner M k = None \<Longrightarrow> can_go_on G i M"
  using turn.acquires by (fastforce simp: can_go_on_def)

lemma holder_goes_on:
  assumes m: "matches G M A" and ok: "all_threads (stmts_ok G) M" and owner: "m_owner M k = Some i"
    and net: "k = NetworkLock \<or> m_owner M NetworkLock = None"
  shows "can_go_on G i M"
proof -
  have i: "i < length (m_threads M)" using m owner by (auto simp: matches_def)
  then obtain req l p where t: "m_threads M ! i = Busy req l p"
    using matches_thread [OF m i refl] owner by (cases "m_threads M ! i") auto
  note th = matches_thread [OF m i t, simplified]
  have h: "held k p" using th(1) owner by simp
  have stmts: "stmts_ok G req l p" using ok i t by (auto simp: all_threads_def)
  from th(1) have "progress G (m_service M) (m_network M) (a_world A) req l p (a_phases A ! i)" by simp
  then show ?thesis
  proof cases
    case asked
    with h show ?thesis by simp
  next
    case (entered us)
    then have k: "k = ServiceLock" "p = Acquire NetworkLock # us @ [Release NetworkLock, Release ServiceLock]" using h
      by (cases k; simp add: with_lock_def)+
    with acquire_goes_on [OF i] t net show ?thesis by simp
  next
    case (in_service us us')
    from section_goes_on [OF i t stmts in_service(1)] on_svc_service [OF in_service(5,4)] show ?thesis by blast
  next
    case (in_network us us')
    from section_goes_on [OF i t stmts in_network(1)] on_net_network [OF in_network(5,4)] show ?thesis by blast
  next
    case (in_both us us')
    from section_goes_on [OF i t stmts in_both(1)] on_net_network [OF in_both(6,4)] show ?thesis by blast
  next
    case (leaving x)
    from section_goes_on [OF i t stmts, of "[]"] leaving(1) show ?thesis by simp
  next
    case (answered x)
    with h show ?thesis by simp
  qed
qed

lemma someone_goes_on:
  assumes m: "matches G M A" and ok: "all_threads (stmts_ok G) M" and i: "i < length (m_threads M)" "m_threads M ! i \<noteq> Idle"
  shows "\<exists>j < length (m_threads M). can_go_on G j M"
proof (cases "m_owner M NetworkLock")
  case (Some j)
  with holder_goes_on [OF m ok Some] m show ?thesis by (auto simp: matches_def)
next
  case None
  show ?thesis
  proof (cases "m_owner M ServiceLock")
    case (Some j)
    with holder_goes_on [OF m ok Some] m None show ?thesis by (auto simp: matches_def)
  next
    case none: None
    obtain req l p where t: "m_threads M ! i = Busy req l p" using i(2) by (cases "m_threads M ! i") auto
    note th = matches_thread [OF m i(1) t, simplified]
    have free: "\<not> held k p" for k using th(1) None none by (metis (full_types) lock.exhaust option.distinct(1))
    from th(1) have "progress G (m_service M) (m_network M) (a_world A) req l p (a_phases A ! i)" by simp
    then have "can_go_on G i M"
    proof cases
      case asked
      then obtain k q where "p = Acquire k # q" by (cases rule: code_shapes [of G req]) (auto simp: with_lock_def)
      with acquire_goes_on [OF i(1)] t None none show ?thesis by (cases k) auto
    next
      case (entered us)
      with free [of ServiceLock] show ?thesis by (simp add: with_lock_def)
    next
      case (in_service us us')
      with free [of ServiceLock] on_svc_service [OF in_service(5,4)] show ?thesis by simp
    next
      case (in_network us us')
      with free [of NetworkLock] on_net_network [OF in_network(5,4)] show ?thesis by simp
    next
      case (in_both us us')
      with free [of NetworkLock] on_net_network [OF in_both(6,4)] show ?thesis by simp
    next
      case (leaving x)
      with free [of ServiceLock] show ?thesis by simp
    next
      case (answered x)
      with t show ?thesis by (simp add: can_go_on_def)
    qed
    with i(1) show ?thesis by blast
  qed
qed

section \<open>Requests come to an end\<close>

fun weight :: "'r thread \<Rightarrow> nat" where
  "weight Idle = 0"
| "weight (Busy req l p) = Suc (length p)"

definition left :: "'r machine \<Rightarrow> nat" where
  "left M = sum_list (map weight (m_threads M))"

lemma left_update:
  assumes "i < length (m_threads M)" and "m_threads M' = (m_threads M)[i := t]" and "weight t < weight (m_threads M ! i)"
  shows "left M' < left M"
proof -
  have "weight (m_threads M ! i) \<le> left M"
    unfolding left_def using elem_le_sum_list [of i "map weight (m_threads M)"] assms(1) by simp
  moreover have "left M' = left M + weight t - weight (m_threads M ! i)"
    using sum_list_update [of i "map weight (m_threads M)" "weight t"] assms(1) by (simp add: left_def assms(2) map_update)
  ultimately show ?thesis using assms(3) by linarith
qed

lemma turn_left:
  assumes "turn i M M'" and "\<And>req l p. m_threads M ! i = Busy req l p \<Longrightarrow> list_all prompt p"
  shows "left M' < left M \<and> m_calls M' = m_calls M"
  using assms(1)
proof cases
  case (acquires req l k p)
  then show ?thesis by (auto intro: left_update [where t = "Busy req l p"])
next
  case (releases req l k p)
  then show ?thesis by (auto intro: left_update [where t = "Busy req l p"])
next
  case (on_service req l f p l' d)
  then show ?thesis by (auto intro: left_update [where t = "Busy req l' p"])
next
  case (on_network req l f p l' d again)
  have "prompt (OnNetwork f)" using assms(2) [OF on_network(3)] by simp
  with on_network(4) have "\<not> again" by (metis Pair_inject option.inject prompt.simps(1))
  with on_network(1-3) show ?thesis by (auto intro: left_update [where t = "Busy req l' p"])
qed

definition no_assign :: "request \<Rightarrow> locals \<Rightarrow> 'r code \<Rightarrow> bool" where
  "no_assign req l p = (\<forall>E. req \<noteq> Assign E)"

lemma no_assign_prompt:
  "all_threads (stmts_ok G) M \<Longrightarrow> all_threads no_assign M \<Longrightarrow> i < length (m_threads M) \<Longrightarrow> m_threads M ! i = Busy req l p \<Longrightarrow>
    list_all prompt p"
  by (auto simp: all_threads_def stmts_ok_def no_assign_def)

lemma turn_no_assign:
  assumes "turn i M M'" and "all_threads no_assign M"
  shows "all_threads no_assign M'"
  using assms(1)
proof cases
  case (acquires req l k p)
  with assms(2) show ?thesis
    by (intro all_threads_update [OF assms(2), where i = i and t = "Busy req l p"]) (auto simp: all_threads_def no_assign_def)
next
  case (releases req l k p)
  with assms(2) show ?thesis
    by (intro all_threads_update [OF assms(2), where i = i and t = "Busy req l p"]) (auto simp: all_threads_def no_assign_def)
next
  case (on_service req l f p l' d)
  with assms(2) show ?thesis
    by (intro all_threads_update [OF assms(2), where i = i and t = "Busy req l' p"]) (auto simp: all_threads_def no_assign_def)
next
  case (on_network req l f p l' d again)
  with assms(2) show ?thesis
    by (intro all_threads_update [OF assms(2), where i = i and t = "Busy req l' (if again then OnNetwork f # p else p)"])
      (auto simp: all_threads_def no_assign_def)
qed

lemma someone_advances:
  assumes m: "matches G M A" and ok: "all_threads (stmts_ok G) M" and plain: "all_threads no_assign M"
    and i: "i < length (m_threads M)" "m_threads M ! i \<noteq> Idle"
  shows "\<exists>M'. lock_step G M M' \<and> left M' < left M \<and> all_threads no_assign M' \<and> length (m_threads M') = length (m_threads M)"
proof -
  obtain j where j: "j < length (m_threads M)" "can_go_on G j M" using someone_goes_on [OF m ok i] by blast
  then obtain req l p where t: "m_threads M ! j = Busy req l p" by (cases "m_threads M ! j") (auto simp: can_go_on_def)
  have prompt: "list_all prompt p" by (rule no_assign_prompt [OF ok plain j(1) t])
  from j(2) t consider (over) x where "p = []" "lv_out l = Some x" | (turn) M' where "turn j M M'"
    | (draw) q where "p = OnNetwork (assign_draw G) # q" "assign_draw G l (m_network M) = None"
    by (auto simp: can_go_on_def)
  then show ?thesis
  proof cases
    case over
    let ?M = "log_call (Answers j x) (set_thread j Idle M)"
    have "lock_step G M ?M" using lock_step.return [OF j(1)] t over by simp
    moreover have "left ?M < left M" by (rule left_update [OF j(1), where t = Idle]) (simp_all add: t)
    moreover have "all_threads no_assign ?M" by (rule all_threads_update [OF plain, where i = j and t = Idle]) simp_all
    ultimately show ?thesis by (intro exI [of _ ?M]) simp
  next
    case (turn M')
    have "length (m_threads M') = length (m_threads M)" using turn by cases simp_all
    moreover have "left M' < left M" using turn_left [OF turn] t prompt by simp
    ultimately show ?thesis using lock_step.turn [OF turn] turn_no_assign [OF turn plain] by blast
  next
    case (draw q)
    with prompt have "prompt (OnNetwork (assign_draw G))" by simp
    with draw(2) show ?thesis by (metis option.distinct(1) prompt.simps(1))
  qed
qed

section \<open>A run of one session\<close>

definition demo_machine :: "service_data \<Rightarrow> (lock \<Rightarrow> nat option) \<Rightarrow> nat thread \<Rightarrow> call list \<Rightarrow> nat machine" where
  "demo_machine sd ow t cs = \<lparr>m_service = sd, m_network = network_part (world_new 0), m_owner = ow, m_threads = [t], m_calls = cs\<rparr>"

definition demo_joins :: request where "demo_joins = NewClient (SockV4 9 4000)"

lemma demo_machine_new: "machine_new (world_new 0) 1 = demo_machine (1, hm_empty) (\<lambda>_. None) Idle []"
  by (simp add: machine_new_def demo_machine_def service_part_def world_new_def service_new_def)

lemma demo_asked:
  "lock_step counter_rng (machine_new (world_new 0) 1)
    (demo_machine (1, hm_empty) (\<lambda>_. None) (Busy demo_joins locals_new (code_of counter_rng demo_joins)) [Asks 0 demo_joins])"
  using lock_step.call [of 0 "machine_new (world_new 0) 1" counter_rng demo_joins]
  unfolding demo_machine_new by (simp add: demo_machine_def set_thread_def log_call_def)

lemma demo_answered:
  "\<exists>sd. (lock_step counter_rng)\<^sup>*\<^sup>* (machine_new (world_new 0) 1)
    (demo_machine sd (\<lambda>_. None) Idle [Asks 0 demo_joins, Answers 0 (Joined \<lparr>client_id = 1, client_addr = SockV4 9 4000\<rparr>)])"
proof -
  let ?step = "lock_step counter_rng" and ?c = "\<lparr>client_id = 1, client_addr = SockV4 9 4000\<rparr>"
  let ?M = "\<lambda>sd ow l p. demo_machine sd ow (Busy demo_joins l p) [Asks 0 demo_joins]"
  let ?own = "(\<lambda>_. None)(ServiceLock := Some 0)"
  let ?sd = "(2, hm_insert 1 ?c hm_empty)" and ?l = "locals_new\<lparr>lv_client := ?c\<rparr>"
  obtain f g where code: "code_of counter_rng demo_joins = [Acquire ServiceLock, OnService f, OnService g, Release ServiceLock]"
    and f: "f locals_new (1, hm_empty) = (?l, (2, hm_empty))" and g: "g ?l (2, hm_empty) = (returns (Joined ?c) ?l, ?sd)"
    by (simp add: demo_joins_def handle_new_client_def with_lock_def on_service_def)
  have s1: "?step (?M (1, hm_empty) (\<lambda>_. None) locals_new (code_of counter_rng demo_joins)) (?M (1, hm_empty) ?own locals_new [OnService f, OnService g, Release ServiceLock])"
    using lock_step.turn [OF turn.acquires [of 0 "?M (1, hm_empty) (\<lambda>_. None) locals_new (code_of counter_rng demo_joins)"]]
    by (simp add: code demo_machine_def set_thread_def)
  have s2: "?step (?M (1, hm_empty) ?own locals_new [OnService f, OnService g, Release ServiceLock]) (?M (2, hm_empty) ?own ?l [OnService g, Release ServiceLock])"
    using lock_step.turn [OF turn.on_service [where i = 0 and M = "?M (1, hm_empty) ?own locals_new [OnService f, OnService g, Release ServiceLock]" and f = f]] f
    by (simp add: demo_machine_def set_thread_def)
  have s3: "?step (?M (2, hm_empty) ?own ?l [OnService g, Release ServiceLock]) (?M ?sd ?own (returns (Joined ?c) ?l) [Release ServiceLock])"
    using lock_step.turn [OF turn.on_service [where i = 0 and M = "?M (2, hm_empty) ?own ?l [OnService g, Release ServiceLock]" and f = g]] g
    by (simp add: demo_machine_def set_thread_def)
  have s4: "?step (?M ?sd ?own (returns (Joined ?c) ?l) [Release ServiceLock]) (?M ?sd (\<lambda>_. None) (returns (Joined ?c) ?l) [])"
    using lock_step.turn [OF turn.releases [of 0 "?M ?sd ?own (returns (Joined ?c) ?l) [Release ServiceLock]"]]
    by (simp add: demo_machine_def set_thread_def)
  have s5: "?step (?M ?sd (\<lambda>_. None) (returns (Joined ?c) ?l) []) (demo_machine ?sd (\<lambda>_. None) Idle [Asks 0 demo_joins, Answers 0 (Joined ?c)])"
    using lock_step.return [of 0 "?M ?sd (\<lambda>_. None) (returns (Joined ?c) ?l) []"]
    by (simp add: demo_machine_def set_thread_def log_call_def)
  from demo_asked s1 s2 s3 s4 s5 show ?thesis
    by (meson r_into_rtranclp rtranclp.rtrancl_into_rtrancl)
qed

section \<open>Properties\<close>

text \<open>C6. The operations of the service happen in one step, as far as any session can tell. However the statements of
  any number of sessions interleave, there is a run in which every operation is carried out at one moment between its call and
  its return, with the same calls and the same answers in the same order; and whenever a lock is free, what it
  guards is what that run has made of it.\<close>

theorem operations_are_atomic:
  assumes "(lock_step G)\<^sup>*\<^sup>* (machine_new w n) M"
  shows "\<exists>A. (atomic_step G)\<^sup>*\<^sup>* (atomic_new w n) A \<and> a_calls A = m_calls M \<and>
    (m_owner M ServiceLock = None \<longrightarrow> m_service M = service_part (a_world A)) \<and>
    (m_owner M NetworkLock = None \<longrightarrow> m_network M = network_part (a_world A))"
  using locks.run_matched [OF assms] by (auto simp: matches_def)

theorem operations_are_atomic_witness:
  "\<exists>A. (atomic_step counter_rng)\<^sup>*\<^sup>* (atomic_new (world_new 0) 1) A \<and>
    a_calls A = [Asks 0 demo_joins, Answers 0 (Joined \<lparr>client_id = 1, client_addr = SockV4 9 4000\<rparr>)]"
proof -
  obtain sd where run: "(lock_step counter_rng)\<^sup>*\<^sup>* (machine_new (world_new 0) 1)
    (demo_machine sd (\<lambda>_. None) Idle [Asks 0 demo_joins, Answers 0 (Joined \<lparr>client_id = 1, client_addr = SockV4 9 4000\<rparr>)])"
    using demo_answered by blast
  from operations_are_atomic [OF run] show ?thesis by (auto simp: demo_machine_def)
qed

text \<open>C16. The locks are used as they must be. Nothing is read or written but by the session that holds the lock that guards
  it, which only one can; and the sessions never block each other for good: while one of them is in the middle of an
  operation, one of them can go on, or it is drawing addresses for ever. Without a draw under way, all of them come to an end.\<close>

theorem locks_guard_without_deadlock:
  assumes "(lock_step G)\<^sup>*\<^sup>* (machine_new w n) M"
  shows "(\<forall>i < length (m_threads M). \<forall>req l f p. m_threads M ! i = Busy req l (OnService f # p) \<longrightarrow> m_owner M ServiceLock = Some i) \<and>
    (\<forall>i < length (m_threads M). \<forall>req l f p. m_threads M ! i = Busy req l (OnNetwork f # p) \<longrightarrow> m_owner M NetworkLock = Some i) \<and>
    ((\<exists>i < length (m_threads M). m_threads M ! i \<noteq> Idle) \<longrightarrow> (\<exists>j < length (m_threads M). can_go_on G j M)) \<and>
    (all_threads no_assign M \<longrightarrow> (\<exists>M'. (lock_step G)\<^sup>*\<^sup>* M M' \<and> (\<forall>i < length (m_threads M). m_threads M' ! i = Idle)))"
proof -
  obtain A where m: "matches G M A" using locks.run_matched [OF assms] by blast
  note ok = reachable_stmts [OF assms]
  have guard: "m_owner M ServiceLock = Some i" if "i < length (m_threads M)" "m_threads M ! i = Busy req l (OnService f # p)" for i req l f p
  proof -
    note th = matches_thread [OF m that, simplified]
    then have "held ServiceLock p" using progress_service [of G "m_service M" _ _ _ l f] by (metis prod.exhaust)
    with th(1) show ?thesis by simp
  qed
  have guard_net: "m_owner M NetworkLock = Some i" if "i < length (m_threads M)" "m_threads M ! i = Busy req l (OnNetwork f # p)" for i req l f p
  proof -
    note th = matches_thread [OF m that, simplified]
    with progress_network_held [of G "m_service M" "m_network M" "a_world A" req l f p] show ?thesis by auto
  qed
  have finish: "\<exists>M'. (lock_step G)\<^sup>*\<^sup>* M M' \<and> (\<forall>i < length (m_threads M). m_threads M' ! i = Idle)"
    if "(lock_step G)\<^sup>*\<^sup>* (machine_new w n) M" "all_threads no_assign M" for M
    using that
  proof (induction "left M" arbitrary: M rule: less_induct)
    case less
    show ?case
    proof (cases "\<forall>i < length (m_threads M). m_threads M ! i = Idle")
      case False
      obtain A where "matches G M A" using locks.run_matched [OF less(2)] by blast
      with someone_advances [OF _ reachable_stmts [OF less(2)] less(3)] False obtain M' where M':
        "lock_step G M M'" "left M' < left M" "all_threads no_assign M'" "length (m_threads M') = length (m_threads M)" by blast
      from less(1) [OF M'(2) rtranclp.rtrancl_into_rtrancl [OF less(2) M'(1)] M'(3)] M'(1,4) show ?thesis
        by (metis converse_rtranclp_into_rtranclp)
    qed blast
  qed
  show ?thesis using guard guard_net someone_goes_on [OF m ok] finish [OF assms] by blast
qed

theorem locks_guard_without_deadlock_witness:
  "\<exists>M. lock_step counter_rng (machine_new (world_new 0) 1) M \<and> m_threads M ! 0 \<noteq> Idle \<and> can_go_on counter_rng 0 M \<and>
    (\<exists>M'. (lock_step counter_rng)\<^sup>*\<^sup>* M M' \<and> m_threads M' ! 0 = Idle)"
proof -
  let ?M = "demo_machine (1, hm_empty) (\<lambda>_. None) (Busy demo_joins locals_new (code_of counter_rng demo_joins)) [Asks 0 demo_joins]"
  have len: "length (m_threads ?M) = 1" and busy: "m_threads ?M ! 0 \<noteq> Idle" by (simp_all add: demo_machine_def)
  have plain: "all_threads no_assign ?M"
    by (simp add: all_threads_def no_assign_def demo_machine_def demo_joins_def)
  note calm = locks_guard_without_deadlock [OF r_into_rtranclp, OF demo_asked, unfolded len]
  have "can_go_on counter_rng 0 ?M" using calm busy by auto
  moreover have "\<exists>M'. (lock_step counter_rng)\<^sup>*\<^sup>* ?M M' \<and> m_threads M' ! 0 = Idle" using calm plain by auto
  ultimately show ?thesis using demo_asked busy by blast
qed

section \<open>The end of a session\<close>

text \<open>
  A session leaves in two operations: it is taken out of the table, and later its port is given up.
  Others can get in between. Leaving the table commutes with whatever they do.
\<close>

fun atomically_all :: "'r rng_api \<Rightarrow> request list \<Rightarrow> 'r world \<Rightarrow> ('r world \<times> outcome list) option" where
  "atomically_all G [] w = Some (w, [])"
| "atomically_all G (req # reqs) w =
     (case atomically G req w of None \<Rightarrow> None
      | Some (w, x) \<Rightarrow> map_option (\<lambda>(w, xs). (w, x # xs)) (atomically_all G reqs w))"

definition without_client :: "u64 \<Rightarrow> 'r world \<Rightarrow> 'r world" where
  "without_client i w = w\<lparr>service := (service w)\<lparr>clients := hm_remove i (clients (service w))\<rparr>\<rparr>"

lemma remove_client_world: "fst (service_remove_client h w) = without_client (client_id h) w"
  by (simp add: service_remove_client_def without_client_def hm_remove_absent split: option.split)

lemma without_client_simps [simp]:
  "id_counter (without_client i w) = id_counter w" "net_of (without_client i w) = net_of w"
  "rng (without_client i w) = rng w" "next_chan (without_client i w) = next_chan w"
  "clients (service (without_client i w)) = hm_remove i (clients (service w))"
  "set_network s (without_client i w) = without_client i (set_network s w)"
  "(without_client i w)\<lparr>rng := r\<rparr> = without_client i (w\<lparr>rng := r\<rparr>)"
  by (simp_all add: without_client_def set_network_def)

text \<open>Requests that have nothing to do with the entry of client \<open>i\<close>.\<close>

fun leaves_alone :: "u64 \<Rightarrow> 'r world \<Rightarrow> request \<Rightarrow> bool" where
  "leaves_alone i w (NewClient remote) = (id_counter w \<noteq> i)"
| "leaves_alone i w (RemoveClient h) = (client_id h \<noteq> i)"
| "leaves_alone i w _ = True"

lemma hm_commute:
  "k \<noteq> k' \<Longrightarrow> hm_insert k v (hm_remove k' m) = hm_remove k' (hm_insert k v m)"
  "hm_remove k (hm_remove k' m) = hm_remove k' (hm_remove k m)"
  by (simp_all add: hm_insert_def hm_remove_def delete_update delete_twist)

lemma without_client_commutes:
  "leaves_alone i w req \<Longrightarrow>
    atomically G req (without_client i w) = map_option (\<lambda>(w, x). (without_client i w, x)) (atomically G req w)"
proof (cases req)
  case (NewClient remote)
  moreover assume "leaves_alone i w req"
  ultimately show ?thesis
    by (simp add: service_new_client_def client_new_def hm_commute without_client_def)
next
  case (RemoveClient h)
  moreover assume "leaves_alone i w req"
  ultimately show ?thesis
    by (simp add: service_remove_client_def hm.get_remove split: option.split) (simp add: without_client_def hm_commute)
next
  case (Assign E)
  then show ?thesis by (simp add: service_assign_def split: option.split prod.split)
next
  case (Bind E pc port relay egress)
  then show ?thesis by (simp split: prod.split)
next
  case (Route addr relay tx)
  then show ?thesis by (simp add: service_route_def)
qed simp_all

lemma atomically_counter:
  "atomically G req w = Some (w', x) \<Longrightarrow> id_counter w' = id_counter w \<or> id_counter w' = id_counter w + 1"
  by (cases req) (auto simp: service_new_client_def client_new_def service_remove_client_def service_assign_def
      split: option.splits prod.splits)

text \<open>The requests of others, as long as the numbers they draw do not come round to that of the client.\<close>

definition others :: "client_handle \<Rightarrow> u64 \<Rightarrow> request list \<Rightarrow> bool" where
  "others h n reqs = ((\<forall>k \<le> length reqs. n + of_nat k \<noteq> client_id h) \<and>
     (\<forall>h'. RemoveClient h' \<in> set reqs \<longrightarrow> client_id h' \<noteq> client_id h))"

lemma others_Cons:
  assumes "others h n (req # reqs)"
  shows "others h n reqs" "others h (n + 1) reqs" "id_counter w = n \<Longrightarrow> leaves_alone (client_id h) w req"
proof -
  show "others h n reqs" using assms by (auto simp: others_def)
  have "n + 1 + of_nat k \<noteq> client_id h" if "k \<le> length reqs" for k
  proof -
    have "n + of_nat (Suc k) \<noteq> client_id h" using assms that unfolding others_def by (metis Suc_le_mono length_Cons)
    then show ?thesis by (simp add: add.assoc)
  qed
  with assms show "others h (n + 1) reqs" by (auto simp: others_def)
  have "n + of_nat 0 \<noteq> client_id h" using assms unfolding others_def by blast
  then have "n \<noteq> client_id h" by simp
  with assms show "id_counter w = n \<Longrightarrow> leaves_alone (client_id h) w req" by (cases req) (auto simp: others_def)
qed

lemma without_client_all:
  "others h (id_counter w) reqs \<Longrightarrow>
    atomically_all G reqs (without_client (client_id h) w) =
      map_option (\<lambda>(w, xs). (without_client (client_id h) w, xs)) (atomically_all G reqs w)"
proof (induction reqs arbitrary: w)
  case (Cons req reqs)
  note o = others_Cons [OF Cons.prems]
  show ?case
  proof (cases "atomically G req w")
    case None
    then show ?thesis by (simp add: without_client_commutes [OF o(3) [OF refl]])
  next
    case (Some p)
    obtain w' x where p: "p = (w', x)" by fastforce
    with atomically_counter [of G req w] Some have "others h (id_counter w') reqs" using o(1,2) by auto
    from Cons.IH [OF this] show ?thesis
      by (simp add: without_client_commutes [OF o(3) [OF refl]] Some p option.map_comp comp_def case_prod_beta)
  qed
qed simp

lemma atomically_all_snoc:
  "atomically_all G (reqs @ [req]) w = (case atomically_all G reqs w of None \<Rightarrow> None
     | Some (w, xs) \<Rightarrow> map_option (\<lambda>(w, x). (w, xs @ [x])) (atomically G req w))"
proof (induction reqs arbitrary: w)
  case (Cons r reqs)
  have "map_option (\<lambda>(w, xs). (w, y # xs)) (map_option (\<lambda>(w, x). (w, ys @ [x])) p) = map_option (\<lambda>(w, x). (w, y # ys @ [x])) p"
    for y :: outcome and ys p by (cases p) auto
  then show ?case by (auto simp: Cons.IH split: option.split)
qed (simp split: option.split)

text \<open>C25. The end of a session may be taken to be one step. It leaves the table of clients first and gives up its port later; whatever
  other sessions do in between, they get the same answers, and the world is in the end the same, as if the session had left
  and given up its port at once, after all that.\<close>

theorem session_end_in_two_steps:
  assumes "hm_get (clients (service w)) (client_id h) = Some h'" and "others h (id_counter w) reqs"
    and "atomically_all G (RemoveClient h # reqs @ [Unbind E (bind_key b)]) w = Some (w', xs)"
  shows "\<exists>v ys. atomically_all G reqs w = Some (v, ys) \<and> xs = Removed (Ok ()) # ys @ [Unbound] \<and>
    w' = fst (session_end E h (Some (BindLease b)) (Ok Returned) v)"
proof -
  have "service_remove_client h w = (without_client (client_id h) w, Ok ())"
    using remove_client_world [of h w] assms(1) by (simp add: service_remove_client_def)
  with assms(3) obtain v ys where "atomically_all G reqs w = Some (v, ys)" "xs = Removed (Ok ()) # ys @ [Unbound]"
    "w' = set_network (network_unbind E (bind_key b) (net_of v)) (without_client (client_id h) v)"
    by (auto simp: atomically_all_snoc without_client_all [OF assms(2)] simp del: without_client_simps(6) split: option.splits)
  then show ?thesis
    by (simp add: session_end_def drop_lease_def lease_drop_def bind_close_def remove_client_world)
qed

theorem session_end_in_two_steps_witness:
  "\<exists>w h v w'. service_new_client (SockV4 9 4000) (world_new (0 :: nat)) = (w, h) \<and>
    atomically_all counter_rng [demo_joins] w = Some (v, [Joined \<lparr>client_id = 2, client_addr = SockV4 9 4000\<rparr>]) \<and>
    w' = fst (session_end env_up h (Some (BindLease demo_handler)) (Ok Returned) v) \<and>
    hm_get (clients (service w')) 1 = None"
proof -
  let ?h = "\<lparr>client_id = 1, client_addr = SockV4 9 4000\<rparr>" and ?h2 = "\<lparr>client_id = 2, client_addr = SockV4 9 4000\<rparr>"
  let ?w = "(world_new (0 :: nat))\<lparr>id_counter := 2, service := service_new\<lparr>clients := hm_insert 1 ?h hm_empty\<rparr>\<rparr>"
  have w: "service_new_client (SockV4 9 4000) (world_new (0 :: nat)) = (?w, ?h)"
    by (simp add: service_new_client_def client_new_def world_new_def service_new_def)
  have "k = 0 \<or> k = 1" if "k \<le> 1" for k :: nat using that by linarith
  then have "others ?h (id_counter ?w) [demo_joins]" by (fastforce simp: others_def demo_joins_def)
  moreover obtain w' xs where run: "atomically_all counter_rng (RemoveClient ?h # [demo_joins] @ [Unbind env_up (bind_key demo_handler)]) ?w = Some (w', xs)"
    "hm_get (clients (service w')) 1 = None"
    by (simp add: demo_joins_def service_remove_client_def service_new_client_def client_new_def hm.get_insert hm.get_remove)
  ultimately obtain v ys where "atomically_all counter_rng [demo_joins] ?w = Some (v, ys)"
    "w' = fst (session_end env_up ?h (Some (BindLease demo_handler)) (Ok Returned) v)"
    using session_end_in_two_steps [of ?w ?h ?h "[demo_joins]" counter_rng env_up demo_handler w' xs] by (auto simp: hm.get_insert)
  moreover from this(1) have "ys = [Joined ?h2]" by (simp add: demo_joins_def service_new_client_def client_new_def)
  ultimately show ?thesis using w run(2) by blast
qed

end
