(* ===== verification/Spec2Isabelle.thy ===== *)
theory Spec2Isabelle
  imports System_Spec Wt_Conversations Program Lifetimes Lock_Props
begin

text \<open>
  A verification of \<open>lwproxy\<close>, the proxy that lets a program in a browser speak UDP and reach two
  services of the proxy over a WebSocket or WebTransport.

  \<^bold>\<open>The program.\<close> A client is accepted by an endpoint (\<open>websocket/\<close>, \<open>webtransport/\<close>) and becomes a session.
  Its commands (\<open>service/commands.rs\<close>) work on the service all sessions share (\<open>service/service.rs\<close>):
  \<open>NEWADDR\<close> has the private network (\<open>service/net/network.rs\<close>) assign an address and a passcode, \<open>BIND\<close>
  binds a port of it, \<open>PROXY\<close> opens a tunnel to the resolver (\<open>service/dnsproxy.rs\<close>) or to the HTTP
  CONNECT proxy (\<open>service/connectproxy.rs\<close>). The last two give the session a lease
  (\<open>service/lease.rs\<close>), to which it passes on what the client sends; what comes back reaches it over
  its relay channel. A bound port exchanges frames (\<open>service/net/packet.rs\<close>) with other bound ports,
  or through a translation task with the internet. \<open>main.rs\<close> opens the endpoints that the configuration
  (\<open>settings.rs\<close>) asks for.

  \<^bold>\<open>How the code is read.\<close> A struct is a record and an enum a datatype. A method is a function
  from the state it reads to the state it leaves, the effects it has on channels and tasks
  (\<open>Lease.effect\<close>) and its result, in which an error, a panic and a call that does not return are
  values (\<open>Prelude.error\<close>). Integers have their width (\<open>u16\<close>, \<open>u64\<close> are words), but for the \<open>usize\<close> counter of
  an assignment, for which \<open>binds_exact\<close> shows that it stays below 65536. A loop around
  \<open>select!\<close> is a function of what completes next, one turn at a time; the guards of its branches say which
  events are possible. What lies outside the sources is an argument: the random generator
  (\<open>rng_api\<close>), the buffers of the crate \<open>bytes\<close> (\<open>buf_api\<close>, whose laws are the locale
  \<open>buf\<close>), the queues of \<open>tokio\<close>'s channels (\<open>mpsc_api\<close>, locale \<open>mpsc\<close>), what the calls of one moment return (\<open>env\<close>, \<open>writes_ok\<close>), the lookup of the operating
  system, and the crates the start of the program uses (\<open>crates\<close>).

  \<^bold>\<open>The theories.\<close>
  \<^item> \<open>Prelude\<close>: results and errors, slices, bytes, hash maps (locale \<open>hash_map\<close>), transition systems with
    an invariant (locale \<open>invariant_system\<close>) or with a specification (locale \<open>simulation\<close>). \<open>Std_Text\<close>, \<open>Std_Net\<close>: what the code uses of \<open>str\<close>,
    \<open>u16::parse\<close>, \<open>IpAddr\<close>, its parser and its printer; \<open>Std_Addr\<close>: that parsing inverts printing.
  \<^item> \<open>Net_Code\<close>, \<open>Net_Packet\<close>: \<open>net/code.rs\<close> and \<open>net/packet.rs\<close>: addresses and passcodes, and the
    frames with both directions of their encoding.
  \<^item> \<open>Lease\<close>: the trait \<open>LeaseHandler\<close> as a locale, interpreted by all three handlers and by the boxed \<open>dyn\<close> of
    them in \<open>Service\<close>.
  \<^item> \<open>Network\<close>: \<open>net/network.rs\<close>, the three tables and the handler of a bound port. \<open>network_inv\<close> ties the tables
    together; \<open>registry_step\<close> is an abstract network with one table, which the methods refine.
  \<^item> \<open>Net_Translate\<close>: \<open>translate\<close> and \<open>relay_reply\<close> of the same file.
  \<^item> \<open>Dns_Proxy\<close>, \<open>Connect_Proxy\<close>: the two services, each with its parser, its task and its lease.
  \<^item> \<open>Service\<close>: \<open>service.rs\<close> and \<open>client.rs\<close>; the record \<open>world\<close> is all that sessions share.
  \<^item> \<open>Commands\<close>: \<open>commands.rs\<close>; \<open>handle_command_cases\<close> lists every outcome of a command.
  \<^item> \<open>Session\<close>, \<open>Web_Socket\<close>, \<open>Web_Transport\<close>: \<open>websocket/client.rs\<close> and \<open>webtransport/client.rs\<close>.
    \<open>session_step\<close> is all that a turn can do to the world and to its lease.
  \<^item> \<open>Conversations\<close>, \<open>Wt_Conversations\<close>: a session, its command, and the task at the other end of its lease, composed: the
    resolver, the CONNECT proxy and the internet as a client sees them, over a WebSocket, where messages have
    boundaries, and over the stream of WebTransport, where they have none.
  \<^item> \<open>Proxy_System\<close>: all sessions around one world, with their beginning and end, as the step relation
    \<open>sys_step\<close> and its invariant \<open>sys_inv\<close>.
  \<^item> \<open>System_Spec\<close>: what the proxy promises, as a state of a registry and of what each client holds, and the
    proof that the system refines it (locale \<open>simulation\<close>).
  \<^item> \<open>Runtime\<close>: the system with all that runs in it: the tasks the handlers spawn (\<open>translate\<close>, \<open>ConnectProxy::run\<close>,
    \<open>DNSProxy::run\<close>) and the channels between them and the sessions. A step is a turn of a session or of a task. Here the
    answers of channels are no longer free: whether a channel is open follows from who owns its ends.
    \<open>Session_Acts\<close> takes the turns of a session apart, \<open>Runtime_Inv\<close> is the invariant (who holds which end of which
    channel), \<open>Runtime_Props\<close> shows that it is kept and that the runtime refines the system, \<open>Lifetimes\<close> draws
    the conclusions for the tasks, and \<open>Runtime_Demo\<close> has the runs the witnesses use.
  \<^item> \<open>Locks\<close>, \<open>Lock_Props\<close>: the mutexes of \<open>ProxyServiceHandle\<close> and of \<open>Network\<close>. Each operation is a list of statements (take a lock, use
    what it guards, let it go), and any interleaving of statements is a forward simulation (locale \<open>forward_simulation\<close>) of the machine
    whose operations are one step, which is the one the other theories speak of.
  \<^item> \<open>Settings\<close>, \<open>Listener\<close>, \<open>Startup\<close>: \<open>settings.rs\<close>, the listeners and runners, and \<open>main.rs\<close> up to its joins.
  \<^item> \<open>Program\<close>: all of it together: the endpoints \<open>main\<close> has opened, their accept loops, and the runtime, whose sessions now know the
    endpoint they came from and the stream, plain or TLS, that \<open>WebSocketClientRunner::run_inner\<close> gave them; \<open>pg_step\<close> and its invariant \<open>pg_inv\<close>.

  \<^bold>\<open>What is shown.\<close> Of the system, with its tasks and channels: it refines a specification of a few lines, nothing leaks (routes are exactly what the running sessions hold, clients are exactly
  the running sessions), nobody's port is taken over, no datagram carries an address that is
  not its sender's, and nothing panics but the task of a WebSocket connection that is gone before it begins. The tasks are exactly those of the leases: a port works for as long as it is
  bound, a session learns when its service is gone, and a task whose session is gone ends. The mutexes make the
  operations atomic and cannot deadlock; the end of a session, which takes them one after the other, is two steps, between
  which other sessions may run, and comes to the same. Of the components: their functional behaviour on every
  branch, the round trips of frames, passcodes and resolver replies, that reads and
  messages may be cut anywhere, that only allowed hosts are connected to, when the loops return, and what
  the start of the program opens or how it fails. Of the whole program: every session is served as the configuration says, in
  particular not in plain text on an endpoint with a certificate.

  \<^bold>\<open>Bounds and loops.\<close> Client numbers are 64 bit and wrap; the system is followed for \<open>2 ^ 64\<close> connections
  (\<open>sys_opened\<close>), within which no number comes twice. The two loops that draw at random are
  \<open>partial_function (option)\<close>, so that drawing for ever is \<open>None\<close>, and \<open>assign_returns_iff\<close>
  says exactly when they return. The loop over buffered commands terminates because each turn removes a
  line. There is no fuel.

  \<^bold>\<open>Not modelled.\<close> Logging; the command line (\<open>Args\<close>); the scheduler of \<open>tokio\<close>, beyond that turns of different sessions and tasks
  come in any order and none is forced to come; that sessions which need the mutex of the service wait for a \<open>NEWADDR\<close> that draws
  for ever (they go on here, so that the model has all runs of the program and more); a call on a socket or stream that fails half way (a write counts as made or as
  not made); \<open>target.rs\<close> and the \<open>mod.rs\<close> files, which declare only. The text of error messages that
  come from other crates is the value \<open>External\<close>.
\<close>

section \<open>A concrete system\<close>

lemma single_ws_step:
  assumes "ws_turn G B E W ev st w = (w', st', as, Ok Waiting)" and "ws_event_ok ev"
  shows "sys_step G B \<lparr>sys_world = w, sys_slots = [\<lparr>slot_client = h, slot_kind = OnWebSocket c st\<rparr>], sys_opened = n\<rparr>
    \<lparr>sys_world = w', sys_slots = [\<lparr>slot_client = h, slot_kind = OnWebSocket c st'\<rparr>], sys_opened = n\<rparr>"
  using sys_step.ws_goes_on [of 0 "\<lparr>sys_world = w, sys_slots = [\<lparr>slot_client = h, slot_kind = OnWebSocket c st\<rparr>], sys_opened = n\<rparr>"
      c st ev G B E W w' st' as] assms
  by (simp add: replace_slot_def)

text \<open>The system of the run in which a client binds a port (\<open>Runtime_Demo\<close>).\<close>

lemma demo_system:
  "\<exists>s. (sys_step counter_rng be_buf)\<^sup>*\<^sup>* (sys_new 0) s \<and>
     sys_slots s = [\<lparr>slot_client = demo_client, slot_kind = OnWebSocket 0 demo_session\<rparr>]"
proof -
  obtain w where "demo_step\<^sup>*\<^sup>* demo_new (demo_rt w (OnWebSocket 0 demo_session) demo_bound_exec)" using demo_port by blast
  from rt_reachable_sys [OF list_queue.mpsc_axioms list_queue.mpsc_axioms be.buf_axioms this] show ?thesis
    by (intro exI conjI) (assumption, simp add: demo_rt_def)
qed

section \<open>A datagram in and out of a session\<close>

text \<open>
  The turn in which a session is given a datagram by its client, and the one in which it takes a message
  from its relay, for either transport: the world and the session after it, the effects, or
  the datagrams written, and whether the session goes on.
\<close>

fun client_sends ::
  "'r rng_api \<Rightarrow> buf_api \<Rightarrow> env \<Rightarrow> writes_ok \<Rightarrow> session_kind \<Rightarrow> bytes \<Rightarrow> 'r world \<Rightarrow>
     'r world \<times> session_kind \<times> effect list \<times> bool" where
  "client_sends G B E W Handshake d w = (w, Handshake, [], True)"
| "client_sends G B E W (OnWebSocket c st) d w =
     (case ws_turn G B E W (WsRead (Some (Ok (WsBinary d)))) st w of
        (w, st, as, res) \<Rightarrow> (w, OnWebSocket c st, effects as, res = Ok Waiting))"
| "client_sends G B E W (OnWebTransport c st) d w =
     (case wt_turn G B (\<lambda>_. E) W (ReadDatagram (Ok d)) st w of
        (w, st, as, res) \<Rightarrow> (w, OnWebTransport c st, effects as, is_ok res))"

fun ws_datagrams :: "ws_out list \<Rightarrow> bytes list" where
  "ws_datagrams [] = []"
| "ws_datagrams (WsSend (WsBinary d) # ms) = d # ws_datagrams ms"
| "ws_datagrams (_ # ms) = ws_datagrams ms"

fun wt_datagrams :: "wt_out list \<Rightarrow> bytes list" where
  "wt_datagrams [] = []"
| "wt_datagrams (SendDatagram d # ms) = d # wt_datagrams ms"
| "wt_datagrams (_ # ms) = wt_datagrams ms"

fun client_gets ::
  "'r rng_api \<Rightarrow> buf_api \<Rightarrow> env \<Rightarrow> writes_ok \<Rightarrow> session_kind \<Rightarrow> bytes \<Rightarrow> 'r world \<Rightarrow>
     'r world \<times> session_kind \<times> bytes list \<times> bool" where
  "client_gets G B E W Handshake d w = (w, Handshake, [], True)"
| "client_gets G B E W (OnWebSocket c st) d w =
     (case ws_turn G B E W (WsRelay (Some d)) st w of
        (w, st, as, res) \<Rightarrow> (w, OnWebSocket c st, ws_datagrams (outs as), res = Ok Waiting))"
| "client_gets G B E W (OnWebTransport c st) d w =
     (case wt_turn G B (\<lambda>_. E) W (WtRelay (Some d)) st w of
        (w, st, as, res) \<Rightarrow> (w, OnWebTransport c st, wt_datagrams (outs as), is_ok res))"

text \<open>A session that holds a port, of either kind.\<close>

lemma slot_owned_cases:
  assumes "slot_owned k = Some (key, c)" and "kind_inv k"
  obtains (ws) st h where "k = OnWebSocket c st" "ws_lease st = Some (BindLease h)" "bind_key h = key"
    | (wt) st h where "k = OnWebTransport c st" "wt_lease st = Some (BindLease h)" "bind_key h = key" "wt_udp st"
  using assms
  by (cases k) (auto simp: owned_def wt_inv_def wt_core_def split: option.splits lease.splits)

lemma client_sends_bound:
  assumes "slot_owned k = Some (key, c)" and "kind_inv k"
    and "\<And>h. bind_key h = key \<Longrightarrow> bind_send B E h d (net_of w) = ([e], Ok ())"
  shows "client_sends G B E W k d w = (w, k, [e], True)"
  using assms(1,2)
  by (cases rule: slot_owned_cases) (simp_all add: assms(3) ws_handle_datagram_def wt_handle_datagram_def)

lemma client_gets_bound:
  assumes "slot_owned k = Some (key, c)" and "kind_inv k" and "d \<noteq> []" and "W 0"
  shows "client_gets G B E W k d w = (w, k, [d], True)"
  using assms(1,2)
  by (cases rule: slot_owned_cases) (simp_all add: assms(3,4) ws_reply_def wt_handle_relay_def)

section \<open>Properties\<close>

text \<open>C3. However sessions come, go and interleave, the routes of the network are exactly the ports held by the leases of the
  sessions that are running, each leading to the channel of the session that bound it, and no port is held
  twice. In particular a session that ends, in whatever way, leaves no route behind.\<close>

theorem routes_are_the_leases:
  assumes "(sys_step G B)\<^sup>*\<^sup>* (sys_new g) s"
  shows "(hm_get (routes (net_of (sys_world s))) key = Some c \<longleftrightarrow>
      (\<exists>x \<in> set (sys_slots s). slot_owned (slot_kind x) = Some (key, c))) \<and>
    distinct (map fst (bindings (sys_slots s)))"
proof -
  have "routes_owned (sys_world s) (sys_slots s)" using sys.reachable_inv [OF assms] by (simp add: sys_inv_def)
  then have r: "hm_get (routes (net_of (sys_world s))) = map_of (bindings (sys_slots s))"
    and d: "distinct (map fst (bindings (sys_slots s)))"
    by (simp_all add: routes_owned_def route_map_def)
  have "(key, c) \<in> set (bindings (sys_slots s)) \<longleftrightarrow>
      (\<exists>x \<in> set (sys_slots s). slot_owned (slot_kind x) = Some (key, c))"
    by (force simp: bindings_def map_filter_def image_iff)
  with d show ?thesis by (simp add: r)
qed

theorem routes_are_the_leases_witness:
  "\<exists>s. (sys_step counter_rng be_buf)\<^sup>*\<^sup>* (sys_new 0) s \<and> hm_get (routes (net_of (sys_world s))) (demo_address, 80) = Some 0"
proof -
  from demo_system obtain s where s: "(sys_step counter_rng be_buf)\<^sup>*\<^sup>* (sys_new 0) s"
    "sys_slots s = [\<lparr>slot_client = demo_client, slot_kind = OnWebSocket 0 demo_session\<rparr>]" by blast
  from routes_are_the_leases [OF s(1), of "(demo_address, 80)" 0] s show ?thesis
    by (auto simp: demo_session_def owned_def)
qed

text \<open>The whole proxy refines its specification: whatever connects, however the sessions interleave and end, every
  step of the system is a sequence of the steps the specification allows (a client joins, is assigned an address,
  claims a free port of an address whose passcode it shows, opens a link to a service, gives up what it
  holds, leaves), and no other.\<close>

theorem system_refines_spec:
  assumes "(sys_step G B)\<^sup>*\<^sup>* (sys_new g) s" and "sys_step G B s t"
  shows "spec_step\<^sup>*\<^sup>* spec_new (spec_of s) \<and> spec_step\<^sup>*\<^sup>* (spec_of s) (spec_of t)"
  using sys_sim.sim_run [OF assms(1)] sys_sim.sim_reachable_step [OF assms] by (simp add: spec_of_new)

theorem system_refines_spec_witness:
  "\<exists>s t. sys_step counter_rng be_buf s t \<and> spec_clients (spec_of s) 1 = Some (Port (demo_address, 80)) \<and>
    spec_step\<^sup>*\<^sup>* spec_new (spec_of s) \<and> spec_step\<^sup>*\<^sup>* (spec_of s) (spec_of t)"
proof -
  from demo_system obtain s where s: "(sys_step counter_rng be_buf)\<^sup>*\<^sup>* (sys_new 0) s"
    "sys_slots s = [\<lparr>slot_client = demo_client, slot_kind = OnWebSocket 0 demo_session\<rparr>]" by blast
  have "sys_step counter_rng be_buf \<lparr>sys_world = sys_world s,
        sys_slots = [\<lparr>slot_client = demo_client, slot_kind = OnWebSocket 0 demo_session\<rparr>], sys_opened = sys_opened s\<rparr>
      \<lparr>sys_world = sys_world s,
        sys_slots = [\<lparr>slot_client = demo_client, slot_kind = OnWebSocket 0 demo_session\<rparr>], sys_opened = sys_opened s\<rparr>"
    by (rule single_ws_step [where ev = "WsRead (Some (Ok (WsPong [])))"]) simp_all
  moreover have "s = \<lparr>sys_world = sys_world s,
        sys_slots = [\<lparr>slot_client = demo_client, slot_kind = OnWebSocket 0 demo_session\<rparr>], sys_opened = sys_opened s\<rparr>"
    using s(2) by (cases s) simp
  ultimately have step: "sys_step counter_rng be_buf s s" by simp
  have "spec_clients (spec_of s) 1 = Some (Port (demo_address, 80))"
    by (simp add: spec_of_def slots_held_def s(2) demo_client_def demo_session_def)
  with system_refines_spec [OF s(1) step] step show ?thesis by blast
qed

text \<open>C17. The table of clients holds exactly the sessions that are running, under numbers that are all different, and the
  tables of the network are consistent: no session is forgotten and none outlives its entry.\<close>

theorem clients_are_the_sessions:
  assumes "(sys_step G B)\<^sup>*\<^sup>* (sys_new g) s"
  shows "(hm_get (clients (service (sys_world s))) i = Some h \<longleftrightarrow>
      (\<exists>x \<in> set (sys_slots s). slot_client x = h) \<and> client_id h = i) \<and>
    distinct (map (\<lambda>x. client_id (slot_client x)) (sys_slots s)) \<and> network_inv (net_of (sys_world s))"
proof -
  have c: "clients_inv (sys_opened s) (sys_world s) (map slot_client (sys_slots s))"
    and n: "network_inv (net_of (sys_world s))"
    using sys.reachable_inv [OF assms] by (simp_all add: sys_inv_def world_inv_network)
  have "distinct (map (\<lambda>x. client_id (slot_client x)) (sys_slots s))"
    using c by (simp add: clients_inv_def comp_def)
  moreover have "h \<in> set (map slot_client (sys_slots s)) \<longleftrightarrow> (\<exists>x \<in> set (sys_slots s). slot_client x = h)" by auto
  ultimately show ?thesis using c n unfolding clients_inv_def by blast
qed

theorem clients_are_the_sessions_witness:
  "\<exists>s. (sys_step counter_rng be_buf)\<^sup>*\<^sup>* (sys_new 0) s \<and> hm_get (clients (service (sys_world s))) 1 = Some demo_client"
proof -
  from demo_system obtain s where s: "(sys_step counter_rng be_buf)\<^sup>*\<^sup>* (sys_new 0) s"
    "sys_slots s = [\<lparr>slot_client = demo_client, slot_kind = OnWebSocket 0 demo_session\<rparr>]" by blast
  from clients_are_the_sessions [OF s(1), of 1 demo_client] s show ?thesis by (auto simp: demo_client_def)
qed

text \<open>C18. A proxy with no session left is as good as new: no client, no route, and no assignment with a port counted,
  so that every assignment expires in time.\<close>

theorem idle_proxy_is_clean:
  assumes "(sys_step G B)\<^sup>*\<^sup>* (sys_new g) s" and "sys_slots s = []"
  shows "hm_get (clients (service (sys_world s))) i = None \<and> hm_get (routes (net_of (sys_world s))) key = None \<and>
    (\<forall>a x. hm_get (by_address (net_of (sys_world s))) a = Some x \<longrightarrow>
       binds x = 0 \<and> (\<forall>now. ASSIGNMENT_TTL \<le> now - touched x \<longrightarrow> hm_get (by_address (expire now (net_of (sys_world s)))) a = None))"
proof -
  note inv = sys.reachable_inv [OF assms(1)]
  then have net: "network_inv (net_of (sys_world s))" by (simp add: sys_inv_def world_inv_def)
  from inv assms(2) have none: "hm_get (routes (net_of (sys_world s))) k = None" for k
    by (simp add: sys_inv_def routes_owned_def route_map_def)
  moreover from this have "bound_ports (net_of (sys_world s)) a = {}" for a by (simp add: bound_ports_def)
  ultimately have "binds x = 0" if "hm_get (by_address (net_of (sys_world s))) a = Some x" for a x
    using network_invD(5) [OF net that] by (simp add: assignment_ok_def)
  moreover have "hm_get (clients (service (sys_world s))) i = None"
    using inv assms(2) by (cases "hm_get (clients (service (sys_world s))) i") (auto simp: sys_inv_def clients_inv_def)
  ultimately show ?thesis
    using none by (auto simp: expire_by_address [OF network_invD(1) [OF net]] stale_def)
qed

theorem idle_proxy_is_clean_witness:
  "\<exists>s t. (sys_step counter_rng be_buf)\<^sup>*\<^sup>* (sys_new 0) s \<and> route_map (sys_world s) (demo_address, 80) = Some 0 \<and>
    sys_step counter_rng be_buf s t \<and> sys_slots t = [] \<and> hm_get (clients (service (sys_world t))) 1 = None \<and>
    hm_get (routes (net_of (sys_world t))) (demo_address, 80) = None"
proof -
  obtain w where w: "demo_step\<^sup>*\<^sup>* demo_new (demo_rt w (OnWebSocket 0 demo_session) demo_bound_exec)"
    "route_map w (demo_address, 80) = Some 0" using demo_port by blast
  let ?s = "rt_sys (demo_rt w (OnWebSocket 0 demo_session) demo_bound_exec)"
  have s: "(sys_step counter_rng be_buf)\<^sup>*\<^sup>* (sys_new 0) ?s"
    by (rule rt_reachable_sys [OF list_queue.mpsc_axioms list_queue.mpsc_axioms be.buf_axioms w(1)])
  obtain w' es where e: "session_end env_up demo_client (ws_lease demo_session) (Err (Bail ''Already closed?'')) w = (w', es)" by fastforce
  from sys_step.ws_ends [of 0 ?s 0 demo_session "WsRead None" counter_rng be_buf env_up] e
  obtain t where t: "sys_step counter_rng be_buf ?s t" "sys_slots t = []"
    by (force simp: demo_rt_def remove_slot_def)
  from s t(1) have "(sys_step counter_rng be_buf)\<^sup>*\<^sup>* (sys_new 0) t" by (rule rtranclp.rtrancl_into_rtrancl)
  from idle_proxy_is_clean [OF this t(2), of 1 "(demo_address, 80)"] s t w(2) show ?thesis
    by (intro exI [of _ ?s] exI [of _ t]) (simp add: demo_rt_def)
qed

text \<open>C10. A datagram between two clients, over whatever transports they use: what one sends to a port that another
  has bound is put on that session's channel and no other, in a frame that reads back as coming from the sender's own
  address and port, and when it is taken from the channel, the other client is sent exactly that frame. An answer to the address in it
  comes back to the sender.\<close>

theorem datagram_between_sessions:
  assumes "(sys_step G B)\<^sup>*\<^sup>* (sys_new g) s" and "buf B"
    and x: "x \<in> set (sys_slots s)" "slot_owned (slot_kind x) = Some (k, c)"
    and y: "y \<in> set (sys_slots s)" "slot_owned (slot_kind y) = Some ((peer_ip f, peer_port f), c')"
    and d: "frame_decode B d = Ok f" and up: "send_ok E c'" "W 0"
  shows "\<exists>out. client_sends G B E W (slot_kind x) d (sys_world s) = (sys_world s, slot_kind x, [Send c' out], True) \<and>
    frame_decode B out = Ok (frame_new (fst k) (snd k) (frame_data f)) \<and>
    client_gets G B E W (slot_kind y) out (sys_world s) = (sys_world s, slot_kind y, [out], True) \<and>
    hm_get (routes (net_of (sys_world s))) k = Some c"
proof -
  note inv = sys.reachable_inv [OF assms(1)]
  have net: "network_inv (net_of (sys_world s))" using inv by (simp add: sys_inv_def world_inv_def)
  have r: "hm_get (routes (net_of (sys_world s))) k0 = Some c0"
    if "z \<in> set (sys_slots s)" "slot_owned (slot_kind z) = Some (k0, c0)" for z k0 c0
  proof -
    from that have "(k0, c0) \<in> set (bindings (sys_slots s))" by (force simp: bindings_def map_filter_def image_iff)
    with inv show ?thesis by (simp add: sys_inv_def routes_owned_def route_map_def)
  qed
  have to: "hm_get (routes (net_of (sys_world s))) (peer_ip f, peer_port f) = Some c'" by (rule r [OF y])
  then obtain a where "hm_get (by_address (net_of (sys_world s))) (peer_ip f) = Some a"
    using network_invD(6) [OF net] by blast
  then have own: "is_network_address (peer_ip f)" using network_invD(5) [OF net] by (auto simp: assignment_ok_def)
  have len: "length (frame_data f) \<le> 65535" using buf.decode_Ok_bytes [OF assms(2) d] by simp
  have peer: "frame_peer f = SockV6 (peer_ip f) (peer_port f) 0 0" using own by (rule frame_peer_network)
  define out where "out = frame_bytes (frame_new (fst k) (snd k) (frame_data f))"
  have dec: "frame_decode B out = Ok (frame_new (fst k) (snd k) (frame_data f))"
    unfolding out_def by (rule buf.decode_frame_bytes [OF assms(2)]) (simp add: frame_new_def len)
  then have nonempty: "out \<noteq> []" by (auto simp: frame_decode_def HEADER_LEN_def)
  have send: "bind_send B E h d (net_of (sys_world s)) = ([Send c' out], Ok ())" if "bind_key h = k" for h
    using buf.bind_send_network [OF assms(2) d _ own, of E h "net_of (sys_world s)"] peer to up
    by (simp add: out_def chan_send_fst that)
  have "kind_inv (slot_kind x)" "kind_inv (slot_kind y)" using inv x(1) y(1) by (simp_all add: sys_inv_def)
  with client_sends_bound [OF x(2)] client_gets_bound [OF y(2)] send nonempty up dec r [OF x]
  show ?thesis by blast
qed

theorem datagram_between_sessions_witness:
  "\<exists>(s :: nat system) out. client_sends counter_rng be_buf env_up (\<lambda>_. True) (OnWebSocket 0 demo_session)
      (frame_bytes (demo_peer_frame demo_address)) (sys_world s) = (sys_world s, OnWebSocket 0 demo_session, [Send 0 out], True) \<and>
    client_gets counter_rng be_buf env_up (\<lambda>_. True) (OnWebSocket 0 demo_session) out (sys_world s) =
      (sys_world s, OnWebSocket 0 demo_session, [out], True) \<and>
    frame_decode be_buf out = Ok (frame_new demo_address 80 [1, 2, 3])"
proof -
  from demo_system obtain s where s: "(sys_step counter_rng be_buf)\<^sup>*\<^sup>* (sys_new 0) s"
    "sys_slots s = [\<lparr>slot_client = demo_client, slot_kind = OnWebSocket 0 demo_session\<rparr>]" by blast
  let ?x = "\<lparr>slot_client = demo_client, slot_kind = OnWebSocket 0 demo_session\<rparr>"
  have x: "?x \<in> set (sys_slots s)" "slot_owned (slot_kind ?x) = Some ((demo_address, 80), 0)"
    by (simp_all add: s(2) owned_def demo_session_def)
  have y: "slot_owned (slot_kind ?x) = Some ((peer_ip (demo_peer_frame demo_address), peer_port (demo_peer_frame demo_address)), 0)"
    using x(2) by (simp add: demo_peer_frame_def frame_new_def)
  have "send_ok env_up 0" by simp
  from datagram_between_sessions [OF s(1) be.buf_axioms x x(1) y demo_decode this, of "\<lambda>_. True"]
  have "\<exists>out. client_sends counter_rng be_buf env_up (\<lambda>_. True) (OnWebSocket 0 demo_session)
      (frame_bytes (demo_peer_frame demo_address)) (sys_world s) = (sys_world s, OnWebSocket 0 demo_session, [Send 0 out], True) \<and>
    client_gets counter_rng be_buf env_up (\<lambda>_. True) (OnWebSocket 0 demo_session) out (sys_world s) =
      (sys_world s, OnWebSocket 0 demo_session, [out], True) \<and>
    frame_decode be_buf out = Ok (frame_new demo_address 80 [1, 2, 3])"
    by (auto simp: demo_peer_frame_def frame_new_def simp del: client_sends.simps client_gets.simps)
  then show ?thesis by blast
qed

lemma sessions_calm:
  assumes "(sys_step G B)\<^sup>*\<^sup>* (sys_new g) s" and x: "x \<in> set (sys_slots s)"
  shows "is_ok (snd (service_remove_client (slot_client x) (sys_world s)))"
    and "ws_event_ok ev \<Longrightarrow> ws_turn G B E W ev st (sys_world s) = (w', st', as, Err e) \<Longrightarrow> unwinds e \<Longrightarrow> e = Diverges"
    and "slot_kind x = OnWebTransport c wst \<Longrightarrow> length (wt_cmdbuf wst) < MAX_COMMAND_SIZE"
    and "slot_kind x = OnWebTransport c wst \<Longrightarrow> wt_enabled wst wev \<Longrightarrow> wt_event_ok wst wev \<Longrightarrow>
      wt_turn G B T W wev wst (sys_world s) = (ww', wst', was, Err we) \<Longrightarrow> unwinds we \<Longrightarrow> we = Diverges"
proof -
  note inv = sys.reachable_inv [OF assms(1)]
  then have k: "kind_inv (slot_kind x)" using x by (simp add: sys_inv_def)
  have "hm_get (clients (service (sys_world s))) (client_id (slot_client x)) = Some (slot_client x)"
    using inv x by (simp add: sys_inv_def clients_inv_def)
  then show "is_ok (snd (service_remove_client (slot_client x) (sys_world s)))" by (simp add: service_remove_client_def)
  show "e = Diverges" if "ws_event_ok ev" "ws_turn G B E W ev st (sys_world s) = (w', st', as, Err e)" "unwinds e"
    using ws_turn_facts(3) [OF that(2) refl that(3)] that(1,3) by auto
  assume "slot_kind x = OnWebTransport c wst"
  with k have st: "wt_inv wst" "wt_relay wst = None \<or> wt_relay wst = Some c" by simp_all
  then show "length (wt_cmdbuf wst) < MAX_COMMAND_SIZE"
    by (auto simp: wt_inv_def wt_buffered_def MAX_COMMAND_SIZE_def split: if_splits)
  show "we = Diverges" if "wt_enabled wst wev" "wt_event_ok wst wev"
      "wt_turn G B T W wev wst (sys_world s) = (ww', wst', was, Err we)" "unwinds we"
    using wt_turn_facts [OF _ st] that by blast
qed

text \<open>No session of a running proxy panics, whatever its client, the internet and the other clients do: a turn ends in
  order or with an ordinary error, unless \<open>NEWADDR\<close> has the service draw addresses for ever; between turns what a
  WebTransport client has sent of a command is shorter than \<open>MAX_COMMAND_SIZE\<close>; and the end of the session finds
  its client in the table.\<close>

theorem sessions_never_panic:
  assumes "(sys_step G B)\<^sup>*\<^sup>* (sys_new g) s" and x: "x \<in> set (sys_slots s)"
  shows "is_ok (snd (service_remove_client (slot_client x) (sys_world s))) \<and>
   (case slot_kind x of
      Handshake \<Rightarrow> True
    | OnWebSocket c st \<Rightarrow> (\<forall>E W ev w' st' as e. ws_event_ok ev \<longrightarrow>
        ws_turn G B E W ev st (sys_world s) = (w', st', as, Err e) \<longrightarrow> unwinds e \<longrightarrow> e = Diverges)
    | OnWebTransport c st \<Rightarrow> length (wt_cmdbuf st) < MAX_COMMAND_SIZE \<and>
        (\<forall>T W ev w' st' as e. wt_enabled st ev \<longrightarrow> wt_event_ok st ev \<longrightarrow>
        wt_turn G B T W ev st (sys_world s) = (w', st', as, Err e) \<longrightarrow> unwinds e \<longrightarrow> e = Diverges))"
  using sessions_calm [OF assms] by (cases "slot_kind x") (simp_all only: session_kind.case simp_thms, blast+)

theorem sessions_never_panic_witness:
  "\<exists>s. (sys_step counter_rng be_buf)\<^sup>*\<^sup>* (sys_new 0) s \<and>
    (\<forall>w' st' as e. ws_turn counter_rng be_buf env_up (\<lambda>_. True) (WsRead (Some (Ok (WsText [0])))) demo_session (sys_world s) =
       (w', st', as, Err e) \<longrightarrow> unwinds e \<longrightarrow> e = Diverges) \<and> is_ok (snd (service_remove_client demo_client (sys_world s)))"
proof -
  from demo_system obtain s where s: "(sys_step counter_rng be_buf)\<^sup>*\<^sup>* (sys_new 0) s"
    "sys_slots s = [\<lparr>slot_client = demo_client, slot_kind = OnWebSocket 0 demo_session\<rparr>]" by blast
  have ok: "ws_event_ok (WsRead (Some (Ok (WsText [0]))))" by simp
  from sessions_never_panic [OF s(1), of "\<lparr>slot_client = demo_client, slot_kind = OnWebSocket 0 demo_session\<rparr>"] s(2)
  have all: "\<forall>E W ev w' st' as e. ws_event_ok ev \<longrightarrow> ws_turn counter_rng be_buf E W ev demo_session (sys_world s) =
       (w', st', as, Err e) \<longrightarrow> unwinds e \<longrightarrow> e = Diverges"
    and rem: "is_ok (snd (service_remove_client demo_client (sys_world s)))"
    by (simp_all del: ws_turn.simps)
  have "\<forall>w' st' as e. ws_turn counter_rng be_buf env_up (\<lambda>_. True) (WsRead (Some (Ok (WsText [0])))) demo_session (sys_world s) =
       (w', st', as, Err e) \<longrightarrow> unwinds e \<longrightarrow> e = Diverges"
    using all ok by blast
  with rem s(1) show ?thesis by blast
qed

section \<open>Properties of the runtime\<close>

text \<open>C1. The whole proxy, tasks and channels included, refines its specification: whatever connects, however the sessions and their
  tasks interleave, and however they end, every step is a sequence of the steps the specification allows (a client joins, is
  assigned an address, claims a free port of an address whose passcode it shows, opens a link to a service, gives up
  what it holds, leaves), and no other. No turn of a task changes who holds what.\<close>

theorem runtime_refines_spec:
  assumes "mpsc Q items" "mpsc U uitems" "buf B" and "(rt_step G B Q U hosts)\<^sup>*\<^sup>* (rt_new Q U g) s" and "rt_step G B Q U hosts s t"
  shows "spec_step\<^sup>*\<^sup>* spec_new (spec_of (rt_sys s)) \<and> spec_step\<^sup>*\<^sup>* (spec_of (rt_sys s)) (spec_of (rt_sys t)) \<and>
    (\<forall>x. task_step B Q U hosts s x \<longrightarrow> (\<exists>t. rt_step G B Q U hosts s t \<and> rt_exec t = x \<and> spec_of (rt_sys t) = spec_of (rt_sys s)))"
proof (intro conjI allI impI)
  note reach = rt_reachable_sys [OF assms(1-4)]
  show "spec_step\<^sup>*\<^sup>* spec_new (spec_of (rt_sys s))" using sys_sim.sim_run [OF reach] by (simp add: spec_of_new)
  from rt_step_sys [OF assms(1) rt_reachable_inv [OF assms(1-4)] assms(5)]
  show "spec_step\<^sup>*\<^sup>* (spec_of (rt_sys s)) (spec_of (rt_sys t))"
    using sys_sim.sim_reachable_step [OF reach] by auto
  show "\<exists>t. rt_step G B Q U hosts s t \<and> rt_exec t = x \<and> spec_of (rt_sys t) = spec_of (rt_sys s)" if "task_step B Q U hosts s x" for x
    by (rule exI [of _ "s\<lparr>rt_exec := x\<rparr>"]) (simp add: rt_step.task [OF that])
qed

theorem runtime_refines_spec_witness:
  "\<exists>s t :: list_runtime. demo_step s t \<and> spec_clients (spec_of (rt_sys s)) 1 = Some (Port (demo_address, 80)) \<and>
    spec_step\<^sup>*\<^sup>* spec_new (spec_of (rt_sys s)) \<and> spec_step\<^sup>*\<^sup>* (spec_of (rt_sys s)) (spec_of (rt_sys t))"
proof -
  obtain w where w: "demo_step\<^sup>*\<^sup>* demo_new (demo_rt w (OnWebSocket 0 demo_session) demo_bound_exec)" using demo_port by blast
  let ?s = "demo_rt w (OnWebSocket 0 demo_session) demo_bound_exec"
  have step: "demo_step ?s ?s"
    using demo_reads [where r = "Some (Ok (WsPong []))" and as = "[]" and w' = w and st' = demo_session, OF _ _ sees_env_of]
    by (simp add: carry_out_all_def)
  have "spec_clients (spec_of (rt_sys ?s)) 1 = Some (Port (demo_address, 80))"
    by (simp add: spec_of_def slots_held_def demo_rt_def demo_client_def demo_session_def)
  with step runtime_refines_spec [OF list_queue.mpsc_axioms list_queue.mpsc_axioms be.buf_axioms w step] show ?thesis by blast
qed



end
